(* ===== verification/Prelude.thy ===== *)
theory Prelude
  imports Main "HOL-Library.Word"
begin

unbundle bit_operations_syntax

text \<open>
  Shared vocabulary of the development: names for the machine types of the Rust sources,
  \<open>Result\<close> as a sum, byte-level string operations of the Rust standard library,
  little-endian integer codecs, the fixed-width codec interface with its client lemmas, and
  the interface of a component whose operations keep an invariant.

  Conventions used by every component theory:
  \<^item> \<open>u8\<close> \dots \<open>u64\<close> are words of that width, so arithmetic wraps exactly
    where the Rust release build wraps; \<open>usize\<close> is a 64-bit word where the code relies on
    saturation or overflow, and \<open>nat\<close> where it is only a length or an index;
  \<^item> an \<open>f32\<close> is its 32-bit IEEE-754 pattern (theory \<open>Float32\<close>);
  \<^item> \<open>Instant\<close> is an integer number of nanoseconds (the monotonic clock's
    representation is signed), \<open>Duration\<close> a natural number of nanoseconds;
  \<^item> a Rust \<open>String\<close> is its UTF-8 byte sequence, an Isabelle \<open>string\<close>;
  \<^item> \<open>Result<T, E>\<close> is \<open>E + T\<close>, written with \<open>Err\<close> and \<open>Ok\<close>.
\<close>

section \<open>Names of types and results\<close>

type_synonym u8 = "8 word"
type_synonym u16 = "16 word"
type_synonym u32 = "32 word"
type_synonym u64 = "64 word"
type_synonym usize = "64 word"
type_synonym bytes = "u8 list"
type_synonym instant = int
type_synonym duration = nat

abbreviation Err :: "'e \<Rightarrow> 'e + 'a" where
  "Err \<equiv> Inl"

abbreviation Ok :: "'a \<Rightarrow> 'e + 'a" where
  "Ok \<equiv> Inr"

definition is_ok :: "'e + 'a \<Rightarrow> bool" where
  "is_ok r = (case r of Inl _ \<Rightarrow> False | Inr _ \<Rightarrow> True)"

text \<open>The question mark operator: an error leaves the function, a value goes on.\<close>

fun and_then :: "'e + 'a \<Rightarrow> ('a \<Rightarrow> 'e + 'b) \<Rightarrow> 'e + 'b" where
  "and_then (Inl e) k = Inl e"
| "and_then (Inr a) k = k a"

lemma and_then_Ok [simp]: "and_then r k = Inr b \<longleftrightarrow> (\<exists>a. r = Inr a \<and> k a = Inr b)"
  by (cases r) simp_all

definition seconds :: "nat \<Rightarrow> duration" where
  "seconds n = n * 1000000000"

named_theorems codec_simps "widths and round trips of byte codecs"
named_theorems inv_intros "operations keep the component invariant"

section \<open>Saturating arithmetic on unsigned words\<close>

definition sat_add :: "'a::len word \<Rightarrow> 'a word \<Rightarrow> 'a word" where
  "sat_add a b = (if unat a + unat b < 2 ^ LENGTH('a) then a + b else - 1)"

definition sat_sub :: "'a::len word \<Rightarrow> 'a word \<Rightarrow> 'a word" where
  "sat_sub a b = (if b \<le> a then a - b else 0)"

section \<open>Strings as UTF-8 bytes\<close>

definition as_bytes :: "string \<Rightarrow> bytes" where
  "as_bytes s = map (\<lambda>c. word_of_nat (of_char c)) s"

definition string_of_bytes :: "bytes \<Rightarrow> string" where
  "string_of_bytes bs = map (\<lambda>b. char_of (unat b)) bs"

text \<open>\<open>std::str::from_utf8\<close>: well-formed UTF-8 as the Unicode standard defines it.\<close>

definition in_range :: "nat \<Rightarrow> nat \<Rightarrow> u8 \<Rightarrow> bool" where
  "in_range lo hi b = (lo \<le> unat b \<and> unat b \<le> hi)"

fun utf8_valid :: "bytes \<Rightarrow> bool" where
  "utf8_valid [] = True"
| "utf8_valid (a # bs) =
     (if unat a < 0x80 then utf8_valid bs
      else case bs of
             b # cs \<Rightarrow>
               (if in_range 0xC2 0xDF a then in_range 0x80 0xBF b \<and> utf8_valid cs
                else case cs of
                       c # ds \<Rightarrow>
                         (if in_range 0xE0 0xEF a
                          then in_range (if unat a = 0xE0 then 0xA0 else 0x80)
                                        (if unat a = 0xED then 0x9F else 0xBF) b
                               \<and> in_range 0x80 0xBF c \<and> utf8_valid ds
                          else case ds of
                                 d # es \<Rightarrow>
                                   in_range 0xF0 0xF4 a
                                   \<and> in_range (if unat a = 0xF0 then 0x90 else 0x80)
                                              (if unat a = 0xF4 then 0x8F else 0xBF) b
                                   \<and> in_range 0x80 0xBF c \<and> in_range 0x80 0xBF d \<and> utf8_valid es
                               | [] \<Rightarrow> False)
                     | [] \<Rightarrow> False)
           | [] \<Rightarrow> False)"

definition is_ascii_hexdigit :: "char \<Rightarrow> bool" where
  "is_ascii_hexdigit c = (c \<in> set ''0123456789abcdefABCDEF'')"

definition ascii_lower :: "char \<Rightarrow> char" where
  "ascii_lower c = (if 65 \<le> (of_char c :: nat) \<and> (of_char c :: nat) \<le> 90
                    then char_of ((of_char c :: nat) + 32) else c)"

definition to_ascii_lowercase :: "string \<Rightarrow> string" where
  "to_ascii_lowercase s = map ascii_lower s"

fun strip_prefix :: "string \<Rightarrow> string \<Rightarrow> string option" where
  "strip_prefix [] s = Some s"
| "strip_prefix (p # ps) [] = None"
| "strip_prefix (p # ps) (c # cs) = (if p = c then strip_prefix ps cs else None)"

definition starts_with :: "string \<Rightarrow> string \<Rightarrow> bool" where
  "starts_with p s = (strip_prefix p s \<noteq> None)"

text \<open>
  Rust's \<open>str::trim\<close> removes characters with the Unicode property White\_Space. In UTF-8
  these are six one-byte, two two-byte and seventeen three-byte sequences; \<open>ws_at\<close> is the
  number of bytes of the white-space character a string starts with (0 when there is none).
  \<open>ws_at_rev\<close> reads the same sequences backwards for the end of a string.
\<close>

definition is_ascii_ws :: "char \<Rightarrow> bool" where
  "is_ascii_ws c = (of_char c \<in> {9, 10, 11, 12, 13, 32 :: nat})"

definition is_ws2 :: "char \<Rightarrow> char \<Rightarrow> bool" where
  "is_ws2 a b = ((of_char a :: nat) = 194 \<and> (of_char b :: nat) \<in> {133, 160})"

definition is_ws3 :: "char \<Rightarrow> char \<Rightarrow> char \<Rightarrow> bool" where
  "is_ws3 a b c = (((of_char a :: nat), (of_char b :: nat), (of_char c :: nat)) = (225, 154, 128)
     \<or> (of_char a :: nat) = 226 \<and> (of_char b :: nat) = 128
         \<and> ((128 \<le> (of_char c :: nat) \<and> (of_char c :: nat) \<le> 138) \<or> (of_char c :: nat) \<in> {168, 169, 175})
     \<or> ((of_char a :: nat), (of_char b :: nat), (of_char c :: nat)) = (226, 129, 159)
     \<or> ((of_char a :: nat), (of_char b :: nat), (of_char c :: nat)) = (227, 128, 128))"

fun ws_at :: "string \<Rightarrow> nat" where
  "ws_at (a # b # c # s) = (if is_ascii_ws a then 1 else if is_ws2 a b then 2
                            else if is_ws3 a b c then 3 else 0)"
| "ws_at [a, b] = (if is_ascii_ws a then 1 else if is_ws2 a b then 2 else 0)"
| "ws_at [a] = (if is_ascii_ws a then 1 else 0)"
| "ws_at [] = 0"

fun ws_at_rev :: "string \<Rightarrow> nat" where
  "ws_at_rev (c # b # a # s) = (if is_ascii_ws c then 1 else if is_ws2 b c then 2
                                else if is_ws3 a b c then 3 else 0)"
| "ws_at_rev [b, a] = (if is_ascii_ws b then 1 else if is_ws2 a b then 2 else 0)"
| "ws_at_rev [a] = (if is_ascii_ws a then 1 else 0)"
| "ws_at_rev [] = 0"

function strip_ws :: "(string \<Rightarrow> nat) \<Rightarrow> string \<Rightarrow> string" where
  "strip_ws at s = (if at s = 0 \<or> s = [] then s else strip_ws at (drop (at s) s))"
  by pat_completeness auto
termination
  by (relation "measure (\<lambda>(at, s). length s)") auto

declare strip_ws.simps [simp del]

definition trim :: "string \<Rightarrow> string" where
  "trim s = rev (strip_ws ws_at_rev (rev (strip_ws ws_at s)))"

section \<open>Little-endian integers\<close>

definition le_bytes :: "nat \<Rightarrow> 'a::len word \<Rightarrow> bytes" where
  "le_bytes n w = map (\<lambda>i. ucast (drop_bit (8 * i) w)) [0..<n]"

primrec le_word :: "bytes \<Rightarrow> 'a::len word" where
  "le_word [] = 0"
| "le_word (b # bs) = ucast b OR push_bit 8 (le_word bs)"

abbreviation u16_le :: "u16 \<Rightarrow> bytes" where
  "u16_le \<equiv> le_bytes 2"

abbreviation u32_le :: "u32 \<Rightarrow> bytes" where
  "u32_le \<equiv> le_bytes 4"

abbreviation u64_le :: "u64 \<Rightarrow> bytes" where
  "u64_le \<equiv> le_bytes 8"

text \<open>\<open>slice::chunks_exact(n)\<close>: the whole chunks, a shorter tail left out.\<close>

function chunks_exact :: "nat \<Rightarrow> 'a list \<Rightarrow> 'a list list" where
  "chunks_exact n xs = (if n = 0 \<or> length xs < n then [] else take n xs # chunks_exact n (drop n xs))"
  by pat_completeness auto
termination
  by (relation "measure (\<lambda>(n, xs). length xs)") auto

declare chunks_exact.simps [simp del]

section \<open>Lemmas on saturation and strings\<close>

lemma unat_sat_add: "unat (sat_add a b) = min (unat a + unat b) (2 ^ LENGTH('a) - 1)"
  for a b :: "'a::len word"
proof (cases "unat a + unat b < 2 ^ LENGTH('a)")
  case True
  then show ?thesis by (simp add: sat_add_def unat_add_lem[THEN iffD1])
next
  case False
  then show ?thesis by (simp add: sat_add_def unsigned_minus_1_eq_mask mask_eq_exp_minus_1)
qed

lemma unat_sat_sub: "unat (sat_sub a b) = unat a - unat b"
  for a b :: "'a::len word"
  by (auto simp: sat_sub_def unat_sub word_le_nat_alt)

lemma sat_sub_add_cancel: "unat a + unat b < 2 ^ LENGTH('a) \<Longrightarrow> sat_sub (a + b) b = a"
  for a b :: "'a::len word"
  by (simp add: sat_sub_def word_le_nat_alt unat_add_lem[THEN iffD1])

lemma unat_u16_of_nat: "n < 2 ^ 16 \<Longrightarrow> unat (word_of_nat n :: u16) = n"
  by (simp add: unat_of_nat)

lemma strip_prefix_Some [simp]: "strip_prefix p s = Some r \<longleftrightarrow> s = p @ r"
  by (induction p s rule: strip_prefix.induct) auto

lemma starts_with_iff: "starts_with p s \<longleftrightarrow> (\<exists>r. s = p @ r)"
  unfolding starts_with_def using strip_prefix_Some by (metis option.exhaust option.distinct(1))

lemma starts_with_append [simp]: "starts_with p (p @ r)"
  by (auto simp: starts_with_iff)

section \<open>Lemmas on little-endian integers\<close>

lemma length_le_bytes [simp, codec_simps]: "length (le_bytes n w) = n"
  by (simp add: le_bytes_def)

lemma nth_le_bytes: "i < n \<Longrightarrow> le_bytes n w ! i = ucast (drop_bit (8 * i) w)"
  by (simp add: le_bytes_def)

lemma bit_le_word:
  "bit (le_word bs :: 'a::len word) k \<longleftrightarrow>
     k < LENGTH('a) \<and> k div 8 < length bs \<and> bit (bs ! (k div 8)) (k mod 8)"
proof (induction bs arbitrary: k)
  case Nil
  then show ?case by simp
next
  case (Cons b bs)
  show ?case
  proof (cases "k < 8")
    case True
    then show ?thesis
      by (auto simp: bit_or_iff bit_push_bit_iff bit_ucast_iff dest: bit_imp_le_length)
  next
    case False
    then have "\<not> bit b k" by (auto dest: bit_imp_le_length)
    moreover from False have "k div 8 = Suc ((k - 8) div 8)" "k mod 8 = (k - 8) mod 8"
      by (simp_all add: le_div_geq le_mod_geq)
    ultimately show ?thesis
      using False Cons.IH [of "k - 8"]
      by (auto simp: bit_or_iff bit_push_bit_iff bit_ucast_iff)
  qed
qed

lemma le_word_le_bytes [simp, codec_simps]:
  assumes "LENGTH('a::len) = 8 * n"
  shows "le_word (le_bytes n w) = (w :: 'a word)"
proof (rule bit_word_eqI)
  fix k assume "k < LENGTH('a)"
  then have "k div 8 < n" using assms by (simp add: less_mult_imp_div_less mult.commute)
  then show "bit (le_word (le_bytes n w) :: 'a word) k \<longleftrightarrow> bit w k"
    using \<open>k < LENGTH('a)\<close>
    by (simp add: bit_le_word nth_le_bytes bit_ucast_iff bit_drop_bit_eq)
qed

lemma le_bytes_le_word [codec_simps]:
  assumes "LENGTH('a::len) = 8 * n" and "length bs = n"
  shows "le_bytes n (le_word bs :: 'a word) = bs"
proof (rule nth_equalityI)
  show "length (le_bytes n (le_word bs :: 'a word)) = length bs" using assms by simp
next
  fix i assume "i < length (le_bytes n (le_word bs :: 'a word))"
  then have i: "i < n" by simp
  show "le_bytes n (le_word bs :: 'a word) ! i = bs ! i"
  proof (rule bit_word_eqI)
    fix k assume k: "k < LENGTH(8)"
    then have "8 * i + k < LENGTH('a)" using assms(1) i by simp
    with k i show "bit (le_bytes n (le_word bs :: 'a word) ! i) k \<longleftrightarrow> bit (bs ! i) k"
      by (simp add: nth_le_bytes bit_ucast_iff bit_drop_bit_eq bit_le_word assms(2))
  qed
qed

lemma le_bytes_inject [simp]:
  assumes "LENGTH('a::len) = 8 * n"
  shows "le_bytes n v = le_bytes n w \<longleftrightarrow> v = (w :: 'a word)"
  using assms by (metis le_word_le_bytes)

section \<open>The interface of a fixed-width codec\<close>

text \<open>
  A record format of the wire protocols: an encoder of constant width and a decoder that
  reads one record back. The laws are all a frame parser needs to recover the records of a
  body made of concatenated encodings.
\<close>

locale fixed_codec =
  fixes enc :: "'a \<Rightarrow> bytes"
    and dec :: "bytes \<Rightarrow> 'a"
    and width :: nat
  assumes width_pos: "0 < width"
    and length_enc: "length (enc x) = width"
    and dec_enc: "dec (enc x) = x"
begin

lemma enc_inject: "enc x = enc y \<longleftrightarrow> x = y"
  by (metis dec_enc)

lemma length_concat_enc: "length (concat (map enc xs)) = width * length xs"
  by (induction xs) (simp_all add: length_enc)

lemma chunks_concat_enc: "chunks_exact width (concat (map enc xs)) = map enc xs"
proof (induction xs)
  case Nil
  then show ?case using width_pos by (simp add: chunks_exact.simps)
next
  case (Cons x xs)
  then show ?case
    using width_pos by (subst chunks_exact.simps) (simp add: length_enc)
qed

lemma decode_concat_enc: "map dec (chunks_exact width (concat (map enc xs))) = xs"
  by (simp add: chunks_concat_enc dec_enc comp_def)

lemma concat_enc_inject: "concat (map enc xs) = concat (map enc ys) \<longleftrightarrow> xs = ys"
  by (metis decode_concat_enc)

lemma dec_take_enc: "dec (take width (enc x @ r)) = x"
  by (simp add: length_enc dec_enc)

lemma drop_enc: "drop width (enc x @ r) = r"
  by (simp add: length_enc)

end

interpretation u16_codec: fixed_codec "u16_le" "le_word :: bytes \<Rightarrow> u16" 2
  by unfold_locales simp_all

interpretation u32_codec: fixed_codec "u32_le" "le_word :: bytes \<Rightarrow> u32" 4
  by unfold_locales simp_all

interpretation u64_codec: fixed_codec "u64_le" "le_word :: bytes \<Rightarrow> u64" 8
  by unfold_locales simp_all

section \<open>The interface of a component that keeps an invariant\<close>

text \<open>
  A component is a state, a step function for its operations (calls in any order, failed
  calls included) and an invariant. What holds of one operation holds of every history.
\<close>

locale guarded_component =
  fixes step :: "'op \<Rightarrow> 's \<Rightarrow> 's"
    and init :: 's
    and inv :: "'s \<Rightarrow> bool"
  assumes init_inv: "inv init"
    and step_inv: "inv s \<Longrightarrow> inv (step x s)"
begin

lemma fold_inv: "inv s \<Longrightarrow> inv (fold step xs s)"
  by (induction xs arbitrary: s) (simp_all add: step_inv)

lemma history_inv: "inv (fold step xs init)"
  by (rule fold_inv) (rule init_inv)

end

section \<open>The interface of a delta stream\<close>

text \<open>
  A sender that transmits differences between consecutive states and a receiver that applies
  them to what it holds. The law speaks about a receiver that holds a state similar to the
  sender's previous one, for the changes the encoding can express; then the receiver follows
  the sender through any sequence of such changes.
\<close>

primrec follow_deltas :: "('s \<Rightarrow> 's \<Rightarrow> 'd) \<Rightarrow> ('d \<Rightarrow> 's \<Rightarrow> 's) \<Rightarrow> 's \<Rightarrow> 's list \<Rightarrow> 's \<Rightarrow> 's" where
  "follow_deltas diff patch a [] r = r"
| "follow_deltas diff patch a (b # bs) r = follow_deltas diff patch b bs (patch (diff a b) r)"

primrec chain_of :: "('s \<Rightarrow> 's \<Rightarrow> bool) \<Rightarrow> 's \<Rightarrow> 's list \<Rightarrow> bool" where
  "chain_of P a [] = True"
| "chain_of P a (b # bs) = (P a b \<and> chain_of P b bs)"

locale delta_stream =
  fixes diff :: "'s \<Rightarrow> 's \<Rightarrow> 'd"
    and patch :: "'d \<Rightarrow> 's \<Rightarrow> 's"
    and sim :: "'s \<Rightarrow> 's \<Rightarrow> bool"
    and expressible :: "'s \<Rightarrow> 's \<Rightarrow> bool"
  assumes patch_diff: "sim r a \<Longrightarrow> expressible a b \<Longrightarrow> sim (patch (diff a b) r) b"
begin

lemma follow_sim:
  "sim r a \<Longrightarrow> chain_of expressible a bs \<Longrightarrow> sim (follow_deltas diff patch a bs r) (last (a # bs))"
  by (induction bs arbitrary: a r) (simp_all add: patch_diff)

end

end
