(* ===== verification/Float32.thy ===== *)
theory Float32
  imports Prelude
begin

unbundle bit_operations_syntax

text \<open>
  Rust's \<open>f32\<close> as IEEE-754 binary32 bit patterns. Comparison, equality,
  \<open>total_cmp\<close>, addition, subtraction and multiplication (round to nearest, ties to even)
  are defined on the patterns, so that a component that compares or combines coordinates is
  modelled with the arithmetic the hardware performs: NaN is unequal to itself, the two
  zeros are equal, sums round and overflow to infinity. A NaN result carries the canonical
  quiet pattern; no component reads a NaN's payload.

  A finite pattern denotes an integer multiple of \<open>2^-149\<close>; \<open>f32_scaled\<close> is that
  integer, and for the infinities it is a value beyond every finite one, so it orders all
  patterns that are not NaN.
\<close>

type_synonym f32 = u32

section \<open>Fields and classification\<close>

definition f32_neg :: "f32 \<Rightarrow> bool" where
  "f32_neg x = bit x 31"

definition f32_exp :: "f32 \<Rightarrow> nat" where
  "f32_exp x = unat (take_bit 8 (drop_bit 23 x))"

definition f32_man :: "f32 \<Rightarrow> nat" where
  "f32_man x = unat (take_bit 23 x)"

definition f32_is_nan :: "f32 \<Rightarrow> bool" where
  "f32_is_nan x = (f32_exp x = 255 \<and> f32_man x \<noteq> 0)"

definition f32_is_infinite :: "f32 \<Rightarrow> bool" where
  "f32_is_infinite x = (f32_exp x = 255 \<and> f32_man x = 0)"

definition f32_is_zero :: "f32 \<Rightarrow> bool" where
  "f32_is_zero x = (f32_exp x = 0 \<and> f32_man x = 0)"

definition f32_mag :: "f32 \<Rightarrow> nat" where
  "f32_mag x = (if f32_exp x = 0 then f32_man x else (f32_man x + 2 ^ 23) * 2 ^ (f32_exp x - 1))"

definition f32_scaled :: "f32 \<Rightarrow> int" where
  "f32_scaled x = (if f32_neg x then - int (f32_mag x) else int (f32_mag x))"

definition F32_INFINITY :: f32 where
  "F32_INFINITY = 0x7F800000"

definition F32_NAN :: f32 where
  "F32_NAN = 0x7FC00000"

section \<open>Comparison\<close>

definition f32_eq :: "f32 \<Rightarrow> f32 \<Rightarrow> bool" where
  "f32_eq a b = (\<not> f32_is_nan a \<and> \<not> f32_is_nan b \<and> f32_scaled a = f32_scaled b)"

definition f32_lt :: "f32 \<Rightarrow> f32 \<Rightarrow> bool" where
  "f32_lt a b = (\<not> f32_is_nan a \<and> \<not> f32_is_nan b \<and> f32_scaled a < f32_scaled b)"

definition f32_le :: "f32 \<Rightarrow> f32 \<Rightarrow> bool" where
  "f32_le a b = (\<not> f32_is_nan a \<and> \<not> f32_is_nan b \<and> f32_scaled a \<le> f32_scaled b)"

text \<open>\<open>f32::total_cmp\<close> compares these keys: the sign bit reverses the order.\<close>

definition f32_total_key :: "f32 \<Rightarrow> int" where
  "f32_total_key x = (if f32_neg x then - int (unat (take_bit 31 x)) - 1 else int (unat x))"

section \<open>Arithmetic: round to nearest, ties to even\<close>

fun bit_length :: "nat \<Rightarrow> nat" where
  "bit_length n = (if n = 0 then 0 else Suc (bit_length (n div 2)))"

declare bit_length.simps [simp del]

text \<open>
  \<open>f32_round neg N d\<close> is the pattern nearest to \<open>N * 2^-(149 + d)\<close> with the given sign. The
  dropped bits are those below the format's quantum: all \<open>d\<close> bits under \<open>2^-149\<close>, or
  all but the 24 leading bits. The rounded significand plus the exponent field's weight is
  the pattern itself, a carry into the exponent included; past the largest finite value it
  is infinity.
\<close>

definition round_shift :: "nat \<Rightarrow> nat \<Rightarrow> nat" where
  "round_shift N q = (let m = N div 2 ^ q; r = N mod 2 ^ q
     in if 2 * r > 2 ^ q \<or> 2 * r = 2 ^ q \<and> odd m then m + 1 else m)"

definition f32_round :: "bool \<Rightarrow> nat \<Rightarrow> nat \<Rightarrow> f32" where
  "f32_round neg N d =
     (let q = max d (bit_length N - 24);
          p = round_shift N q + (q - d) * 2 ^ 23;
          pat = min p 0x7F800000
      in word_of_nat (if neg then 0x80000000 + pat else pat))"

definition f32_add :: "f32 \<Rightarrow> f32 \<Rightarrow> f32" where
  "f32_add a b =
     (if f32_is_nan a \<or> f32_is_nan b then F32_NAN
      else if f32_is_infinite a \<and> f32_is_infinite b then (if f32_neg a = f32_neg b then a else F32_NAN)
      else if f32_is_infinite a then a
      else if f32_is_infinite b then b
      else let s = f32_scaled a + f32_scaled b
           in if s = 0 then (if f32_neg a \<and> f32_neg b then 0x80000000 else 0)
              else f32_round (s < 0) (nat \<bar>s\<bar>) 0)"

definition f32_minus :: "f32 \<Rightarrow> f32" where
  "f32_minus a = a XOR 0x80000000"

definition f32_sub :: "f32 \<Rightarrow> f32 \<Rightarrow> f32" where
  "f32_sub a b = f32_add a (if f32_is_nan b then b else f32_minus b)"

definition f32_mul :: "f32 \<Rightarrow> f32 \<Rightarrow> f32" where
  "f32_mul a b =
     (if f32_is_nan a \<or> f32_is_nan b then F32_NAN
      else if f32_is_infinite a \<and> f32_is_zero b \<or> f32_is_zero a \<and> f32_is_infinite b then F32_NAN
      else if f32_is_infinite a \<or> f32_is_infinite b
           then (if f32_neg a \<noteq> f32_neg b then 0xFF800000 else F32_INFINITY)
      else f32_round (f32_neg a \<noteq> f32_neg b) (f32_mag a * f32_mag b) 149)"

text \<open>\<open>[f32; 3]\<close>, its derived equality, and the squared distance used by the streams.\<close>

type_synonym vec3 = "f32 \<times> f32 \<times> f32"

fun vec3_eq :: "vec3 \<Rightarrow> vec3 \<Rightarrow> bool" where
  "vec3_eq (a, b, c) (x, y, z) = (f32_eq a x \<and> f32_eq b y \<and> f32_eq c z)"

fun vec3_is_nan :: "vec3 \<Rightarrow> bool" where
  "vec3_is_nan (a, b, c) = (f32_is_nan a \<or> f32_is_nan b \<or> f32_is_nan c)"

section \<open>Lemmas\<close>

lemma f32_eq_refl [simp]: "f32_eq a a \<longleftrightarrow> \<not> f32_is_nan a"
  by (simp add: f32_eq_def)

lemma f32_eq_sym: "f32_eq a b \<longleftrightarrow> f32_eq b a"
  by (auto simp: f32_eq_def)

lemma f32_eq_trans: "f32_eq a b \<Longrightarrow> f32_eq b c \<Longrightarrow> f32_eq a c"
  by (auto simp: f32_eq_def)

lemma f32_lt_irrefl [simp]: "\<not> f32_lt a a"
  by (simp add: f32_lt_def)

lemma f32_lt_trans: "f32_lt a b \<Longrightarrow> f32_lt b c \<Longrightarrow> f32_lt a c"
  by (simp add: f32_lt_def)

lemma f32_lt_not_nan: "f32_lt a b \<Longrightarrow> \<not> f32_is_nan a \<and> \<not> f32_is_nan b"
  by (simp add: f32_lt_def)

lemma f32_total_key_neg: "f32_total_key a < 0 \<longleftrightarrow> f32_neg a"
  by (auto simp: f32_total_key_def simp del: of_nat_unat)

lemma f32_total_key_inject: "f32_total_key a = f32_total_key b \<longleftrightarrow> a = b"
proof
  assume eq: "f32_total_key a = f32_total_key b"
  then have sgn: "f32_neg a = f32_neg b"
    by (metis f32_total_key_neg)
  have "take_bit 31 a = take_bit 31 b"
    using eq sgn
    by (auto simp: f32_total_key_def split: if_splits dest!: word_uint_eq_iff [THEN iffD2])
  then have low: "bit a k = bit b k" if "k < 31" for k
    using that by (metis bit_take_bit_iff)
  show "a = b"
  proof (rule bit_word_eqI)
    fix k assume "k < LENGTH(32)"
    then have "k < 31 \<or> k = 31" by auto
    then show "bit a k = bit b k" using low sgn by (auto simp: f32_neg_def)
  qed
qed simp

lemma vec3_eq_refl [simp]: "vec3_eq v v \<longleftrightarrow> \<not> vec3_is_nan v"
  by (cases v) auto

lemma vec3_eq_sym: "vec3_eq u v \<longleftrightarrow> vec3_eq v u"
  by (cases u; cases v) (auto simp: f32_eq_sym)

section \<open>Rounding is monotone and exact on finite patterns\<close>

lemma bit_length_bounds: "N > 0 \<Longrightarrow> 2 ^ (bit_length N - 1) \<le> N \<and> N < 2 ^ bit_length N \<and> 0 < bit_length N"
proof (induction N rule: bit_length.induct)
  case (1 n)
  show ?case
  proof (cases "n div 2 = 0")
    case True
    then have "n = 1" using 1(2) by auto
    then show ?thesis by (simp add: bit_length.simps)
  next
    case False
    then have h: "2 ^ (bit_length (n div 2) - 1) \<le> n div 2 \<and> n div 2 < 2 ^ bit_length (n div 2) \<and> 0 < bit_length (n div 2)"
      using 1 by auto
    moreover have "bit_length n = Suc (bit_length (n div 2))" using 1(2) by (simp add: bit_length.simps [of n])
    ultimately show ?thesis by (cases "bit_length (n div 2)") auto
  qed
qed

lemma bit_length_unique: "2 ^ k \<le> N \<Longrightarrow> N < 2 ^ Suc k \<Longrightarrow> bit_length N = Suc k"
proof -
  assume a: "2 ^ k \<le> N" "N < 2 ^ Suc k"
  have "(0::nat) < 2 ^ k" by simp
  then have "N > 0" using a(1) by linarith
  note b = bit_length_bounds [OF this]
  have "(2::nat) ^ (bit_length N - 1) < 2 ^ Suc k" "(2::nat) ^ k < 2 ^ bit_length N" using a b by linarith+
  then have "bit_length N - 1 < Suc k" "k < bit_length N" by (simp_all only: power_strict_increasing_iff)
  then show ?thesis using b by simp
qed

lemma round_shift_mono: "M \<le> N \<Longrightarrow> round_shift M q \<le> round_shift N q"
proof -
  assume "M \<le> N"
  then have d: "M div 2 ^ q \<le> N div 2 ^ q" by (rule div_le_mono)
  show ?thesis
  proof (cases "M div 2 ^ q = N div 2 ^ q")
    case True
    then have "M mod 2 ^ q \<le> N mod 2 ^ q" using \<open>M \<le> N\<close> by (metis add_le_cancel_left div_mult_mod_eq)
    then show ?thesis using True by (auto simp: round_shift_def Let_def)
  next
    case False
    then show ?thesis using d by (auto simp: round_shift_def Let_def)
  qed
qed

lemma round_shift_exact: "round_shift (m * 2 ^ q) q = m"
  by (simp add: round_shift_def Let_def)

text \<open>The magnitude pattern to which a sum is rounded, before the cap at infinity.\<close>

definition round_pattern :: "nat \<Rightarrow> nat" where
  "round_pattern N = round_shift N (bit_length N - 24) + (bit_length N - 24) * 2 ^ 23"

lemma f32_round_pattern: "f32_round neg N 0 =
    word_of_nat (if neg then 0x80000000 + min (round_pattern N) 0x7F800000 else min (round_pattern N) 0x7F800000)"
  by (simp add: f32_round_def round_pattern_def Let_def)

lemma round_pattern_small: "N < 2 ^ 24 \<Longrightarrow> round_pattern N = N"
proof (cases "N = 0")
  case False
  assume "N < 2 ^ 24"
  moreover have "2 ^ (bit_length N - 1) \<le> N" "0 < bit_length N" using bit_length_bounds [of N] False by auto
  ultimately have "(2::nat) ^ (bit_length N - 1) < 2 ^ 24" by linarith
  then have "bit_length N - 1 < 24" by (simp only: power_strict_increasing_iff)
  then have "bit_length N - 24 = 0" by simp
  then show ?thesis by (simp add: round_pattern_def round_shift_def)
qed (simp add: round_pattern_def round_shift_def bit_length.simps)

lemma round_pattern_large:
  assumes "2 ^ (23 + q) \<le> N" and "N < 2 ^ (24 + q)"
  shows "round_pattern N = round_shift N q + q * 2 ^ 23"
    and "2 ^ 23 + q * 2 ^ 23 \<le> round_pattern N" and "round_pattern N \<le> 2 ^ 24 + q * 2 ^ 23"
proof -
  have "bit_length N = 24 + q" using bit_length_unique [of "23 + q" N] assms by simp
  then show eq: "round_pattern N = round_shift N q + q * 2 ^ 23" by (simp add: round_pattern_def)
  have "round_shift (2 ^ 23 * 2 ^ q) q \<le> round_shift N q" "round_shift N q \<le> round_shift (2 ^ 24 * 2 ^ q) q"
    using assms by (intro round_shift_mono; simp add: power_add)+
  then show "2 ^ 23 + q * 2 ^ 23 \<le> round_pattern N" "round_pattern N \<le> 2 ^ 24 + q * 2 ^ 23"
    unfolding eq round_shift_exact by simp_all
qed

lemma round_pattern_mono:
  assumes "M \<le> N"
  shows "round_pattern M \<le> round_pattern N"
proof -
  have scale: "\<exists>q. 2 ^ (23 + q) \<le> K \<and> K < 2 ^ (24 + q)" if "2 ^ 24 \<le> K" for K :: nat
  proof -
    have "0 < K" using that by (rule order_less_le_trans [rotated]) simp
    note b = bit_length_bounds [OF this]
    have "(2::nat) ^ 24 < 2 ^ bit_length K" using that b by linarith
    then have "24 < bit_length K" by (simp only: power_strict_increasing_iff)
    then show ?thesis using b by (intro exI [of _ "bit_length K - 24"]) simp
  qed
  show ?thesis
  proof (cases "M < 2 ^ 24")
    case M: True
    show ?thesis
    proof (cases "N < 2 ^ 24")
      case True
      then show ?thesis using M assms by (simp add: round_pattern_small)
    next
      case False
      then obtain q where q: "2 ^ (23 + q) \<le> N" "N < 2 ^ (24 + q)" using scale [of N] by (auto simp: not_less)
      have "q \<noteq> 0"
      proof
        assume "q = 0"
        then show False using q(2) False by simp
      qed
      then have "2 ^ 24 \<le> round_pattern N" using round_pattern_large(2) [OF q] by simp
      then show ?thesis using M by (simp add: round_pattern_small)
    qed
  next
    case False
    then obtain p q where p: "2 ^ (23 + p) \<le> M" "M < 2 ^ (24 + p)" and q: "2 ^ (23 + q) \<le> N" "N < 2 ^ (24 + q)"
      using scale [of M] scale [of N] assms by (auto simp: not_less)
    have "(2::nat) ^ (23 + p) < 2 ^ (24 + q)" using p q assms by linarith
    then have "p \<le> q" by (simp only: power_strict_increasing_iff)
    show ?thesis
    proof (cases "p = q")
      case True
      then show ?thesis
        using round_pattern_large(1) [OF p] round_pattern_large(1) [OF q] round_shift_mono [OF assms] by simp
    next
      case False
      then have "Suc p * 2 ^ 23 \<le> q * 2 ^ 23" using \<open>p \<le> q\<close> by (intro mult_le_mono1) simp
      then show ?thesis using round_pattern_large(3) [OF p] round_pattern_large(2) [OF q] by simp
    qed
  qed
qed
section \<open>Patterns that are zero or positive\<close>

text \<open>A pattern up to that of infinity: not NaN, and the sign bit clear.\<close>

abbreviation f32_nonneg :: "f32 \<Rightarrow> bool" where
  "f32_nonneg x \<equiv> x \<le> 0x7F800000"

lemma f32_man_mod: "f32_man x = unat x mod 2 ^ 23"
  by (simp only: f32_man_def unsigned_take_bit_eq take_bit_nat_def)

lemma f32_exp_mod: "f32_exp x = unat x div 2 ^ 23 mod 2 ^ 8"
proof -
  have "unat x < 2 ^ 32" using unsigned_less [of x] by simp
  then show ?thesis
    by (simp only: f32_exp_def unsigned_take_bit_eq unsigned_drop_bit_eq take_bit_nat_def drop_bit_nat_def) simp
qed

lemma f32_neg_unat: "f32_neg x \<longleftrightarrow> 2 ^ 31 \<le> unat x"
proof -
  have lt: "unat x < 2 * 2 ^ 31" using unsigned_less [of x] by simp
  have "bit x 31 \<longleftrightarrow> bit (unat x) 31" by (simp add: bit_unsigned_iff)
  also have "\<dots> \<longleftrightarrow> odd (unat x div 2 ^ 31)" by (rule bit_iff_odd)
  also have "\<dots> \<longleftrightarrow> unat x div 2 ^ 31 \<noteq> 0" using lt by (auto elim!: oddE)
  finally show ?thesis by (simp add: f32_neg_def div_eq_0_iff not_less)
qed

lemma f32_nonneg_unat: "f32_nonneg x \<longleftrightarrow> unat x \<le> 255 * 2 ^ 23"
  by (simp add: word_le_nat_alt)

lemma f32_nonneg_facts:
  assumes "f32_nonneg x"
  shows "\<not> f32_neg x" "\<not> f32_is_nan x" "unat x = f32_exp x * 2 ^ 23 + f32_man x"
    "f32_is_infinite x \<longleftrightarrow> x = 0x7F800000" "f32_man x < 2 ^ 23" "f32_exp x \<le> 255" "f32_scaled x = int (f32_mag x)"
proof -
  have le: "unat x \<le> 255 * 2 ^ 23" using assms f32_nonneg_unat by blast
  show neg: "\<not> f32_neg x" using le by (simp add: f32_neg_unat)
  have "unat x div 2 ^ 23 \<le> 255 * 2 ^ 23 div 2 ^ 23" using le by (rule div_le_mono)
  then have d: "unat x div 2 ^ 23 \<le> 255" by simp
  then have e: "f32_exp x = unat x div 2 ^ 23" by (simp add: f32_exp_mod)
  then show eq: "unat x = f32_exp x * 2 ^ 23 + f32_man x" by (simp add: f32_man_mod)
  show "f32_exp x \<le> 255" using e d by simp
  show "\<not> f32_is_nan x" using eq le by (auto simp: f32_is_nan_def)
  show "f32_is_infinite x \<longleftrightarrow> x = 0x7F800000"
  proof
    assume "f32_is_infinite x"
    then have "unat x = unat (0x7F800000 :: f32)" using eq by (simp add: f32_is_infinite_def)
    then show "x = 0x7F800000" by (rule unsigned_word_eqI)
  qed (use e in \<open>simp add: f32_is_infinite_def f32_man_mod\<close>)
  show "f32_man x < 2 ^ 23" by (simp add: f32_man_mod)
  show "f32_scaled x = int (f32_mag x)" using neg by (simp add: f32_scaled_def)
qed
text \<open>The magnitude of a finite pattern rounds back to the pattern, so the order of magnitudes is that of patterns.\<close>

lemma round_pattern_mag:
  assumes "f32_nonneg x"
  shows "round_pattern (f32_mag x) = unat x"
proof (cases "f32_exp x")
  case 0
  then show ?thesis using f32_nonneg_facts(3,5) [OF assms] by (simp add: f32_mag_def round_pattern_small)
next
  case (Suc e)
  note ff = f32_nonneg_facts(3,5) [OF assms]
  have mag: "f32_mag x = (f32_man x + 2 ^ 23) * 2 ^ e" using Suc by (simp add: f32_mag_def)
  have "2 ^ (23 + e) \<le> f32_mag x" "f32_mag x < 2 ^ (24 + e)" using ff(2) by (simp_all add: mag power_add)
  then have "round_pattern (f32_mag x) = round_shift (f32_mag x) e + e * 2 ^ 23" by (rule round_pattern_large(1))
  then show ?thesis using ff Suc by (simp add: mag round_shift_exact)
qed

lemma f32_mag_mono: "f32_nonneg x \<Longrightarrow> f32_nonneg y \<Longrightarrow> f32_mag x \<le> f32_mag y \<longleftrightarrow> x \<le> y"
proof -
  have strict: "f32_mag x < f32_mag y" if "f32_nonneg x" "f32_nonneg y" "x < y" for x y
  proof (rule ccontr)
    assume "\<not> ?thesis"
    then have "round_pattern (f32_mag y) \<le> round_pattern (f32_mag x)" by (intro round_pattern_mono) simp
    then show False using that round_pattern_mag by (simp add: word_less_nat_alt)
  qed
  assume "f32_nonneg x" "f32_nonneg y"
  then show ?thesis using strict [of x y] strict [of y x] by (cases x y rule: linorder_cases) auto
qed

lemma f32_nonneg_order:
  assumes "f32_nonneg x" and "f32_nonneg y"
  shows "f32_lt x y \<longleftrightarrow> x < y" "f32_le x y \<longleftrightarrow> x \<le> y" "f32_eq x y \<longleftrightarrow> x = y"
  using f32_nonneg_facts(2,7) [OF assms(1)] f32_nonneg_facts(2,7) [OF assms(2)] f32_mag_mono [OF assms] f32_mag_mono [OF assms(2,1)]
  by (auto simp: f32_lt_def f32_le_def f32_eq_def)

text \<open>A weight: not below zero. The negative zero counts as one.\<close>

definition f32_weight :: "f32 \<Rightarrow> bool" where
  "f32_weight w = f32_le 0 w"

lemma f32_weight_cases:
  assumes "f32_weight w"
  shows "f32_nonneg w \<or> w = 0x80000000"
proof (cases "f32_neg w")
  case True
  have le: "f32_le 0 w" using assms by (simp add: f32_weight_def)
  have "f32_mag w = 0" using le True by (simp add: f32_le_def f32_scaled_def f32_nonneg_facts)
  then have z: "f32_exp w = 0" "f32_man w = 0" by (auto simp: f32_mag_def split: if_splits)
  have "unat w < 2 ^ 32" using unsigned_less [of w] by simp
  have "unat w = unat w div 2 ^ 23 * 2 ^ 23" using z by (simp only: f32_man_mod) (metis add.right_neutral div_mult_mod_eq)
  also have "unat w div 2 ^ 23 = unat w div 2 ^ 23 div 2 ^ 8 * 2 ^ 8"
    using z by (simp only: f32_exp_mod) (metis add.right_neutral div_mult_mod_eq)
  finally have "unat w = unat w div 2 ^ 31 * 2 ^ 31" by (simp add: div_mult2_eq [symmetric])
  moreover have "unat w div 2 ^ 31 = 1" using True \<open>unat w < 2 ^ 32\<close> by (simp add: f32_neg_unat)
  ultimately have "unat w = unat (0x80000000 :: f32)" by simp
  then show ?thesis by (simp add: unsigned_word_eqI)
next
  case False
  then have "unat w < 2 ^ 31" by (simp add: f32_neg_unat not_le)
  then have "unat w = f32_exp w * 2 ^ 23 + f32_man w" "f32_exp w \<le> 255" by (simp_all add: f32_exp_mod f32_man_mod)
  moreover have "\<not> f32_is_nan w" using assms by (simp add: f32_weight_def f32_le_def)
  moreover have "f32_man w < 2 ^ 23" by (simp add: f32_man_mod)
  ultimately have "unat w \<le> 255 * 2 ^ 23" by (cases "f32_exp w = 255") (auto simp: f32_is_nan_def)
  then show ?thesis using f32_nonneg_unat by blast
qed

lemma f32_add_weight:
  assumes d: "f32_nonneg d" and w: "f32_weight w"
  shows "f32_add d w = (if d = 0x7F800000 \<or> w = 0x7F800000 then 0x7F800000
     else word_of_nat (min (round_pattern (f32_mag d + f32_mag w)) 0x7F800000))"
proof -
  have z: "f32_exp 0x80000000 = 0" "f32_man 0x80000000 = 0" "f32_exp 0x7F800000 = 255"
    by (simp_all add: f32_exp_mod f32_man_mod)
  have w': "\<not> f32_is_nan w" "f32_is_infinite w \<longleftrightarrow> w = 0x7F800000" "f32_scaled w = int (f32_mag w)" "w = 0x7F800000 \<longrightarrow> \<not> f32_neg w"
    using f32_weight_cases [OF w] f32_nonneg_facts(1,2,4,7) [of w] z
    by (auto simp: f32_is_nan_def f32_is_infinite_def f32_scaled_def f32_mag_def)
  note d' = f32_nonneg_facts(1,2,4,7) [OF d]
  show ?thesis
  proof (cases "d = 0x7F800000 \<or> w = 0x7F800000")
    case True
    then show ?thesis using w' d' by (auto simp: f32_add_def)
  next
    case False
    then have fin: "\<not> f32_is_infinite d" "\<not> f32_is_infinite w" using w'(2) d'(3) by simp_all
    have nat: "nat \<bar>int (f32_mag d) + int (f32_mag w)\<bar> = f32_mag d + f32_mag w" by simp
    show ?thesis
    proof (cases "f32_mag d + f32_mag w = 0")
      case True
      have "round_pattern 0 = 0" by (simp add: round_pattern_small)
      then show ?thesis using True False fin w'(1,3) d'(1,2,4) by (simp add: f32_add_def)
    next
      case F: False
      then show ?thesis
        using False fin w'(1,3) d'(1,2,4) nat by (auto simp: f32_add_def Let_def f32_round_pattern)
    qed
  qed
qed

lemma f32_add_mono:
  assumes "f32_nonneg d" and "f32_nonneg e" and "d \<le> e" and "f32_weight w"
  shows "f32_add d w \<le> f32_add e w"
proof (cases "e = 0x7F800000 \<or> w = 0x7F800000")
  case False
  have "d \<noteq> 0x7F800000" using False assms(2,3) by auto
  have "round_pattern (f32_mag d + f32_mag w) \<le> round_pattern (f32_mag e + f32_mag w)"
    using f32_mag_mono [OF assms(1,2)] assms(3) by (intro round_pattern_mono) simp
  then have "min (round_pattern (f32_mag d + f32_mag w)) 0x7F800000 \<le> min (round_pattern (f32_mag e + f32_mag w)) 0x7F800000"
    by (rule min.mono) simp
  then show ?thesis
    using False \<open>d \<noteq> 0x7F800000\<close> by (simp add: f32_add_weight [OF assms(1,4)] f32_add_weight [OF assms(2,4)] word_le_nat_alt unat_of_nat take_bit_nat_eq_self min_def)
next
  case True
  have "word_of_nat (min k 0x7F800000) \<le> (0x7F800000 :: f32)" for k
    by (simp add: word_le_nat_alt unat_of_nat take_bit_nat_eq_self min_def)
  then show ?thesis using True by (auto simp: f32_add_weight [OF assms(1,4)] f32_add_weight [OF assms(2,4)])
qed

lemma f32_add_nonneg:
  assumes "f32_nonneg d" and "f32_weight w"
  shows "f32_nonneg (f32_add d w)"
proof -
  have "word_of_nat (min k 0x7F800000) \<le> (0x7F800000 :: f32)" for k
    by (simp add: word_le_nat_alt unat_of_nat take_bit_nat_eq_self min_def)
  then show ?thesis by (simp add: f32_add_weight [OF assms])
qed

lemma f32_add_inflate:
  assumes "f32_nonneg d" and "f32_weight w"
  shows "d \<le> f32_add d w"
proof (cases "d = 0x7F800000 \<or> w = 0x7F800000")
  case False
  have "unat d \<le> round_pattern (f32_mag d + f32_mag w)"
    using round_pattern_mono [of "f32_mag d" "f32_mag d + f32_mag w"] round_pattern_mag [OF assms(1)] by simp
  then have "unat d \<le> min (round_pattern (f32_mag d + f32_mag w)) 0x7F800000"
    using assms(1) by (simp add: word_le_nat_alt)
  then show ?thesis
    using False by (simp add: f32_add_weight [OF assms] word_le_nat_alt unat_of_nat take_bit_nat_eq_self min_def)
qed (use assms(1) in \<open>auto simp: f32_add_weight [OF assms]\<close>)

text \<open>Negation flips the sign bit.\<close>

lemma bit_sign_mask: "bit (0x80000000 :: f32) k \<longleftrightarrow> k = 31"
proof -
  have "(0x80000000 :: f32) = 2 ^ 31" by simp
  then show ?thesis by (simp only: bit_exp_iff) auto
qed

lemma f32_minus_fields [simp]:
  "f32_exp (f32_minus x) = f32_exp x" "f32_man (f32_minus x) = f32_man x"
  "f32_neg (f32_minus x) \<longleftrightarrow> \<not> f32_neg x"
proof -
  have "take_bit 8 (drop_bit 23 (f32_minus x)) = take_bit 8 (drop_bit 23 x)"
    by (rule bit_word_eqI)
      (auto simp: f32_minus_def bit_take_bit_iff bit_drop_bit_eq bit_xor_iff bit_sign_mask)
  then show "f32_exp (f32_minus x) = f32_exp x" by (simp only: f32_exp_def)
  have "take_bit 23 (f32_minus x) = take_bit 23 x"
    by (rule bit_word_eqI) (auto simp: f32_minus_def bit_take_bit_iff bit_xor_iff bit_sign_mask)
  then show "f32_man (f32_minus x) = f32_man x" by (simp only: f32_man_def)
  show "f32_neg (f32_minus x) \<longleftrightarrow> \<not> f32_neg x"
    by (simp add: f32_neg_def f32_minus_def bit_xor_iff bit_sign_mask)
qed

end
