(* ===== verification/Wire.thy ===== *)
theory Wire
  imports Float32
begin

unbundle bit_operations_syntax

text \<open>
  \<open>crates/visionclaw-wire/src/lib.rs\<close>: the frozen position wire as byte-exact constructors.
  A frame is a byte list; an \<open>i32\<close> is carried as its 32-bit pattern. The malformed-frame
  constructors are modelled too, since the server's rejection rules (theory
  \<open>Binary_Protocol\<close>) are proved on exactly those bytes.
\<close>

section \<open>Constants and the node record\<close>

definition PROTOCOL_V3 :: u8 where "PROTOCOL_V3 = 0x03"
definition PROTOCOL_V5 :: u8 where "PROTOCOL_V5 = 0x05"
definition NODE_RECORD_BYTES :: nat where "NODE_RECORD_BYTES = 52"
definition V5_SEQ_BYTES :: nat where "V5_SEQ_BYTES = 8"
definition OPCODE_AGENT_ACTION :: u8 where "OPCODE_AGENT_ACTION = 0x23"
definition OPCODE_BROADCAST_ACK :: u8 where "OPCODE_BROADCAST_ACK = 0x34"
definition BROADCAST_ACK_BYTES :: nat where "BROADCAST_ACK_BYTES = 21"
definition AGENT_ACTION_HEADER_BYTES :: nat where "AGENT_ACTION_HEADER_BYTES = 15"
definition NODE_ID_MASK :: u32 where "NODE_ID_MASK = 0x03FFFFFF"

record node_record =
  wire_id :: u32
  position :: vec3
  velocity :: vec3
  sssp_distance :: f32
  sssp_parent :: u32
  cluster_id :: u32
  anomaly :: f32
  community_id :: u32
  centrality :: f32

definition plain_record :: "u32 \<Rightarrow> vec3 \<Rightarrow> node_record" where
  "plain_record wid pos =
     \<lparr>wire_id = wid, position = pos, velocity = (0, 0, 0), sssp_distance = F32_INFINITY,
      sssp_parent = - 1, cluster_id = 0, anomaly = 0, community_id = 0, centrality = 0\<rparr>"

fun vec3_le :: "vec3 \<Rightarrow> bytes" where
  "vec3_le (x, y, z) = u32_le x @ u32_le y @ u32_le z"

definition to_bytes :: "node_record \<Rightarrow> bytes" where
  "to_bytes r =
     u32_le (wire_id r) @ vec3_le (position r) @ vec3_le (velocity r)
     @ u32_le (sssp_distance r) @ u32_le (sssp_parent r) @ u32_le (cluster_id r)
     @ u32_le (anomaly r) @ u32_le (community_id r) @ u32_le (centrality r)"

section \<open>Position frames\<close>

definition v3_frame :: "node_record list \<Rightarrow> bytes" where
  "v3_frame records = PROTOCOL_V3 # concat (map to_bytes records)"

definition v5_frame :: "u64 \<Rightarrow> node_record list \<Rightarrow> bytes" where
  "v5_frame broadcast_seq records =
     PROTOCOL_V5 # u64_le broadcast_seq @ concat (map to_bytes records)"

definition v5_sequence_of :: "bytes \<Rightarrow> u64 option" where
  "v5_sequence_of bs =
     (if (case bs of [] \<Rightarrow> None | b # _ \<Rightarrow> Some b) \<noteq> Some PROTOCOL_V5
         \<or> length bs < 1 + V5_SEQ_BYTES then None
      else Some (le_word (take V5_SEQ_BYTES (drop 1 bs))))"

definition frame_with_unknown_version :: "u8 \<Rightarrow> node_record list \<Rightarrow> bytes" where
  "frame_with_unknown_version version records = (v3_frame records)[0 := version]"

definition v3_frame_misaligned :: "node_record list \<Rightarrow> nat \<Rightarrow> bytes" where
  "v3_frame_misaligned records drop_tail_bytes =
     (let out = v3_frame records; keep = length out - drop_tail_bytes in take (max keep 1) out)"

definition v5_frame_truncated_sequence :: "nat \<Rightarrow> bytes" where
  "v5_frame_truncated_sequence kept_seq_bytes =
     PROTOCOL_V5 # take (min kept_seq_bytes V5_SEQ_BYTES) (u64_le 42)"

definition empty_frame :: bytes where
  "empty_frame = []"

section \<open>Agent-action batches and acknowledgements\<close>

record action_event =
  source_agent_id :: u32
  target_node_id :: u32
  action_type :: u8
  timestamp :: u32
  duration_ms :: u16
  payload :: bytes

definition plain_event :: "u32 \<Rightarrow> u32 \<Rightarrow> u32 \<Rightarrow> action_event" where
  "plain_event src target ts =
     \<lparr>source_agent_id = src, target_node_id = target, action_type = 0, timestamp = ts,
      duration_ms = 250, payload = []\<rparr>"

definition to_body :: "action_event \<Rightarrow> bytes" where
  "to_body e = u32_le (source_agent_id e) @ u32_le (target_node_id e) @ [action_type e]
     @ u32_le (timestamp e) @ u16_le (duration_ms e) @ payload e"

definition length_prefixed :: "bytes \<Rightarrow> bytes" where
  "length_prefixed body = u16_le (word_of_nat (length body)) @ body"

definition agent_action_frame :: "action_event list \<Rightarrow> bytes" where
  "agent_action_frame events =
     OPCODE_AGENT_ACTION # u16_le (word_of_nat (length events))
       @ concat (map (\<lambda>e. length_prefixed (to_body e)) events)"

definition agent_action_frame_truncated :: "action_event list \<Rightarrow> nat \<Rightarrow> bytes" where
  "agent_action_frame_truncated events drop_tail_bytes =
     (let out = agent_action_frame events; keep = length out - drop_tail_bytes
      in take (max keep 3) out)"

definition agent_action_frame_overstated_count :: "action_event list \<Rightarrow> u16 \<Rightarrow> bytes" where
  "agent_action_frame_overstated_count events claimed =
     (let out = agent_action_frame events in take 1 out @ u16_le claimed @ drop 3 out)"

definition agent_action_frame_header_only :: "u16 \<Rightarrow> bytes" where
  "agent_action_frame_header_only claimed = OPCODE_AGENT_ACTION # u16_le claimed"

definition broadcast_ack_frame :: "u64 \<Rightarrow> u32 \<Rightarrow> u64 \<Rightarrow> bytes" where
  "broadcast_ack_frame sequence nodes_received timestamp_ms =
     OPCODE_BROADCAST_ACK # u64_le sequence @ u32_le nodes_received @ u64_le timestamp_ms"

section \<open>Widths\<close>

lemmas wire_consts = PROTOCOL_V3_def PROTOCOL_V5_def NODE_RECORD_BYTES_def V5_SEQ_BYTES_def
  OPCODE_AGENT_ACTION_def OPCODE_BROADCAST_ACK_def BROADCAST_ACK_BYTES_def
  AGENT_ACTION_HEADER_BYTES_def

lemma length_vec3_le [simp, codec_simps]: "length (vec3_le v) = 12"
  by (cases v) simp

lemma length_to_bytes [simp, codec_simps]: "length (to_bytes r) = 52"
  by (simp add: to_bytes_def)

lemma length_body [simp, codec_simps]: "length (concat (map to_bytes rs)) = 52 * length rs"
  by (induction rs) simp_all

lemma length_v3_frame [codec_simps]: "length (v3_frame rs) = 1 + 52 * length rs"
  by (simp add: v3_frame_def)

lemma length_to_body [codec_simps]: "length (to_body e) = 15 + length (payload e)"
  by (simp add: to_body_def)

lemma length_broadcast_ack_frame [codec_simps]:
  "length (broadcast_ack_frame s n t) = BROADCAST_ACK_BYTES"
  by (simp add: broadcast_ack_frame_def BROADCAST_ACK_BYTES_def)

text \<open>Reading a record back: what a reader of the 52 bytes finds at each offset.\<close>

definition rd32 :: "bytes \<Rightarrow> nat \<Rightarrow> u32" where
  "rd32 bs off = le_word (take 4 (drop off bs))"

definition rd_vec3 :: "bytes \<Rightarrow> nat \<Rightarrow> vec3" where
  "rd_vec3 bs off = (rd32 bs off, rd32 bs (off + 4), rd32 bs (off + 8))"

definition of_bytes :: "bytes \<Rightarrow> node_record" where
  "of_bytes bs =
     \<lparr>wire_id = rd32 bs 0, position = rd_vec3 bs 4, velocity = rd_vec3 bs 16,
      sssp_distance = rd32 bs 28, sssp_parent = rd32 bs 32, cluster_id = rd32 bs 36,
      anomaly = rd32 bs 40, community_id = rd32 bs 44, centrality = rd32 bs 48\<rparr>"

lemma of_bytes_to_bytes: "of_bytes (to_bytes r) = r"
  by (cases r; cases "position r"; cases "velocity r")
    (simp add: of_bytes_def to_bytes_def rd_vec3_def rd32_def)

interpretation record_codec: fixed_codec to_bytes of_bytes 52
  by unfold_locales (simp_all add: of_bytes_to_bytes)

section \<open>Properties\<close>

text \<open>
  The V5 envelope is purely additive: the broadcast sequence reads back, the bytes after
  the envelope are byte for byte the V3 body, a V3 frame has no sequence, and a V5 frame cut
  inside its sequence is not readable, rather than read as sequence zero.
\<close>
theorem v5_envelope_additive:
  "v5_sequence_of (v5_frame s rs) = Some s
   \<and> drop (1 + V5_SEQ_BYTES) (v5_frame s rs) = drop 1 (v3_frame rs)
   \<and> v5_sequence_of (v3_frame rs) = None
   \<and> (v5_sequence_of (v5_frame_truncated_sequence k) = None) = (k < V5_SEQ_BYTES)"
  by (auto simp: v5_sequence_of_def v5_frame_def v3_frame_def v5_frame_truncated_sequence_def
      wire_consts)

text \<open>
  A position frame determines its records: equal V3 bodies come from equal record lists,
  and equal V5 frames from equal sequences and equal records. No two different states of the
  graph share a frame.
\<close>
theorem frames_injective:
  "(v3_frame rs = v3_frame rs') = (rs = rs')
   \<and> (v5_frame s rs = v5_frame s' rs') = (s = s' \<and> rs = rs')"
  by (auto simp: v3_frame_def v5_frame_def record_codec.concat_enc_inject)

end
