(* ===== verification/Binary_Protocol.thy ===== *)
theory Binary_Protocol
  imports Wire
begin

unbundle bit_operations_syntax

text \<open>
  \<open>src/utils/binary_protocol.rs\<close>: node-class flags in the high bits of a wire id, the V3
  encoder of the position broadcast, the position decoder, agent-action batches, client
  acknowledgements and the multiplexed envelope. The error strings of the source are the
  constructors of \<open>decode_error\<close>, with the values the messages print. The model is the
  release build: \<open>debug_assert!\<close> in \<open>enforce_wire_id_bounds\<close> is not part of it.
\<close>

section \<open>Node-class flags\<close>

definition AGENT_NODE_FLAG :: u32 where "AGENT_NODE_FLAG = 0x80000000"
definition KNOWLEDGE_NODE_FLAG :: u32 where "KNOWLEDGE_NODE_FLAG = 0x40000000"
definition ONTOLOGY_TYPE_MASK :: u32 where "ONTOLOGY_TYPE_MASK = 0x1C000000"
definition ONTOLOGY_CLASS_FLAG :: u32 where "ONTOLOGY_CLASS_FLAG = 0x04000000"
definition ONTOLOGY_INDIVIDUAL_FLAG :: u32 where "ONTOLOGY_INDIVIDUAL_FLAG = 0x08000000"
definition ONTOLOGY_PROPERTY_FLAG :: u32 where "ONTOLOGY_PROPERTY_FLAG = 0x10000000"

definition MAX_PAYLOAD_SIZE :: nat where "MAX_PAYLOAD_SIZE = 10 * 1024 * 1024"
definition MAX_NODE_COUNT :: nat where "MAX_NODE_COUNT = 100000"
definition WIRE_V3_ITEM_SIZE :: nat where "WIRE_V3_ITEM_SIZE = 4 + 12 + 12 + 4 + 4 + 4 + 4 + 4 + 4"
definition WIRE_V5_SEQ_SIZE :: nat where "WIRE_V5_SEQ_SIZE = 8"

definition remap_wire_id :: "u32 \<Rightarrow> u32 \<times> bool" where
  "remap_wire_id node_id = (node_id AND NODE_ID_MASK, node_id > NODE_ID_MASK)"

definition enforce_wire_id_bounds :: "u32 \<Rightarrow> u32" where
  "enforce_wire_id_bounds node_id = fst (remap_wire_id node_id)"

definition set_agent_flag :: "u32 \<Rightarrow> u32" where
  "set_agent_flag node_id = enforce_wire_id_bounds node_id OR AGENT_NODE_FLAG"

definition set_knowledge_flag :: "u32 \<Rightarrow> u32" where
  "set_knowledge_flag node_id = enforce_wire_id_bounds node_id OR KNOWLEDGE_NODE_FLAG"

definition set_ontology_class_flag :: "u32 \<Rightarrow> u32" where
  "set_ontology_class_flag node_id = enforce_wire_id_bounds node_id OR ONTOLOGY_CLASS_FLAG"

definition set_ontology_individual_flag :: "u32 \<Rightarrow> u32" where
  "set_ontology_individual_flag node_id = enforce_wire_id_bounds node_id OR ONTOLOGY_INDIVIDUAL_FLAG"

definition set_ontology_property_flag :: "u32 \<Rightarrow> u32" where
  "set_ontology_property_flag node_id = enforce_wire_id_bounds node_id OR ONTOLOGY_PROPERTY_FLAG"

definition clear_agent_flag :: "u32 \<Rightarrow> u32" where
  "clear_agent_flag node_id = node_id AND NOT AGENT_NODE_FLAG"

definition clear_all_flags :: "u32 \<Rightarrow> u32" where
  "clear_all_flags node_id = node_id AND NODE_ID_MASK"

definition is_agent_node :: "u32 \<Rightarrow> bool" where
  "is_agent_node node_id = ((node_id AND AGENT_NODE_FLAG) \<noteq> 0)"

definition is_knowledge_node :: "u32 \<Rightarrow> bool" where
  "is_knowledge_node node_id = ((node_id AND KNOWLEDGE_NODE_FLAG) \<noteq> 0)"

definition is_ontology_class :: "u32 \<Rightarrow> bool" where
  "is_ontology_class node_id = ((node_id AND ONTOLOGY_TYPE_MASK) = ONTOLOGY_CLASS_FLAG)"

definition is_ontology_individual :: "u32 \<Rightarrow> bool" where
  "is_ontology_individual node_id = ((node_id AND ONTOLOGY_TYPE_MASK) = ONTOLOGY_INDIVIDUAL_FLAG)"

definition is_ontology_property :: "u32 \<Rightarrow> bool" where
  "is_ontology_property node_id = ((node_id AND ONTOLOGY_TYPE_MASK) = ONTOLOGY_PROPERTY_FLAG)"

definition is_ontology_node :: "u32 \<Rightarrow> bool" where
  "is_ontology_node node_id = ((node_id AND ONTOLOGY_TYPE_MASK) \<noteq> 0)"

definition get_actual_node_id :: "u32 \<Rightarrow> u32" where
  "get_actual_node_id node_id = node_id AND NODE_ID_MASK"

datatype node_type = Knowledge | Agent | OntologyClass | OntologyIndividual | OntologyProperty | Unknown

definition get_node_type :: "u32 \<Rightarrow> node_type" where
  "get_node_type node_id =
     (if is_agent_node node_id then Agent
      else if is_knowledge_node node_id then Knowledge
      else if is_ontology_class node_id then OntologyClass
      else if is_ontology_individual node_id then OntologyIndividual
      else if is_ontology_property node_id then OntologyProperty
      else Unknown)"

definition to_wire_id_v2 :: "u32 \<Rightarrow> u32" where
  "to_wire_id_v2 node_id = node_id"

definition from_wire_id_v2 :: "u32 \<Rightarrow> u32" where
  "from_wire_id_v2 wid = wid"

section \<open>The V3 encoder\<close>

record binary_node_data =
  node_id :: u32
  node_pos :: vec3
  node_vel :: vec3

record node_analytics =
  an_cluster_id :: u32
  an_community_id :: u32
  an_anomaly :: f32
  an_centrality :: f32

definition default_analytics :: node_analytics where
  "default_analytics = \<lparr>an_cluster_id = 0, an_community_id = 0, an_anomaly = 0, an_centrality = 0\<rparr>"

record node_class_ids =
  agent :: "u32 list"
  knowledge :: "u32 list"
  ontology_class :: "u32 list"
  ontology_individual :: "u32 list"
  ontology_property :: "u32 list"

definition default_class_ids :: node_class_ids where
  "default_class_ids = \<lparr>agent = [], knowledge = [], ontology_class = [], ontology_individual = [],
     ontology_property = []\<rparr>"

definition to_wire_format_with_data ::
  "binary_node_data \<Rightarrow> u32 \<Rightarrow> (f32 \<times> u32) option \<Rightarrow> node_analytics option \<Rightarrow> node_record" where
  "to_wire_format_with_data n nid sssp analytics =
     (let (dist, parent) = (case sssp of None \<Rightarrow> (F32_INFINITY, - 1) | Some p \<Rightarrow> p);
          a = (case analytics of None \<Rightarrow> default_analytics | Some a \<Rightarrow> a)
      in \<lparr>wire_id = to_wire_id_v2 nid, position = node_pos n, velocity = node_vel n,
          sssp_distance = dist, sssp_parent = parent, cluster_id = an_cluster_id a,
          anomaly = an_anomaly a, community_id = an_community_id a, centrality = an_centrality a\<rparr>)"

definition flagged_id :: "node_class_ids \<Rightarrow> u32 \<Rightarrow> u32" where
  "flagged_id c nid =
     (if nid \<in> set (agent c) then set_agent_flag nid
      else if nid \<in> set (knowledge c) then set_knowledge_flag nid
      else if nid \<in> set (ontology_class c) then set_ontology_class_flag nid
      else if nid \<in> set (ontology_individual c) then set_ontology_individual_flag nid
      else if nid \<in> set (ontology_property c) then set_ontology_property_flag nid
      else if get_node_type nid \<noteq> Unknown then nid
      else enforce_wire_id_bounds nid)"

definition lookup_opt :: "('k \<rightharpoonup> 'v) option \<Rightarrow> 'k \<Rightarrow> 'v option" where
  "lookup_opt m k = (case m of None \<Rightarrow> None | Some f \<Rightarrow> f k)"

definition encode_item ::
  "node_class_ids \<Rightarrow> (u32 \<rightharpoonup> f32 \<times> u32) option \<Rightarrow> (u32 \<rightharpoonup> node_analytics) option
     \<Rightarrow> u32 \<times> binary_node_data \<Rightarrow> bytes" where
  "encode_item class_ids sssp_data analytics_data p =
     (let (nid, node) = p;
          wid = to_wire_id_v2 (flagged_id class_ids nid);
          base_id = nid AND NODE_ID_MASK;
          (dist, parent) = (case lookup_opt sssp_data base_id of
                              None \<Rightarrow> (F32_INFINITY, - 1) | Some s \<Rightarrow> s);
          a = (case lookup_opt analytics_data base_id of None \<Rightarrow> default_analytics | Some a \<Rightarrow> a)
      in u32_le wid @ vec3_le (node_pos node) @ vec3_le (node_vel node)
         @ u32_le dist @ u32_le parent
         @ u32_le (an_cluster_id a) @ u32_le (an_anomaly a)
         @ u32_le (an_community_id a) @ u32_le (an_centrality a))"

definition encode_node_data_extended_with_sssp ::
  "(u32 \<times> binary_node_data) list \<Rightarrow> node_class_ids \<Rightarrow> (u32 \<rightharpoonup> f32 \<times> u32) option
     \<Rightarrow> (u32 \<rightharpoonup> node_analytics) option \<Rightarrow> bytes" where
  "encode_node_data_extended_with_sssp nodes class_ids sssp_data analytics_data =
     PROTOCOL_V3 # concat (map (encode_item class_ids sssp_data analytics_data) nodes)"

definition encode_node_data_extended ::
  "(u32 \<times> binary_node_data) list \<Rightarrow> u32 list \<Rightarrow> u32 list \<Rightarrow> u32 list \<Rightarrow> u32 list \<Rightarrow> u32 list \<Rightarrow> bytes" where
  "encode_node_data_extended nodes ag kn oc oi op_ids =
     encode_node_data_extended_with_sssp nodes
       \<lparr>agent = ag, knowledge = kn, ontology_class = oc, ontology_individual = oi,
        ontology_property = op_ids\<rparr> None None"

definition encode_node_data_with_types ::
  "(u32 \<times> binary_node_data) list \<Rightarrow> u32 list \<Rightarrow> u32 list \<Rightarrow> bytes" where
  "encode_node_data_with_types nodes ag kn = encode_node_data_extended nodes ag kn [] [] []"

definition encode_node_data_with_flags :: "(u32 \<times> binary_node_data) list \<Rightarrow> u32 list \<Rightarrow> bytes" where
  "encode_node_data_with_flags nodes ag = encode_node_data_with_types nodes ag []"

definition encode_node_data :: "(u32 \<times> binary_node_data) list \<Rightarrow> bytes" where
  "encode_node_data nodes = encode_node_data_with_types nodes [] []"

definition encode_node_data_with_live_analytics ::
  "(u32 \<times> binary_node_data) list \<Rightarrow> (u32 \<rightharpoonup> node_analytics) option
     \<Rightarrow> (u32 \<rightharpoonup> f32 \<times> u32) option \<Rightarrow> bytes" where
  "encode_node_data_with_live_analytics nodes analytics_data sssp_data =
     encode_node_data_extended_with_sssp nodes default_class_ids sssp_data analytics_data"

definition calculate_message_size :: "(u32 \<times> binary_node_data) list \<Rightarrow> nat" where
  "calculate_message_size updates = 1 + length updates * WIRE_V3_ITEM_SIZE"

section \<open>The position decoder\<close>

datatype decode_error =
    PayloadTooLarge nat
  | UnsupportedV1
  | UnsupportedV2
  | V5TooSmall
  | UnknownVersion u8
  | MisalignedV3 nat
  | TooManyNodes nat
  | EventTooSmall nat
  | BatchTooSmall
  | TruncatedEventLength
  | TruncatedEventData
  | EmptyMessage
  | UnknownMessageType u8

definition decode_chunk :: "bytes \<Rightarrow> u32 \<times> binary_node_data" where
  "decode_chunk chunk =
     (let wid = rd32 chunk 0;
          pos = rd_vec3 chunk 4;
          vel = rd_vec3 chunk 16;
          full_node_id = from_wire_id_v2 wid;
          actual_id = get_actual_node_id full_node_id
      in (actual_id, \<lparr>node_id = actual_id, node_pos = pos, node_vel = vel\<rparr>))"

definition decode_node_data_v3 :: "bytes \<Rightarrow> decode_error + (u32 \<times> binary_node_data) list" where
  "decode_node_data_v3 data =
     (if length data mod WIRE_V3_ITEM_SIZE \<noteq> 0 then Err (MisalignedV3 (length data))
      else let expected_nodes = length data div WIRE_V3_ITEM_SIZE
           in if expected_nodes > MAX_NODE_COUNT then Err (TooManyNodes expected_nodes)
              else Ok (map decode_chunk (chunks_exact WIRE_V3_ITEM_SIZE data)))"

definition decode_node_data :: "bytes \<Rightarrow> decode_error + (u32 \<times> binary_node_data) list" where
  "decode_node_data data =
     (case data of
        [] \<Rightarrow> Ok []
      | protocol_version # pl \<Rightarrow>
          if length data > MAX_PAYLOAD_SIZE then Err (PayloadTooLarge (length data))
          else if protocol_version = 1 then Err UnsupportedV1
          else if protocol_version = 2 then Err UnsupportedV2
          else if protocol_version = PROTOCOL_V3 then decode_node_data_v3 pl
          else if protocol_version = PROTOCOL_V5 then
            (if length pl < WIRE_V5_SEQ_SIZE then Err V5TooSmall
             else decode_node_data_v3 (drop WIRE_V5_SEQ_SIZE pl))
          else Err (UnknownVersion protocol_version))"

section \<open>Agent actions\<close>

datatype agent_action_type = Query | Update | Create | Delete | Link | Transform

definition action_type_of_u8 :: "u8 \<Rightarrow> agent_action_type" where
  "action_type_of_u8 v =
     (if v = 0 then Query else if v = 1 then Update else if v = 2 then Create
      else if v = 3 then Delete else if v = 4 then Link else if v = 5 then Transform
      else Query)"

fun action_type_u8 :: "agent_action_type \<Rightarrow> u8" where
  "action_type_u8 Query = 0"
| "action_type_u8 Update = 1"
| "action_type_u8 Create = 2"
| "action_type_u8 Delete = 3"
| "action_type_u8 Link = 4"
| "action_type_u8 Transform = 5"

text \<open>
  \<open>AgentActionEvent\<close> has the fields of the wire crate's \<open>ActionEvent\<close>, and the same
  record type models both. \<open>new_event\<close> takes the wall clock's milliseconds since the epoch.
\<close>

definition new_event :: "u32 \<Rightarrow> u32 \<Rightarrow> agent_action_type \<Rightarrow> u16 \<Rightarrow> nat \<Rightarrow> action_event" where
  "new_event src target act dur now_ms =
     \<lparr>source_agent_id = src, target_node_id = target, action_type = action_type_u8 act,
      timestamp = word_of_nat (now_ms mod (2 ^ 32 - 1)), duration_ms = dur, payload = []\<rparr>"

definition encode_event :: "action_event \<Rightarrow> bytes" where
  "encode_event e =
     0x23 # u32_le (source_agent_id e) @ u32_le (target_node_id e) @ [action_type e]
       @ u32_le (timestamp e) @ u16_le (duration_ms e) @ payload e"

definition decode_event :: "bytes \<Rightarrow> decode_error + action_event" where
  "decode_event data =
     (if length data < 15 then Err (EventTooSmall (length data))
      else Ok \<lparr>source_agent_id = rd32 data 0, target_node_id = rd32 data 4,
              action_type = data ! 8, timestamp = rd32 data 9,
              duration_ms = le_word (take 2 (drop 13 data)),
              payload = (if length data > 15 then drop 15 data else [])\<rparr>)"

definition get_action_type :: "action_event \<Rightarrow> agent_action_type" where
  "get_action_type e = action_type_of_u8 (action_type e)"

definition encode_agent_actions :: "action_event list \<Rightarrow> bytes" where
  "encode_agent_actions events =
     0x23 # u16_le (word_of_nat (length events))
       @ concat (map (\<lambda>e. let event_data = encode_event e;
                               event_len = word_of_nat (length event_data - 1)
                           in u16_le event_len @ drop 1 event_data) events)"

fun decode_events :: "nat \<Rightarrow> bytes \<Rightarrow> decode_error + action_event list" where
  "decode_events 0 rest = Ok []"
| "decode_events (Suc n) rest =
     (if length rest < 2 then Err TruncatedEventLength
      else let event_len = unat (le_word (take 2 rest) :: u16); rest1 = drop 2 rest
           in if length rest1 < event_len then Err TruncatedEventData
              else case decode_event (take event_len rest1) of
                     Inl e \<Rightarrow> Err e
                   | Inr ev \<Rightarrow> (case decode_events n (drop event_len rest1) of
                                  Inl e \<Rightarrow> Err e
                                | Inr evs \<Rightarrow> Ok (ev # evs)))"

definition decode_agent_actions :: "bytes \<Rightarrow> decode_error + action_event list" where
  "decode_agent_actions data =
     (if length data < 2 then Err BatchTooSmall
      else if length data > MAX_PAYLOAD_SIZE then Err (PayloadTooLarge (length data))
      else decode_events (unat (le_word (take 2 data) :: u16)) (drop 2 data))"

section \<open>Control messages\<close>

datatype message_type = BinaryPositions | VoiceDataType | ControlFrame | BroadcastAckType | AgentAction

datatype message = VoiceData bytes | BroadcastAck u64 u32 u64

datatype protocol_error = InvalidMessageType u8 | InvalidPayloadSize nat | DecodingError

fun message_type_u8 :: "message_type \<Rightarrow> u8" where
  "message_type_u8 BinaryPositions = 0"
| "message_type_u8 VoiceDataType = 0x02"
| "message_type_u8 ControlFrame = 0x03"
| "message_type_u8 BroadcastAckType = 0x34"
| "message_type_u8 AgentAction = 0x23"

definition decode_voice_data :: "bytes \<Rightarrow> protocol_error + message" where
  "decode_voice_data data = Ok (VoiceData data)"

definition decode_broadcast_ack :: "bytes \<Rightarrow> protocol_error + message" where
  "decode_broadcast_ack data =
     (if length data < 20 then Err (InvalidPayloadSize (length data))
      else Ok (BroadcastAck (le_word (take 8 data)) (rd32 data 8) (le_word (take 8 (drop 12 data)))))"

definition decode_message :: "bytes \<Rightarrow> protocol_error + message" where
  "decode_message data =
     (case data of
        [] \<Rightarrow> Err DecodingError
      | message_type # pl \<Rightarrow>
          if length data > MAX_PAYLOAD_SIZE then Err (InvalidPayloadSize (length data))
          else if message_type = 0x02 then decode_voice_data pl
          else if message_type = 0x34 then decode_broadcast_ack pl
          else Err (InvalidMessageType message_type))"

definition encode_voice_data :: "bytes \<Rightarrow> bytes" where
  "encode_voice_data audio = message_type_u8 VoiceDataType # audio"

record multiplexed_message =
  msg_type :: message_type
  msg_data :: bytes

definition multiplexed_positions :: "(u32 \<times> binary_node_data) list \<Rightarrow> multiplexed_message" where
  "multiplexed_positions nodes = \<lparr>msg_type = BinaryPositions, msg_data = encode_node_data nodes\<rparr>"

definition multiplexed_encode :: "multiplexed_message \<Rightarrow> bytes" where
  "multiplexed_encode m = message_type_u8 (msg_type m) # msg_data m"

definition multiplexed_decode :: "bytes \<Rightarrow> decode_error + multiplexed_message" where
  "multiplexed_decode data =
     (case data of
        [] \<Rightarrow> Err EmptyMessage
      | t # rest \<Rightarrow>
          if t = 0 then Ok \<lparr>msg_type = BinaryPositions, msg_data = rest\<rparr>
          else if t = 0x02 then Ok \<lparr>msg_type = VoiceDataType, msg_data = rest\<rparr>
          else if t = 0x03 then Ok \<lparr>msg_type = ControlFrame, msg_data = rest\<rparr>
          else if t = 0x23 then Ok \<lparr>msg_type = AgentAction, msg_data = rest\<rparr>
          else if t = 0x34 then Ok \<lparr>msg_type = BroadcastAckType, msg_data = rest\<rparr>
          else Err (UnknownMessageType t))"

section \<open>Lemmas\<close>

lemmas flag_consts = AGENT_NODE_FLAG_def KNOWLEDGE_NODE_FLAG_def ONTOLOGY_TYPE_MASK_def
  ONTOLOGY_CLASS_FLAG_def ONTOLOGY_INDIVIDUAL_FLAG_def ONTOLOGY_PROPERTY_FLAG_def NODE_ID_MASK_def

lemmas limit_consts = MAX_PAYLOAD_SIZE_def MAX_NODE_COUNT_def WIRE_V3_ITEM_SIZE_def
  WIRE_V5_SEQ_SIZE_def PROTOCOL_V3_def PROTOCOL_V5_def

lemmas set_flag_defs = set_agent_flag_def set_knowledge_flag_def set_ontology_class_flag_def
  set_ontology_individual_flag_def set_ontology_property_flag_def enforce_wire_id_bounds_def
  remap_wire_id_def

lemmas is_flag_defs = is_agent_node_def is_knowledge_node_def is_ontology_class_def
  is_ontology_individual_def is_ontology_property_def

text \<open>Masking a flagged id: the id bits and the flag bits do not overlap.\<close>

lemma masked_and: "((n AND m) OR f) AND k = (n AND (m AND k)) OR (f AND k)" for n :: u32
  by (simp add: word_ao_dist word_bw_assocs)

lemma actual_of_flagged [simp]:
  "get_actual_node_id (set_agent_flag n) = n AND NODE_ID_MASK"
  "get_actual_node_id (set_knowledge_flag n) = n AND NODE_ID_MASK"
  "get_actual_node_id (set_ontology_class_flag n) = n AND NODE_ID_MASK"
  "get_actual_node_id (set_ontology_individual_flag n) = n AND NODE_ID_MASK"
  "get_actual_node_id (set_ontology_property_flag n) = n AND NODE_ID_MASK"
  "get_actual_node_id (enforce_wire_id_bounds n) = n AND NODE_ID_MASK"
  by (simp_all add: get_actual_node_id_def set_flag_defs masked_and flag_consts word_bw_assocs)

lemma type_of_flagged [simp]:
  "get_node_type (set_agent_flag n) = Agent"
  "get_node_type (set_knowledge_flag n) = Knowledge"
  "get_node_type (set_ontology_class_flag n) = OntologyClass"
  "get_node_type (set_ontology_individual_flag n) = OntologyIndividual"
  "get_node_type (set_ontology_property_flag n) = OntologyProperty"
  "get_node_type (enforce_wire_id_bounds n) = Unknown"
  by (simp_all add: get_node_type_def is_flag_defs set_flag_defs masked_and flag_consts word_bw_assocs)

lemma actual_of_flagged_id: "get_actual_node_id (flagged_id c n) = n AND NODE_ID_MASK"
  by (simp add: flagged_id_def get_actual_node_id_def [of n])

lemma encode_item_record:
  "encode_item c s a (nid, n) =
     to_bytes (to_wire_format_with_data n (flagged_id c nid)
                 (lookup_opt s (nid AND NODE_ID_MASK)) (lookup_opt a (nid AND NODE_ID_MASK)))"
  by (simp add: encode_item_def to_wire_format_with_data_def to_bytes_def to_wire_id_v2_def Let_def
      split: prod.split)

lemma decode_chunk_to_bytes:
  "decode_chunk (to_bytes r) =
     (wire_id r AND NODE_ID_MASK,
      \<lparr>node_id = wire_id r AND NODE_ID_MASK, node_pos = position r, node_vel = velocity r\<rparr>)"
proof -
  have "rd32 (to_bytes r) 0 = wire_id r" "rd_vec3 (to_bytes r) 4 = position r"
    "rd_vec3 (to_bytes r) 16 = velocity r"
    using of_bytes_to_bytes [of r] by (simp_all add: of_bytes_def node_record.equality
        node_record.ext_inject) (metis node_record.select_convs)+
  then show ?thesis
    by (simp add: decode_chunk_def from_wire_id_v2_def get_actual_node_id_def Let_def)
qed

lemma decode_body:
  "length rs \<le> MAX_NODE_COUNT \<Longrightarrow>
   decode_node_data_v3 (concat (map to_bytes rs)) = Ok (map (decode_chunk \<circ> to_bytes) rs)"
  by (simp add: decode_node_data_v3_def limit_consts record_codec.chunks_concat_enc)

lemma decode_v3_frame:
  assumes "length rs \<le> MAX_NODE_COUNT"
  shows "decode_node_data (v3_frame rs) = Ok (map (decode_chunk \<circ> to_bytes) rs)"
proof -
  have "decode_node_data (v3_frame rs) = decode_node_data_v3 (concat (map to_bytes rs))"
    using assms by (simp add: decode_node_data_def v3_frame_def limit_consts)
  with decode_body [OF assms] show ?thesis by simp
qed

lemma encode_eq_v3_frame:
  "encode_node_data_extended_with_sssp nodes c sssp an =
     v3_frame (map (\<lambda>(nid, n). to_wire_format_with_data n (flagged_id c nid)
                (lookup_opt sssp (nid AND NODE_ID_MASK)) (lookup_opt an (nid AND NODE_ID_MASK))) nodes)"
  by (auto simp: encode_node_data_extended_with_sssp_def v3_frame_def encode_item_record comp_def
      intro!: arg_cong [where f = concat])

lemma is_ok_decode_v3:
  "is_ok (decode_node_data_v3 d) \<longleftrightarrow> 52 dvd length d \<and> length d div 52 \<le> MAX_NODE_COUNT"
  by (auto simp: decode_node_data_v3_def is_ok_def limit_consts Let_def dvd_eq_mod_eq_0)

lemma to_body_encode_event: "drop 1 (encode_event e) = to_body e"
  by (simp add: encode_event_def to_body_def)

lemma encode_agent_actions_eq: "encode_agent_actions es = agent_action_frame es"
proof -
  have "length (encode_event e) - 1 = length (to_body e)" for e
    by (metis length_drop to_body_encode_event)
  then show ?thesis
    unfolding encode_agent_actions_def agent_action_frame_def length_prefixed_def Let_def
      to_body_encode_event by (simp add: OPCODE_AGENT_ACTION_def)
qed

lemma decode_event_to_body: "decode_event (to_body e) = Ok e"
  by (cases e) (simp add: decode_event_def to_body_def rd32_def nth_append)

definition event_fits :: "action_event \<Rightarrow> bool" where
  "event_fits e \<longleftrightarrow> length (to_body e) < 2 ^ 16"

lemma decode_events_frame:
  "\<forall>e \<in> set es. event_fits e \<Longrightarrow>
   decode_events (length es) (concat (map (\<lambda>e. length_prefixed (to_body e)) es) @ rest) = Ok es"
proof (induction es)
  case Nil
  then show ?case by simp
next
  case (Cons e es)
  then show ?case
    by (simp add: length_prefixed_def event_fits_def unat_u16_of_nat decode_event_to_body Let_def)
qed

text \<open>A proper prefix of a batch is refused, wherever it is cut.\<close>

lemma decode_events_cut:
  assumes "\<forall>e \<in> set es. event_fits e"
    and "k < length (concat (map (\<lambda>e. length_prefixed (to_body e)) es))"
  shows "\<exists>err. decode_events (length es)
                 (take k (concat (map (\<lambda>e. length_prefixed (to_body e)) es))) = Err err"
  using assms
proof (induction es arbitrary: k)
  case Nil
  then show ?case by simp
next
  case (Cons e es)
  let ?b = "length (to_body e)"
  let ?tail = "concat (map (\<lambda>e. length_prefixed (to_body e)) es)"
  from Cons.prems(1) have fits: "?b < 2 ^ 16" by (simp add: event_fits_def)
  consider "k < 2" | "2 \<le> k" "k < 2 + ?b" | "2 + ?b \<le> k" by linarith
  then show ?case
  proof cases
    case 1
    then show ?thesis by (simp add: length_prefixed_def)
  next
    case 2
    have tk: "take k (length_prefixed (to_body e) @ ?tail)
                = u16_le (word_of_nat ?b) @ take (k - 2) (to_body e)"
      using 2 by (simp add: length_prefixed_def)
    show ?thesis
      using 2 fits by (simp only: list.map concat.simps tk list.size decode_events.simps)
        (auto simp add: unat_u16_of_nat min_def Let_def)
  next
    case 3
    obtain j where k: "k = 2 + ?b + j" using 3 le_Suc_ex by blast
    with Cons.prems(2) have "j < length ?tail" by (simp add: length_prefixed_def)
    with Cons obtain err where err: "decode_events (length es) (take j ?tail) = Err err"
      by fastforce
    have tk: "take k (length_prefixed (to_body e) @ ?tail)
                = u16_le (word_of_nat ?b) @ to_body e @ take j ?tail"
      by (simp add: length_prefixed_def k)
    show ?thesis
      using fits err by (simp only: list.map concat.simps tk list.size decode_events.simps)
        (simp add: unat_u16_of_nat decode_event_to_body Let_def)
  qed
qed

section \<open>Properties\<close>

text \<open>
  The server's broadcast encoder writes exactly the frozen wire: for any nodes, class sets,
  path and analytics tables its output is the wire crate's V3 frame of the corresponding
  records, and its length is the one \<open>calculate_message_size\<close> announces.
\<close>
theorem encoder_writes_frozen_wire:
  "encode_node_data_extended_with_sssp nodes c sssp an =
     v3_frame (map (\<lambda>(nid, n). to_wire_format_with_data n (flagged_id c nid)
                (lookup_opt sssp (nid AND NODE_ID_MASK)) (lookup_opt an (nid AND NODE_ID_MASK))) nodes)
   \<and> length (encode_node_data_extended_with_sssp nodes c sssp an) = calculate_message_size nodes"
  by (simp add: encode_eq_v3_frame length_v3_frame calculate_message_size_def WIRE_V3_ITEM_SIZE_def)

text \<open>
  C32. Encoding then decoding a broadcast returns every node in order, with its compact 26-bit
  id (class flags stripped) and its position and velocity bit for bit, for any class sets and
  tables, up to the decoder's limit of 100000 nodes.
\<close>
theorem position_broadcast_roundtrip:
  assumes "length nodes \<le> MAX_NODE_COUNT"
  shows "decode_node_data (encode_node_data_extended_with_sssp nodes c sssp an) =
     Ok (map (\<lambda>(nid, n). (nid AND NODE_ID_MASK,
                          \<lparr>node_id = nid AND NODE_ID_MASK, node_pos = node_pos n, node_vel = node_vel n\<rparr>)) nodes)"
  using assms actual_of_flagged_id [unfolded get_actual_node_id_def]
  by (auto simp: encode_eq_v3_frame decode_v3_frame decode_chunk_to_bytes
      to_wire_format_with_data_def to_wire_id_v2_def Let_def split: prod.splits)

theorem position_broadcast_roundtrip_witness:
  "decode_node_data (encode_node_data_extended_with_sssp
      [(7, \<lparr>node_id = 7, node_pos = (0x3F800000, 0, 0), node_vel = (0, 0, 0)\<rparr>)]
      (default_class_ids\<lparr>agent := [7]\<rparr>) None None)
   = Ok [(7, \<lparr>node_id = 7, node_pos = (0x3F800000, 0, 0), node_vel = (0, 0, 0)\<rparr>)]"
  using position_broadcast_roundtrip [of "[(7, \<lparr>node_id = 7, node_pos = (0x3F800000, 0, 0), node_vel = (0, 0, 0)\<rparr>)]"
      "default_class_ids\<lparr>agent := [7]\<rparr>" None None]
  by (simp add: MAX_NODE_COUNT_def NODE_ID_MASK_def)

text \<open>
  C33. A position frame is all or nothing: it is accepted exactly when it is empty, or within the
  payload limit and a V3 or V5 envelope around a whole number (at most 100000) of 52-byte
  records. An unknown version, a misaligned body or a truncated sequence is refused whole.
\<close>
theorem position_frame_all_or_nothing:
  "is_ok (decode_node_data data) \<longleftrightarrow>
     data = [] \<or>
     length data \<le> MAX_PAYLOAD_SIZE \<and>
     (\<exists>body. (data = PROTOCOL_V3 # body \<or> (\<exists>seq. length seq = 8 \<and> data = PROTOCOL_V5 # seq @ body))
             \<and> 52 dvd length body \<and> length body div 52 \<le> MAX_NODE_COUNT)"
proof (cases data)
  case Nil
  then show ?thesis by (simp add: decode_node_data_def is_ok_def)
next
  case (Cons v pl)
  have v5: "(\<exists>body seq. length seq = 8 \<and> pl = seq @ body \<and> P body) \<longleftrightarrow> 8 \<le> length pl \<and> P (drop 8 pl)" for P
    by (metis append_eq_conv_conj append_take_drop_id length_append length_take le_add1 min.absorb2)
  show ?thesis
    unfolding Cons decode_node_data_def
    using is_ok_decode_v3 [of pl] is_ok_decode_v3 [of "drop 8 pl"]
      v5 [of "\<lambda>b. 52 dvd length b \<and> length b div 52 \<le> MAX_NODE_COUNT"]
    by (auto simp: is_ok_def limit_consts)
qed

text \<open>
  Class flags and identifiers never collide: whatever class set an id is in, the id the
  decoder reads back from the stamped wire id is the low 26 bits of the id, the class read
  back is the class it was stamped with (agents first, as the encoder tests them), and an id
  in no class set without a recognised class pattern is sent untyped.
\<close>
theorem flags_do_not_collide:
  "get_actual_node_id (flagged_id c n) = n AND NODE_ID_MASK
   \<and> get_node_type (flagged_id c n) =
      (if n \<in> set (agent c) then Agent
       else if n \<in> set (knowledge c) then Knowledge
       else if n \<in> set (ontology_class c) then OntologyClass
       else if n \<in> set (ontology_individual c) then OntologyIndividual
       else if n \<in> set (ontology_property c) then OntologyProperty
       else get_node_type n)"
  by (auto simp: actual_of_flagged_id) (auto simp: flagged_id_def)

text \<open>
  Agent-action batches round trip: the server's batch encoder produces the wire crate's
  \<open>0x23\<close> frame, and decoding the bytes after the opcode returns every event, when the counts
  and event lengths fit their 16-bit fields and the batch is within the payload limit.
\<close>
theorem agent_actions_roundtrip:
  assumes "length es < 2 ^ 16" and "\<forall>e \<in> set es. length (to_body e) < 2 ^ 16"
    and "length (agent_action_frame es) \<le> MAX_PAYLOAD_SIZE"
  shows "encode_agent_actions es = agent_action_frame es
    \<and> decode_agent_actions (drop 1 (encode_agent_actions es)) = Ok es"
proof -
  let ?body = "concat (map (\<lambda>e. length_prefixed (to_body e)) es)"
  have "decode_events (length es) (?body @ []) = Ok es"
    using assms(2) by (intro decode_events_frame) (simp add: event_fits_def)
  then show ?thesis
    using assms(1,3)
    by (simp add: encode_agent_actions_eq decode_agent_actions_def agent_action_frame_def unat_u16_of_nat)
qed

theorem agent_actions_roundtrip_witness:
  "decode_agent_actions (drop 1 (encode_agent_actions [plain_event 1 2 3, plain_event 4 5 6]))
     = Ok [plain_event 1 2 3, plain_event 4 5 6]"
proof -
  have "length (agent_action_frame [plain_event 1 2 3, plain_event 4 5 6]) \<le> MAX_PAYLOAD_SIZE"
    by (simp add: agent_action_frame_def length_prefixed_def length_to_body plain_event_def MAX_PAYLOAD_SIZE_def)
  then show ?thesis
    by (intro agent_actions_roundtrip [THEN conjunct2]) (simp_all add: length_to_body plain_event_def)
qed

text \<open>
  The server refuses a truncated agent-action batch whole: cut anywhere after the count and
  before the end, no event is returned. The wire crate's documentation promises a tolerant
  prefix parse of such a batch; the decoder of the server is not tolerant.
\<close>
theorem truncated_batch_refused:
  assumes "length es < 2 ^ 16" and "\<forall>e \<in> set es. length (to_body e) < 2 ^ 16"
    and "length (agent_action_frame es) \<le> MAX_PAYLOAD_SIZE"
    and "0 < d" and "3 + d \<le> length (agent_action_frame es)"
  shows "\<exists>err. decode_agent_actions (drop 1 (agent_action_frame_truncated es d)) = Err err"
proof -
  let ?body = "concat (map (\<lambda>e. length_prefixed (to_body e)) es)"
  define k where "k = length ?body - d"
  have len: "length (agent_action_frame es) = 3 + length ?body"
    by (simp add: agent_action_frame_def)
  have "k < length ?body" using assms(4,5) len by (simp add: k_def)
  then obtain err where err: "decode_events (length es) (take k ?body) = Err err"
    using decode_events_cut [of es k] assms(2) by (auto simp: event_fits_def)
  have tr: "drop 1 (agent_action_frame_truncated es d) = u16_le (word_of_nat (length es)) @ take k ?body"
  proof -
    have "length (agent_action_frame es) - d = Suc (2 + k)" and "3 \<le> Suc (2 + k)"
      using assms(5) len by (simp_all add: k_def)
    then show ?thesis
      by (simp only: agent_action_frame_truncated_def Let_def max.absorb1)
        (simp add: agent_action_frame_def)
  qed
  have "length (u16_le (word_of_nat (length es)) @ take k ?body) \<le> MAX_PAYLOAD_SIZE"
    using assms(3) len by simp
  then show ?thesis
    unfolding tr using assms(1) err by (simp add: decode_agent_actions_def unat_u16_of_nat)
qed

theorem truncated_batch_refused_witness:
  "\<exists>err. decode_agent_actions (drop 1 (agent_action_frame_truncated [plain_event 1 2 3, plain_event 4 5 6] 1))
           = Err err"
  by (rule truncated_batch_refused)
    (simp_all add: agent_action_frame_def length_prefixed_def length_to_body plain_event_def MAX_PAYLOAD_SIZE_def)

text \<open>
  The acknowledgement and the multiplexed envelope round trip: the 21-byte \<open>0x34\<close> frame is
  decoded to the three values it was built from, voice data to its samples, and a multiplexed
  message to itself.
\<close>
theorem control_messages_roundtrip:
  "decode_message (broadcast_ack_frame s n t) = Ok (BroadcastAck s n t)
   \<and> (decode_message (encode_voice_data audio) = Ok (VoiceData audio)) = (length audio < MAX_PAYLOAD_SIZE)
   \<and> multiplexed_decode (multiplexed_encode m) = Ok m"
proof -
  have "multiplexed_decode (multiplexed_encode m) = Ok m"
    by (cases m; cases "msg_type m") (simp_all add: multiplexed_decode_def multiplexed_encode_def)
  moreover have "decode_message (broadcast_ack_frame s n t) = Ok (BroadcastAck s n t)"
    by (simp add: decode_message_def broadcast_ack_frame_def OPCODE_BROADCAST_ACK_def
        decode_broadcast_ack_def MAX_PAYLOAD_SIZE_def rd32_def)
  ultimately show ?thesis
    by (auto simp: decode_message_def encode_voice_data_def decode_voice_data_def)
qed

end
