(* ===== verification/Position_Stream.thy ===== *)
theory Position_Stream
  imports Float32 Binary_Protocol "HOL-Library.Product_Lexorder" "HOL-Library.Multiset"
begin

text \<open>
  \<open>src/actors/position_stream.rs\<close>: what one client has acknowledged and which nodes to
  send it next. Positions are \<open>f32\<close> triples with the IEEE arithmetic of theory
  \<open>Float32\<close>. The cache of positions is a finite map; \<open>plan\<close> takes the order \<open>ks\<close> in
  which the hash table yields its keys. The partial selections of the source
  (\<open>select_nth_unstable_by\<close>) leave an unspecified order that the final sort removes; only
  the selected set matters, and both comparisons break ties by the unique id, so the model
  selects with a full sort.
\<close>

section \<open>State and operations\<close>

record stream_settings =
  chunk_nodes :: nat
  move_threshold :: f32
  ack_timeout :: duration

type_synonym analytics_key = "u32 \<times> u32 \<times> u32 \<times> u32"

record held_node =
  held_pos :: vec3
  held_key :: analytics_key
  held_seq :: u64

definition IN_FLIGHT_HISTORY :: nat where "IN_FLIGHT_HISTORY = 8"
definition FAIR_SHARE_DIVISOR :: nat where "FAIR_SHARE_DIVISOR = 4"
definition MAX_BACKOFF_DOUBLINGS :: u32 where "MAX_BACKOFF_DOUBLINGS = 3"

record in_flight_chunk =
  chunk_seq :: u64
  chunk_sent_at :: instant
  chunk_held :: "(u32 \<times> held_node) list"

record client_stream =
  acked :: "u32 \<rightharpoonup> held_node"
  in_flight :: "in_flight_chunk list"
  consecutive_timeouts :: u32

fun dist2 :: "vec3 \<Rightarrow> vec3 \<Rightarrow> f32" where
  "dist2 (ax, ay, az) (bx, by', bz) =
     (let dx = f32_sub ax bx; dy = f32_sub ay by'; dz = f32_sub az bz
      in f32_add (f32_add (f32_mul dx dx) (f32_mul dy dy)) (f32_mul dz dz))"

definition new_stream :: client_stream where
  "new_stream = \<lparr>acked = Map.empty, in_flight = [], consecutive_timeouts = 0\<rparr>"

definition effective_timeout :: "duration \<Rightarrow> client_stream \<Rightarrow> duration" where
  "effective_timeout d s = d * 2 ^ unat (min (consecutive_timeouts s) MAX_BACKOFF_DOUBLINGS)"

definition is_waiting :: "instant \<Rightarrow> duration \<Rightarrow> client_stream \<Rightarrow> bool" where
  "is_waiting now d s =
     (let wait = effective_timeout d s
      in in_flight s \<noteq> [] \<and> nat (now - chunk_sent_at (last (in_flight s))) < wait)"

definition has_in_flight :: "client_stream \<Rightarrow> bool" where
  "has_in_flight s = (in_flight s \<noteq> [])"

definition acknowledged_nodes :: "client_stream \<Rightarrow> nat" where
  "acknowledged_nodes s = card (dom (acked s))"

type_synonym candidate = "f32 \<times> u64 \<times> u32"

abbreviation cand_id :: "candidate \<Rightarrow> u32" where
  "cand_id c \<equiv> snd (snd c)"

text \<open>The candidate that one cache entry contributes, if any.\<close>

definition candidate_of ::
  "(u32 \<Rightarrow> bool) \<Rightarrow> (u32 \<Rightarrow> analytics_key) \<Rightarrow> f32 \<Rightarrow> client_stream \<Rightarrow> u32 \<Rightarrow> binary_node_data
     \<Rightarrow> candidate option" where
  "candidate_of visible analytics thr2 s i p =
     (if \<not> visible i then None
      else case acked s i of
             None \<Rightarrow> Some (F32_INFINITY, 0, i)
           | Some held \<Rightarrow>
               (let d2 = dist2 (node_pos p) (held_pos held)
                in if f32_lt thr2 d2 \<and> f32_lt 0 d2 then Some (d2, held_seq held, i)
                   else if analytics i \<noteq> held_key held then Some (0, held_seq held, i)
                   else None))"

definition by_move :: "candidate \<Rightarrow> int \<times> u32" where
  "by_move c = (- f32_total_key (fst c), cand_id c)"

definition by_age :: "candidate \<Rightarrow> u64 \<times> u32" where
  "by_age c = (fst (snd c), cand_id c)"

definition select_chunk :: "nat \<Rightarrow> candidate list \<Rightarrow> candidate list" where
  "select_chunk k candidates =
     (if length candidates > k
      then let fair = min (k div FAIR_SHARE_DIVISOR) (k - 1);
               movers = k - fair;
               ordered = sort_key by_move candidates;
               rest = drop movers ordered;
               tk = min fair (length rest)
           in take movers ordered @ (if tk > 0 then take tk (sort_key by_age rest) else [])
      else candidates)"

definition candidates ::
  "(u32 \<rightharpoonup> binary_node_data) \<Rightarrow> u32 list \<Rightarrow> (u32 \<Rightarrow> bool) \<Rightarrow> (u32 \<Rightarrow> analytics_key)
     \<Rightarrow> stream_settings \<Rightarrow> client_stream \<Rightarrow> candidate list" where
  "candidates cache ks visible analytics settings s =
     (let thr2 = f32_mul (move_threshold settings) (move_threshold settings)
      in List.map_filter
           (\<lambda>i. case cache i of None \<Rightarrow> None | Some p \<Rightarrow> candidate_of visible analytics thr2 s i p) ks)"

definition plan ::
  "(u32 \<rightharpoonup> binary_node_data) \<Rightarrow> u32 list \<Rightarrow> (u32 \<Rightarrow> bool) \<Rightarrow> (u32 \<Rightarrow> analytics_key)
     \<Rightarrow> stream_settings \<Rightarrow> client_stream \<Rightarrow> u32 list" where
  "plan cache ks visible analytics settings s =
     (let cs = candidates cache ks visible analytics settings s
      in if cs = [] then []
         else let k = max (chunk_nodes settings) 1
              in map cand_id (sort_key by_move (select_chunk k cs)))"

definition record_sent ::
  "u64 \<Rightarrow> instant \<Rightarrow> binary_node_data list \<Rightarrow> (u32 \<Rightarrow> analytics_key) \<Rightarrow> client_stream \<Rightarrow> client_stream" where
  "record_sent sq now ps analytics s =
     (let s1 = (if in_flight s \<noteq> [] then s\<lparr>consecutive_timeouts := sat_add (consecutive_timeouts s) 1\<rparr> else s);
          s2 = (if length (in_flight s1) \<ge> IN_FLIGHT_HISTORY then s1\<lparr>in_flight := tl (in_flight s1)\<rparr> else s1)
      in s2\<lparr>in_flight := in_flight s2 @
             [\<lparr>chunk_seq = sq, chunk_sent_at = now,
               chunk_held = map (\<lambda>p. (node_id p, \<lparr>held_pos = node_pos p,
                                        held_key = analytics (node_id p), held_seq = sq\<rparr>)) ps\<rparr>]\<rparr>)"

fun settle :: "(u32 \<times> held_node) list \<Rightarrow> (u32 \<rightharpoonup> held_node) \<Rightarrow> (u32 \<rightharpoonup> held_node)" where
  "settle [] a = a"
| "settle ((i, held) # nodes) a =
     settle nodes (case a i of
                     Some cur \<Rightarrow> if held_seq cur > held_seq held then a else a(i \<mapsto> held)
                   | None \<Rightarrow> a(i \<mapsto> held))"

text \<open>
  The first in-flight chunk with the acknowledged sequence is removed, then every remaining
  chunk that is not newer.
\<close>

fun remove_chunk :: "u64 \<Rightarrow> in_flight_chunk list \<Rightarrow> (in_flight_chunk \<times> in_flight_chunk list) option" where
  "remove_chunk sq [] = None"
| "remove_chunk sq (f # fs) =
     (if chunk_seq f = sq then Some (f, fs)
      else map_option (\<lambda>(g, gs). (g, f # gs)) (remove_chunk sq fs))"

definition acknowledge :: "u64 \<Rightarrow> client_stream \<Rightarrow> nat option \<times> client_stream" where
  "acknowledge sq s =
     (case remove_chunk sq (in_flight s) of
        None \<Rightarrow> (None, s)
      | Some (f, fs) \<Rightarrow>
          (Some (length (chunk_held f)),
           s\<lparr>in_flight := filter (\<lambda>g. chunk_seq g > sq) fs, consecutive_timeouts := 0,
             acked := settle (chunk_held f) (acked s)\<rparr>))"

definition retain_nodes :: "(u32 \<Rightarrow> bool) \<Rightarrow> client_stream \<Rightarrow> client_stream" where
  "retain_nodes keep s = s\<lparr>acked := (\<lambda>i. if keep i then acked s i else None)\<rparr>"

section \<open>An unmoved node is not displaced\<close>

text \<open>
  The squared distance of a position to itself is \<open>+0\<close>, or NaN when a coordinate is infinite
  or NaN. In both cases it is not greater than zero.
\<close>

definition zero_or_nan :: "f32 \<Rightarrow> bool" where
  "zero_or_nan x \<longleftrightarrow> x = 0 \<or> f32_is_nan x"

lemma f32_nan_const [simp]: "f32_is_nan F32_NAN" "\<not> f32_is_nan 0" "\<not> f32_is_infinite 0"
  "f32_is_zero 0" "\<not> f32_neg 0" "f32_scaled 0 = 0" "f32_mag 0 = 0"
  by (simp_all add: f32_is_nan_def F32_NAN_def f32_exp_def f32_man_def f32_is_infinite_def
      f32_is_zero_def f32_neg_def f32_scaled_def f32_mag_def)

lemma f32_sub_self: "zero_or_nan (f32_sub x x)"
proof -
  have "f32_scaled (f32_minus x) = - f32_scaled x" by (simp add: f32_scaled_def f32_mag_def)
  moreover have "f32_is_nan (f32_minus x) = f32_is_nan x" "f32_is_infinite (f32_minus x) = f32_is_infinite x"
    by (simp_all add: f32_is_nan_def f32_is_infinite_def)
  ultimately show ?thesis by (auto simp: f32_sub_def f32_add_def zero_or_nan_def Let_def)
qed

lemma f32_round_zero: "f32_round False 0 d = 0"
  by (simp add: f32_round_def round_shift_def bit_length.simps [of 0])

lemma zero_or_nan_mul: "zero_or_nan x \<Longrightarrow> zero_or_nan (f32_mul x x)"
  by (auto simp: zero_or_nan_def f32_mul_def f32_round_zero)

lemma zero_or_nan_add: "zero_or_nan x \<Longrightarrow> zero_or_nan y \<Longrightarrow> zero_or_nan (f32_add x y)"
  by (auto simp: zero_or_nan_def f32_add_def)

lemma dist2_self: "\<not> f32_lt 0 (dist2 p p)"
proof (cases p)
  case (fields x y z)
  then have "zero_or_nan (dist2 p p)"
    by (simp add: Let_def zero_or_nan_add zero_or_nan_mul f32_sub_self)
  then show ?thesis by (auto simp: zero_or_nan_def f32_lt_def)
qed

section \<open>The chunk planner\<close>

definition is_candidate ::
  "(u32 \<rightharpoonup> binary_node_data) \<Rightarrow> (u32 \<Rightarrow> bool) \<Rightarrow> (u32 \<Rightarrow> analytics_key) \<Rightarrow> stream_settings
     \<Rightarrow> client_stream \<Rightarrow> u32 \<Rightarrow> bool" where
  "is_candidate cache visible analytics settings s i =
     (case cache i of None \<Rightarrow> False
      | Some p \<Rightarrow> candidate_of visible analytics
          (f32_mul (move_threshold settings) (move_threshold settings)) s i p \<noteq> None)"

lemma candidate_of_id: "candidate_of visible analytics thr2 s i p = Some (d, q, j) \<Longrightarrow> j = i \<and> visible i"
  by (auto simp: candidate_of_def Let_def split: if_splits option.splits)

lemma map_filter_ids:
  assumes "\<And>i d q j. g i = Some (d, q, j) \<Longrightarrow> j = i"
  shows "map cand_id (List.map_filter g ks) = filter (\<lambda>i. g i \<noteq> None) ks"
proof (induction ks)
  case (Cons i ks)
  show ?case
  proof (cases "g i")
    case (Some c)
    then have "cand_id c = i" using assms by (metis prod.collapse)
    then show ?thesis using Some Cons by (cases c) (simp add: List.map_filter_simps)
  qed (use Cons in \<open>simp add: List.map_filter_simps\<close>)
qed (simp add: List.map_filter_simps)

lemma candidates_ids:
  "map cand_id (candidates cache ks visible analytics settings s)
     = filter (is_candidate cache visible analytics settings s) ks"
proof -
  let ?g = "\<lambda>i. case cache i of None \<Rightarrow> None
     | Some p \<Rightarrow> candidate_of visible analytics (f32_mul (move_threshold settings) (move_threshold settings)) s i p"
  have "?g i = Some (d, q, j) \<Longrightarrow> j = i" for i d q j
    by (auto dest: candidate_of_id split: option.splits)
  then have "map cand_id (List.map_filter ?g ks) = filter (\<lambda>i. ?g i \<noteq> None) ks" by (rule map_filter_ids)
  moreover have "(?g i \<noteq> None) = is_candidate cache visible analytics settings s i" for i
    by (simp add: is_candidate_def split: option.split)
  ultimately show ?thesis by (simp add: candidates_def Let_def)
qed

lemma distinct_candidates:
  "distinct ks \<Longrightarrow> distinct (map cand_id (candidates cache ks visible analytics settings s))"
  by (simp only: candidates_ids distinct_filter)

lemma mset_candidates:
  "mset ks = mset ks' \<Longrightarrow>
     mset (candidates cache ks visible analytics settings s)
       = mset (candidates cache ks' visible analytics settings s)"
  by (simp only: candidates_def List.map_filter_def Let_def mset_map mset_filter)

lemma sort_key_unique:
  assumes "mset xs = mset ys" and "inj_on f (set xs)"
  shows "sort_key f xs = sort_key f ys"
  by (rule sort_key_inj_key_eq) (use assms in simp_all)

lemma distinct_ids_inj:
  "distinct (map cand_id cs) \<Longrightarrow> inj_on by_move (set cs) \<and> inj_on by_age (set cs) \<and> distinct cs"
  by (auto simp: by_move_def by_age_def distinct_map inj_on_def)

definition fair_of :: "nat \<Rightarrow> nat" where
  "fair_of k = min (k div FAIR_SHARE_DIVISOR) (k - 1)"

lemma select_chunk_large:
  assumes "k < length cs"
  shows "select_chunk k cs =
    take (k - fair_of k) (sort_key by_move cs)
      @ take (fair_of k) (sort_key by_age (drop (k - fair_of k) (sort_key by_move cs)))"
proof -
  have "fair_of k \<le> length cs - (k - fair_of k)" using assms by (simp add: fair_of_def)
  then have "min (fair_of k) (length (drop (k - fair_of k) (sort_key by_move cs))) = fair_of k" by simp
  then show ?thesis
    using assms unfolding select_chunk_def fair_of_def [symmetric] Let_def by auto
qed

lemma length_select_chunk: "length (select_chunk k cs) = min k (length cs)"
proof (cases "k < length cs")
  case True
  have "fair_of k \<le> k" by (simp add: fair_of_def)
  with True show ?thesis by (simp add: select_chunk_large)
qed (simp add: select_chunk_def)

lemma mset_select_chunk: "mset (select_chunk k cs) \<subseteq># mset cs"
proof (cases "k < length cs")
  case True
  let ?o = "sort_key by_move cs" and ?m = "k - fair_of k"
  have "mset (select_chunk k cs) = mset (take ?m ?o) + mset (take (fair_of k) (sort_key by_age (drop ?m ?o)))"
    using True by (simp add: select_chunk_large)
  also have "\<dots> \<subseteq># mset (take ?m ?o) + mset (sort_key by_age (drop ?m ?o))"
    by (rule subset_mset.add_left_mono) (metis append_take_drop_id mset_append mset_subset_eq_add_left)
  also have "\<dots> = mset cs"
    unfolding mset_sort mset_append [symmetric] append_take_drop_id ..
  finally show ?thesis .
qed (simp add: select_chunk_def)

lemma distinct_submset:
  assumes "distinct (map cand_id cs)" and "mset ds \<subseteq># mset cs"
  shows "distinct (map cand_id ds)"
proof -
  obtain es where "mset cs = mset (ds @ es)" using assms(2)
    by (metis ex_mset mset_append subset_mset.add_diff_inverse)
  then have "mset (map cand_id cs) = mset (map cand_id (ds @ es))" by (simp only: mset_map)
  with assms(1) have "distinct (map cand_id (ds @ es))"
    by (metis mset_eq_imp_distinct_iff)
  then show ?thesis by simp
qed

text \<open>The chunk does not depend on the order in which the hash table yields its keys.\<close>

lemma select_chunk_order:
  assumes "distinct (map cand_id cs)" and "mset cs = mset ds"
  shows "sort_key by_move (select_chunk k cs) = sort_key by_move (select_chunk k ds)"
proof -
  have o: "sort_key by_move cs = sort_key by_move ds"
    using assms distinct_ids_inj by (blast intro: sort_key_unique)
  have "length cs = length ds" by (metis assms(2) size_mset)
  then have "select_chunk k cs = select_chunk k ds \<or> select_chunk k cs = cs \<and> select_chunk k ds = ds"
    using o by (auto simp: select_chunk_def Let_def)
  with o show ?thesis by auto
qed

lemma take_sort_min:
  assumes "0 < n" and "c \<in> set xs" and "\<forall>d \<in> set xs. f c \<le> f d" and "inj_on f (set xs)"
  shows "c \<in> set (take n (sort_key f xs))"
proof -
  let ?s = "sort_key f xs"
  obtain d ds where s: "?s = d # ds"
    using assms(2) by (cases ?s) (metis empty_iff list.set(1) set_sort, blast)
  then have "d \<in> set ?s" by simp
  then have "d \<in> set xs" by simp
  have "sorted (map f ?s)" by simp
  moreover have "c \<in> set ?s" using assms(2) by simp
  ultimately have "f d \<le> f c" unfolding s by auto
  then have "d = c" using assms(3,4) \<open>d \<in> set xs\<close> assms(2) by (meson antisym inj_onD)
  then show ?thesis using s assms(1) by (cases n) auto
qed

text \<open>The longest-waiting candidate is always in the chunk, once a share is reserved.\<close>

lemma oldest_selected:
  assumes "distinct (map cand_id cs)" and "0 < fair_of k" and "c \<in> set cs"
    and "\<forall>d \<in> set cs. by_age c \<le> by_age d"
  shows "c \<in> set (select_chunk k cs)"
proof (cases "k < length cs")
  case True
  let ?o = "sort_key by_move cs" and ?m = "k - fair_of k"
  have sub: "set (drop ?m ?o) \<subseteq> set cs" by (metis set_drop_subset set_sort)
  have "c \<in> set (take ?m ?o) \<or> c \<in> set (drop ?m ?o)"
    using assms(3) by (metis Un_iff append_take_drop_id set_append set_sort)
  then show ?thesis
  proof
    assume c: "c \<in> set (drop ?m ?o)"
    have "inj_on by_age (set (drop ?m ?o))"
      using distinct_ids_inj [OF assms(1)] sub inj_on_subset by blast
    then have "c \<in> set (take (fair_of k) (sort_key by_age (drop ?m ?o)))"
      using c assms(2,4) sub by (intro take_sort_min) auto
    then show ?thesis using True by (simp add: select_chunk_large)
  qed (use True in \<open>simp add: select_chunk_large\<close>)
qed (use assms(3) in \<open>simp add: select_chunk_def\<close>)

text \<open>What the plan is, over the candidates.\<close>

lemma plan_eq:
  "plan cache ks visible analytics settings s =
     map cand_id (sort_key by_move (select_chunk (max (chunk_nodes settings) 1)
        (candidates cache ks visible analytics settings s)))"
  by (simp add: plan_def select_chunk_def Let_def)

lemma length_plan:
  "length (plan cache ks visible analytics settings s) =
     min (max (chunk_nodes settings) 1)
         (length (filter (is_candidate cache visible analytics settings s) ks))"
  using arg_cong [OF candidates_ids, of length]
  by (simp add: plan_eq length_select_chunk)

lemma distinct_plan: "distinct ks \<Longrightarrow> distinct (plan cache ks visible analytics settings s)"
  unfolding plan_eq
  by (rule distinct_submset [where cs = "candidates cache ks visible analytics settings s"])
    (simp_all only: distinct_candidates mset_sort mset_select_chunk)

lemma set_plan: "set (plan cache ks visible analytics settings s)
    \<subseteq> {i \<in> set ks. is_candidate cache visible analytics settings s i}"
proof -
  let ?cs = "candidates cache ks visible analytics settings s"
  have "set (plan cache ks visible analytics settings s) \<subseteq> set (map cand_id ?cs)"
    using set_mset_mono [OF mset_select_chunk] by (fastforce simp: plan_eq)
  then show ?thesis by (simp only: candidates_ids set_filter)
qed

text \<open>Nodes that the client may not see have no influence on the plan.\<close>

lemma candidates_visible:
  "candidates cache ks visible analytics settings s
     = candidates cache (filter visible ks) visible analytics settings s"
proof -
  let ?g = "\<lambda>i. case cache i of None \<Rightarrow> None
     | Some p \<Rightarrow> candidate_of visible analytics (f32_mul (move_threshold settings) (move_threshold settings)) s i p"
  have "List.map_filter ?g ks = List.map_filter ?g (filter visible ks)"
    by (induction ks) (auto simp: List.map_filter_simps candidate_of_def split: option.split)
  then show ?thesis by (simp add: candidates_def Let_def)
qed

lemma candidates_cong:
  assumes "\<forall>i \<in> set ks. cache i = cache' i \<and> analytics i = analytics' i"
  shows "candidates cache ks visible analytics settings s = candidates cache' ks visible analytics' settings s"
  using assms by (induction ks) (auto simp: candidates_def Let_def List.map_filter_simps candidate_of_def split: option.split)

lemma plan_hides:
  assumes "distinct ks" and "set ks = dom cache" and "distinct ks'" and "set ks' = dom cache'"
    and "\<forall>i. visible i \<longrightarrow> cache i = cache' i \<and> analytics i = analytics' i"
  shows "plan cache ks visible analytics settings s = plan cache' ks' visible analytics' settings s"
proof -
  have "set (filter visible ks) = set (filter visible ks')" using assms(2,4,5) by fastforce
  then have "mset (filter visible ks) = mset (filter visible ks')"
    using assms(1,3) by (metis distinct_filter set_eq_iff_mset_eq_distinct)
  then have "mset (candidates cache ks visible analytics settings s)
      = mset (candidates cache (filter visible ks') visible analytics settings s)"
    by (metis candidates_visible mset_candidates)
  also have "candidates cache (filter visible ks') visible analytics settings s
      = candidates cache' ks' visible analytics' settings s"
    using candidates_cong [of "filter visible ks'" cache cache' analytics analytics'] assms(5)
      candidates_visible [of cache' ks'] by simp
  finally show ?thesis
    unfolding plan_eq using select_chunk_order [OF distinct_candidates [OF assms(1)]] by metis
qed

section \<open>Acknowledgements\<close>

lemma settle_mono:
  "a i = Some h \<Longrightarrow> \<exists>h'. settle nodes a i = Some h' \<and> held_seq h \<le> held_seq h'"
proof (induction nodes a arbitrary: h rule: settle.induct)
  case (2 j held nodes a)
  let ?a = "case a j of Some cur \<Rightarrow> if held_seq cur > held_seq held then a else a(j \<mapsto> held)
              | None \<Rightarrow> a(j \<mapsto> held)"
  have "\<exists>h1. ?a i = Some h1 \<and> held_seq h \<le> held_seq h1"
    using "2.prems" by (cases "i = j") (auto split: option.split)
  then obtain h1 where "?a i = Some h1" "held_seq h \<le> held_seq h1" by blast
  with "2.IH" show ?case by fastforce
qed simp

lemma settle_older:
  assumes "distinct (map fst nodes)" and "\<forall>(i, h) \<in> set nodes. \<forall>h'. a i = Some h' \<longrightarrow> held_seq h' \<le> held_seq h"
  shows "settle nodes a = a ++ map_of nodes"
  using assms
proof (induction nodes a rule: settle.induct)
  case (2 j held nodes a)
  let ?b = "a(j \<mapsto> held)"
  have eq: "(case a j of Some cur \<Rightarrow> if held_seq cur > held_seq held then a else ?b | None \<Rightarrow> ?b) = ?b"
    using "2.prems"(2) by (auto simp: not_less split: option.split)
  have j: "j \<notin> fst ` set nodes" using "2.prems"(1) by simp
  then have "\<forall>(i, h) \<in> set nodes. ?b i = a i" by force
  then have "\<forall>(i, h) \<in> set nodes. \<forall>h'. ?b i = Some h' \<longrightarrow> held_seq h' \<le> held_seq h"
    using "2.prems"(2) by fastforce
  then have "settle nodes ?b = ?b ++ map_of nodes"
    by (rule "2.IH" [unfolded eq, rotated]) (use "2.prems"(1) in simp)
  moreover have "?b ++ map_of nodes = a ++ map_of ((j, held) # nodes)"
    using map_of_eq_None_iff [of nodes j] j by (auto simp: map_add_def fun_eq_iff split: option.split)
  ultimately show ?case by (simp only: settle.simps eq)
qed simp

lemma remove_chunk_last: "chunk_seq f \<notin> chunk_seq ` set fs \<Longrightarrow> remove_chunk (chunk_seq f) (fs @ [f]) = Some (f, fs)"
  by (induction fs) auto

text \<open>The calls on a stream, for histories.\<close>

datatype stream_op =
    Sent u64 instant "binary_node_data list" "u32 \<Rightarrow> analytics_key"
  | Acked u64
  | Retained "u32 \<Rightarrow> bool"

fun stream_step :: "stream_op \<Rightarrow> client_stream \<Rightarrow> client_stream" where
  "stream_step (Sent sq now ps analytics) s = record_sent sq now ps analytics s"
| "stream_step (Acked sq) s = snd (acknowledge sq s)"
| "stream_step (Retained keep) s = retain_nodes keep s"

definition stream_inv :: "client_stream \<Rightarrow> bool" where
  "stream_inv s \<longleftrightarrow> length (in_flight s) \<le> IN_FLIGHT_HISTORY
     \<and> (\<forall>f \<in> set (in_flight s). \<forall>(i, h) \<in> set (chunk_held f). held_seq h = chunk_seq f)"

lemma remove_chunk_Some:
  "remove_chunk sq fs = Some (f, gs) \<Longrightarrow>
     f \<in> set fs \<and> chunk_seq f = sq \<and> set gs \<subseteq> set fs \<and> length fs = Suc (length gs)"
  by (induction fs arbitrary: f gs) (auto split: if_splits)

lemma stream_step_inv [inv_intros]: "stream_inv s \<Longrightarrow> stream_inv (stream_step x s)"
proof (cases x)
  case (Sent sq now ps analytics)
  assume "stream_inv s"
  then show ?thesis
    unfolding Sent by (auto simp: stream_inv_def record_sent_def Let_def IN_FLIGHT_HISTORY_def
        dest: list.set_sel(2) [rotated] split: prod.splits)
next
  case (Acked sq)
  assume inv: "stream_inv s"
  show ?thesis
  proof (cases "remove_chunk sq (in_flight s)")
    case (Some r)
    obtain f gs where r: "r = (f, gs)" by (cases r)
    have "length (filter (\<lambda>g. sq < chunk_seq g) gs) \<le> length gs" by (rule length_filter_le)
    moreover have "length gs \<le> IN_FLIGHT_HISTORY"
      using inv remove_chunk_Some [OF Some [unfolded r]] by (simp add: stream_inv_def)
    ultimately have "length (filter (\<lambda>g. sq < chunk_seq g) gs) \<le> IN_FLIGHT_HISTORY" by (rule le_trans)
    then show ?thesis
      using inv remove_chunk_Some [OF Some [unfolded r]] Some r unfolding Acked
      by (auto simp: stream_inv_def acknowledge_def)
  qed (use inv Acked in \<open>simp add: acknowledge_def\<close>)
qed (simp add: stream_inv_def retain_nodes_def)

interpretation stream: guarded_component stream_step new_stream stream_inv
  by unfold_locales (simp_all add: stream_step_inv, simp add: stream_inv_def new_stream_def)

lemma acked_step_mono:
  "acked s i = Some h \<Longrightarrow> (\<And>keep. x = Retained keep \<Longrightarrow> keep i) \<Longrightarrow>
     \<exists>h'. acked (stream_step x s) i = Some h' \<and> held_seq h \<le> held_seq h'"
proof (cases x)
  case (Acked sq)
  assume "acked s i = Some h"
  then show ?thesis
    unfolding Acked using settle_mono
    by (cases "remove_chunk sq (in_flight s)") (auto simp: acknowledge_def split: prod.splits)
qed (auto simp: record_sent_def retain_nodes_def Let_def)

text \<open>The sequence numbers that a history sends.\<close>

fun sent_seq :: "stream_op \<Rightarrow> u64 option" where
  "sent_seq (Sent sq now ps analytics) = Some sq"
| "sent_seq _ = None"

definition sent_seqs :: "stream_op list \<Rightarrow> u64 list" where
  "sent_seqs ops = List.map_filter sent_seq ops"

text \<open>Nothing older than \<open>q\<close> is on its way or held of node \<open>i\<close>.\<close>

definition later_than :: "u64 \<Rightarrow> u32 \<Rightarrow> client_stream \<Rightarrow> bool" where
  "later_than q i s \<longleftrightarrow> stream_inv s \<and> (\<forall>f \<in> set (in_flight s). q < chunk_seq f)
     \<and> (\<forall>h. acked s i = Some h \<longrightarrow> q \<le> held_seq h)"

lemma settle_origin: "settle nodes a i = Some h \<Longrightarrow> a i = Some h \<or> (i, h) \<in> set nodes"
proof (induction nodes a rule: settle.induct)
  case (2 j held nodes a)
  let ?a = "case a j of Some cur \<Rightarrow> if held_seq cur > held_seq held then a else a(j \<mapsto> held) | None \<Rightarrow> a(j \<mapsto> held)"
  have "?a i = Some h \<or> (i, h) \<in> set nodes" using "2.IH" "2.prems" by simp
  then show ?case by (auto split: option.splits if_splits)
qed simp

lemma acknowledge_origin:
  assumes "stream_inv s" and "acked (snd (acknowledge sq s)) i = Some h"
  shows "acked s i = Some h \<or> (\<exists>f \<in> set (in_flight s). chunk_seq f = held_seq h \<and> held_seq h = sq)"
proof (cases "remove_chunk sq (in_flight s)")
  case (Some r)
  obtain f fs where r: "r = (f, fs)" by (cases r)
  note f = remove_chunk_Some [OF Some [unfolded r]]
  have "acked s i = Some h \<or> (i, h) \<in> set (chunk_held f)"
    using assms(2) settle_origin by (simp add: acknowledge_def Some r)
  moreover have "held_seq h = chunk_seq f" if "(i, h) \<in> set (chunk_held f)"
    using assms(1) f that by (fastforce simp: stream_inv_def)
  ultimately show ?thesis using f by auto
qed (use assms in \<open>simp add: acknowledge_def\<close>)

lemma in_flight_acknowledge: "set (in_flight (snd (acknowledge sq s))) \<subseteq> set (in_flight s)"
  using remove_chunk_Some [of sq "in_flight s"] by (auto simp: acknowledge_def split: option.split)

lemma set_in_flight_sent:
  "f \<in> set (in_flight (record_sent sq now ps analytics s)) \<Longrightarrow> f \<in> set (in_flight s) \<or> chunk_seq f = sq"
  by (cases "in_flight s") (auto simp: record_sent_def Let_def split: if_splits)

lemma later_than_step:
  assumes "later_than q i s" and "\<And>sq. sent_seq x = Some sq \<Longrightarrow> q < sq"
  shows "later_than q i (stream_step x s)"
proof -
  have inv: "stream_inv (stream_step x s)" using assms(1) stream_step_inv by (simp add: later_than_def)
  show ?thesis
  proof (cases x)
    case (Sent sq now ps analytics)
    then show ?thesis using inv assms set_in_flight_sent [of _ sq now ps analytics s]
      by (fastforce simp: later_than_def record_sent_def Let_def)
  next
    case (Acked sq)
    have "q \<le> held_seq h" if "acked (snd (acknowledge sq s)) i = Some h" for h
      using acknowledge_origin [OF _ that] assms(1) by (fastforce simp: later_than_def)
    then show ?thesis using inv assms(1) in_flight_acknowledge [of sq s] by (auto simp: later_than_def Acked)
  next
    case (Retained keep)
    then show ?thesis using inv assms(1) by (auto simp: later_than_def retain_nodes_def split: if_splits)
  qed
qed

text \<open>While the numbers increase, all that is held is older than what is in flight.\<close>

definition all_before :: "u64 list \<Rightarrow> client_stream \<Rightarrow> bool" where
  "all_before sqs s \<longleftrightarrow> stream_inv s \<and> chunk_seq ` set (in_flight s) \<subseteq> set sqs
     \<and> (\<forall>i h. acked s i = Some h \<longrightarrow> held_seq h \<in> set sqs \<and> (\<forall>f \<in> set (in_flight s). held_seq h < chunk_seq f))"

lemma all_before_step:
  assumes "all_before sqs s" and "\<And>sq. sent_seq x = Some sq \<Longrightarrow> \<forall>q \<in> set sqs. q < sq"
  shows "all_before (sqs @ sent_seqs [x]) (stream_step x s)"
proof -
  have inv: "stream_inv (stream_step x s)" using assms(1) stream_step_inv by (simp add: all_before_def)
  show ?thesis
  proof (cases x)
    case (Sent sq now ps analytics)
    then have new: "\<forall>q \<in> set sqs. q < sq" using assms(2) by simp
    have a: "acked (record_sent sq now ps analytics s) = acked s" by (simp add: record_sent_def Let_def)
    show ?thesis using inv assms(1) new set_in_flight_sent [of _ sq now ps analytics s]
      unfolding Sent all_before_def by (fastforce simp: a sent_seqs_def List.map_filter_simps)
  next
    case (Acked sq)
    have left: "sq < chunk_seq g" if "g \<in> set (in_flight (snd (acknowledge sq s)))" "remove_chunk sq (in_flight s) \<noteq> None" for g
      using that by (auto simp: acknowledge_def split: option.splits)
    have "held_seq h \<in> set sqs \<and> (\<forall>f \<in> set (in_flight (snd (acknowledge sq s))). held_seq h < chunk_seq f)"
      if h: "acked (snd (acknowledge sq s)) j = Some h" for j h
    proof (cases "acked s j = Some h")
      case True
      then show ?thesis using assms(1) in_flight_acknowledge [of sq s] by (auto simp: all_before_def)
    next
      case False
      then have "remove_chunk sq (in_flight s) \<noteq> None" using h by (cases "remove_chunk sq (in_flight s)") (simp_all add: acknowledge_def)
      moreover obtain f where "f \<in> set (in_flight s)" "chunk_seq f = held_seq h" "held_seq h = sq"
        using acknowledge_origin [OF _ h] False assms(1) by (auto simp: all_before_def)
      ultimately show ?thesis using assms(1) left by (auto simp: all_before_def)
    qed
    then show ?thesis using inv assms(1) in_flight_acknowledge [of sq s]
      by (fastforce simp: all_before_def Acked sent_seqs_def List.map_filter_simps)
  next
    case (Retained keep)
    then show ?thesis using inv assms(1)
      by (auto simp: all_before_def retain_nodes_def sent_seqs_def List.map_filter_simps split: if_splits)
  qed
qed

lemma sent_seqs_append: "sent_seqs (xs @ ys) = sent_seqs xs @ sent_seqs ys"
  by (simp add: sent_seqs_def List.map_filter_def)

lemma all_before_history:
  "sorted_wrt (<) (sent_seqs ops) \<Longrightarrow> all_before (sent_seqs ops) (fold stream_step ops new_stream)"
proof (induction ops rule: rev_induct)
  case Nil
  then show ?case by (simp add: all_before_def stream_inv_def new_stream_def)
next
  case (snoc x xs)
  then have "all_before (sent_seqs xs) (fold stream_step xs new_stream)" by (simp add: sent_seqs_append sorted_wrt_append)
  moreover have "\<forall>q \<in> set (sent_seqs xs). q < sq" if "sent_seq x = Some sq" for sq
    using snoc.prems that by (simp add: sent_seqs_append sorted_wrt_append) (simp add: sent_seqs_def List.map_filter_simps)
  ultimately show ?case using all_before_step [of "sent_seqs xs" _ x] by (simp add: sent_seqs_append)
qed

lemma later_than_history:
  "later_than q i s \<Longrightarrow> \<forall>sq \<in> set (sent_seqs ops). q < sq \<Longrightarrow> later_than q i (fold stream_step ops s)"
proof (induction ops arbitrary: s)
  case (Cons x ops)
  have x: "q < sq" if "sent_seq x = Some sq" for sq
    using Cons.prems(2) that by (simp add: sent_seqs_def List.map_filter_simps)
  have "\<forall>sq \<in> set (sent_seqs ops). q < sq"
    using Cons.prems(2) by (auto simp: sent_seqs_def List.map_filter_simps split: option.splits)
  then show ?case using Cons.IH [OF later_than_step [OF Cons.prems(1) x]] by simp
qed simp

section \<open>A healthy client\<close>

text \<open>
  One round of a client that acknowledges what it receives: the planned nodes are looked up in
  the cache, sent as chunk \<open>sq\<close> and acknowledged. \<open>rounds n\<close> is \<open>n\<close> rounds with
  consecutive sequence numbers over an unchanging cache.
\<close>

definition healthy_round ::
  "(u32 \<rightharpoonup> binary_node_data) \<Rightarrow> u32 list \<Rightarrow> (u32 \<Rightarrow> bool) \<Rightarrow> (u32 \<Rightarrow> analytics_key) \<Rightarrow> stream_settings
     \<Rightarrow> instant \<Rightarrow> u64 \<Rightarrow> client_stream \<Rightarrow> client_stream" where
  "healthy_round cache ks visible analytics settings now sq s =
     (let ids = plan cache ks visible analytics settings s
      in if ids = [] then s
         else snd (acknowledge sq (record_sent sq now (List.map_filter cache ids) analytics s)))"

fun rounds ::
  "(u32 \<rightharpoonup> binary_node_data) \<Rightarrow> u32 list \<Rightarrow> (u32 \<Rightarrow> bool) \<Rightarrow> (u32 \<Rightarrow> analytics_key) \<Rightarrow> stream_settings
     \<Rightarrow> instant \<Rightarrow> nat \<Rightarrow> u64 \<Rightarrow> client_stream \<Rightarrow> client_stream" where
  "rounds cache ks visible analytics settings now 0 sq s = s"
| "rounds cache ks visible analytics settings now (Suc n) sq s =
     rounds cache ks visible analytics settings now n (sq + 1)
       (healthy_round cache ks visible analytics settings now sq s)"

lemma map_filter_all:
  assumes "\<forall>i \<in> set ids. cache i \<noteq> None" and "\<forall>i p. cache i = Some p \<longrightarrow> node_id p = i"
  shows "map node_id (List.map_filter cache ids) = ids
    \<and> (\<forall>i \<in> set ids. \<forall>p. cache i = Some p \<longrightarrow> p \<in> set (List.map_filter cache ids))
    \<and> (\<forall>p \<in> set (List.map_filter cache ids). cache (node_id p) = Some p)"
  using assms by (induction ids) (auto simp: List.map_filter_simps)

lemma healthy_round_acked:
  assumes "in_flight s = []" and "\<forall>i h. acked s i = Some h \<longrightarrow> held_seq h \<le> sq"
    and "distinct ks" and "\<forall>i p. cache i = Some p \<longrightarrow> node_id p = i"
    and "ids = plan cache ks visible analytics settings s"
    and "s' = healthy_round cache ks visible analytics settings now sq s"
  shows "in_flight s' = []
    \<and> (\<forall>i. acked s' i = (if i \<in> set ids
                         then map_option (\<lambda>p. \<lparr>held_pos = node_pos p, held_key = analytics i, held_seq = sq\<rparr>) (cache i)
                         else acked s i))"
proof (cases "ids = []")
  case True
  then show ?thesis using assms by (simp add: healthy_round_def)
next
  case False
  let ?ps = "List.map_filter cache ids"
  let ?h = "\<lambda>p. (node_id p, \<lparr>held_pos = node_pos p, held_key = analytics (node_id p), held_seq = sq\<rparr>)"
  have "\<forall>i \<in> set ids. cache i \<noteq> None"
    using set_plan [of cache ks visible analytics settings s] assms(5)
    by (auto simp: is_candidate_def split: option.splits)
  note ps = map_filter_all [OF this assms(4)]
  have ids: "map fst (map ?h ?ps) = ids" using ps by (simp add: comp_def)
  have dist: "distinct (map fst (map ?h ?ps))"
    unfolding ids using distinct_plan [OF assms(3)] assms(5) by simp
  have "settle (map ?h ?ps) (acked s) = acked s ++ map_of (map ?h ?ps)"
    using dist assms(2) by (intro settle_older) auto
  then have s': "acked s' = acked s ++ map_of (map ?h ?ps)" "in_flight s' = []"
    using False assms(1,5,6)
    by (simp_all add: healthy_round_def acknowledge_def record_sent_def Let_def IN_FLIGHT_HISTORY_def)
  have "map_of (map ?h ?ps) i = (if i \<in> set ids
      then map_option (\<lambda>p. \<lparr>held_pos = node_pos p, held_key = analytics i, held_seq = sq\<rparr>) (cache i) else None)" for i
  proof (cases "i \<in> set ids")
    case True
    then obtain p where p: "cache i = Some p" "p \<in> set ?ps"
      using \<open>\<forall>i \<in> set ids. cache i \<noteq> None\<close> ps by auto
    then have "node_id p = i" using assms(4) by simp
    then have "(i, \<lparr>held_pos = node_pos p, held_key = analytics i, held_seq = sq\<rparr>) \<in> set (map ?h ?ps)"
      using p(2) by auto
    with dist have "map_of (map ?h ?ps) i
        = Some \<lparr>held_pos = node_pos p, held_key = analytics i, held_seq = sq\<rparr>"
      by (rule map_of_is_SomeI)
    with True p show ?thesis by simp
  next
    case F: False
    then have "i \<notin> fst ` set (map ?h ?ps)" using ids by (metis list.set_map)
    then show ?thesis using F by (simp only: map_of_eq_None_iff [symmetric] if_False)
  qed
  then show ?thesis
    using s' \<open>\<forall>i \<in> set ids. cache i \<noteq> None\<close> by (auto simp: map_add_def split: option.splits)
qed

text \<open>A round turns exactly the planned nodes into non-candidates.\<close>

lemma healthy_round_candidates:
  assumes "in_flight s = []" and "\<forall>i h. acked s i = Some h \<longrightarrow> held_seq h \<le> sq"
    and "distinct ks" and "\<forall>i p. cache i = Some p \<longrightarrow> node_id p = i"
    and "s' = healthy_round cache ks visible analytics settings now sq s"
  shows "is_candidate cache visible analytics settings s' i \<longleftrightarrow>
     is_candidate cache visible analytics settings s i
     \<and> i \<notin> set (plan cache ks visible analytics settings s)"
proof -
  let ?ids = "plan cache ks visible analytics settings s"
  have acked: "acked s' i = (if i \<in> set ?ids
      then map_option (\<lambda>p. \<lparr>held_pos = node_pos p, held_key = analytics i, held_seq = sq\<rparr>) (cache i)
      else acked s i)"
    using healthy_round_acked [OF assms(1-4) refl assms(5)] by blast
  then show ?thesis
    using dist2_self
    by (auto simp: is_candidate_def candidate_of_def Let_def split: option.splits)
qed

lemma filter_not_in:
  assumes "distinct ids" and "set ids \<subseteq> set xs" and "distinct xs"
  shows "length (filter (\<lambda>i. i \<notin> set ids) xs) = length xs - length ids"
proof -
  have "set (filter (\<lambda>i. i \<notin> set ids) xs) = set xs - set ids" by auto
  then have "card (set (filter (\<lambda>i. i \<notin> set ids) xs)) = card (set xs) - card (set ids)"
    using assms(2) by (simp add: card_Diff_subset)
  then show ?thesis by (metis assms(1,3) distinct_card distinct_filter)
qed

lemma round_progress:
  assumes "in_flight s = []" and "\<forall>i h. acked s i = Some h \<longrightarrow> held_seq h \<le> sq"
    and "distinct ks" and "\<forall>i p. cache i = Some p \<longrightarrow> node_id p = i"
    and "s' = healthy_round cache ks visible analytics settings now sq s"
  shows "length (filter (is_candidate cache visible analytics settings s') ks)
    = length (filter (is_candidate cache visible analytics settings s) ks)
      - max (chunk_nodes settings) 1"
proof -
  let ?ids = "plan cache ks visible analytics settings s"
  let ?cs = "filter (is_candidate cache visible analytics settings s) ks"
  have "filter (is_candidate cache visible analytics settings s') ks = filter (\<lambda>i. i \<notin> set ?ids) ?cs"
    unfolding filter_filter using healthy_round_candidates [OF assms] by (intro filter_cong) auto
  moreover have "length (filter (\<lambda>i. i \<notin> set ?ids) ?cs) = length ?cs - length ?ids"
    using assms(3) set_plan by (intro filter_not_in distinct_plan) fastforce+
  ultimately show ?thesis by (simp add: length_plan)
qed

lemma rounds_settle:
  assumes "in_flight s = []" and "\<forall>i h. acked s i = Some h \<longrightarrow> held_seq h \<le> sq"
    and "distinct ks" and "\<forall>i p. cache i = Some p \<longrightarrow> node_id p = i"
    and "unat sq + n < 2 ^ 64"
    and "length (filter (is_candidate cache visible analytics settings s) ks) \<le> n * max (chunk_nodes settings) 1"
  shows "\<forall>i \<in> set ks. \<not> is_candidate cache visible analytics settings
           (rounds cache ks visible analytics settings now n sq s) i"
  using assms
proof (induction n arbitrary: sq s)
  case 0
  then show ?case by (auto simp: filter_empty_conv)
next
  case (Suc n)
  let ?s = "healthy_round cache ks visible analytics settings now sq s"
  note step = healthy_round_acked [OF Suc.prems(1-4) refl refl, of visible analytics settings now]
  have sq: "unat (sq + 1) = Suc (unat sq)"
    using Suc.prems(5) by (simp add: unat_add_lem [THEN iffD1])
  have "sq \<le> sq + 1" using sq by (simp add: word_le_nat_alt)
  then have "\<forall>i h. acked ?s i = Some h \<longrightarrow> held_seq h \<le> sq + 1"
    using step Suc.prems(2) by (auto split: if_splits intro: order_trans)
  moreover have "length (filter (is_candidate cache visible analytics settings ?s) ks)
      \<le> n * max (chunk_nodes settings) 1"
    using round_progress [OF Suc.prems(1-4) refl, of visible analytics settings now] Suc.prems(6) by simp
  ultimately show ?case
    using Suc.IH [of ?s "sq + 1"] step Suc.prems(3-5) sq by simp
qed

text \<open>
  What a client holds of a node is up to date when the labels agree and the node has not moved past
  the threshold from there; a distance that is NaN counts as not moved.
\<close>

definition up_to_date :: "analytics_key \<Rightarrow> stream_settings \<Rightarrow> binary_node_data \<Rightarrow> held_node \<Rightarrow> bool" where
  "up_to_date key settings p h \<longleftrightarrow> held_key h = key
     \<and> \<not> (f32_lt (f32_mul (move_threshold settings) (move_threshold settings)) (dist2 (node_pos p) (held_pos h))
          \<and> f32_lt 0 (dist2 (node_pos p) (held_pos h)))"

definition behind ::
  "(u32 \<rightharpoonup> binary_node_data) \<Rightarrow> (u32 \<Rightarrow> bool) \<Rightarrow> (u32 \<Rightarrow> analytics_key) \<Rightarrow> stream_settings
     \<Rightarrow> client_stream \<Rightarrow> u32 set" where
  "behind cache visible analytics settings s =
     {i. visible i \<and> (\<exists>p. cache i = Some p \<and> (\<forall>h. acked s i = Some h \<longrightarrow> \<not> up_to_date (analytics i) settings p h))}"

lemma is_candidate_behind: "is_candidate cache visible analytics settings s i \<longleftrightarrow> i \<in> behind cache visible analytics settings s"
  by (auto simp: is_candidate_def candidate_of_def behind_def up_to_date_def Let_def split: option.split)

text \<open>Rounds change what is held of a node only to its position in the cache.\<close>

lemma rounds_acked:
  assumes "in_flight s = []" and "\<forall>i h. acked s i = Some h \<longrightarrow> held_seq h \<le> sq"
    and "distinct ks" and "\<forall>i p. cache i = Some p \<longrightarrow> node_id p = i" and "unat sq + n < 2 ^ 64"
  shows "acked (rounds cache ks visible analytics settings now n sq s) i = acked s i
    \<or> visible i \<and> (\<exists>p h. cache i = Some p \<and> acked (rounds cache ks visible analytics settings now n sq s) i = Some h
        \<and> held_pos h = node_pos p)"
  using assms
proof (induction n arbitrary: sq s)
  case (Suc n)
  let ?s = "healthy_round cache ks visible analytics settings now sq s"
  note step = healthy_round_acked [OF Suc.prems(1-4) refl refl, of visible analytics settings now]
  have sq: "unat (sq + 1) = Suc (unat sq)"
    using Suc.prems(5) by (simp add: unat_add_lem [THEN iffD1])
  have "sq \<le> sq + 1" using sq by (simp add: word_le_nat_alt)
  then have "\<forall>i h. acked ?s i = Some h \<longrightarrow> held_seq h \<le> sq + 1"
    using step Suc.prems(2) by (auto split: if_splits intro: order_trans)
  then have "acked (rounds cache ks visible analytics settings now n (sq + 1) ?s) i = acked ?s i
    \<or> visible i \<and> (\<exists>p h. cache i = Some p \<and> acked (rounds cache ks visible analytics settings now n (sq + 1) ?s) i = Some h
        \<and> held_pos h = node_pos p)"
    using step Suc.prems(3-5) sq by (intro Suc.IH) simp_all
  moreover have "acked ?s i = acked s i
      \<or> visible i \<and> (\<exists>p h. cache i = Some p \<and> acked ?s i = Some h \<and> held_pos h = node_pos p)"
  proof (cases "i \<in> set (plan cache ks visible analytics settings s)")
    case True
    then have "is_candidate cache visible analytics settings s i" using set_plan by fastforce
    then obtain p where "visible i" "cache i = Some p" by (auto simp: is_candidate_behind behind_def)
    then show ?thesis using step True by simp
  qed (use step in simp)
  ultimately show ?case by auto
qed simp

text \<open>Enough rounds leave nothing behind: every visible node is held, and no other node is touched.\<close>

lemma rounds_deliver:
  assumes "in_flight s = []" and "\<forall>i h. acked s i = Some h \<longrightarrow> held_seq h \<le> sq"
    and "distinct ks" and "set ks = dom cache" and "\<forall>i p. cache i = Some p \<longrightarrow> node_id p = i"
    and "unat sq + n < 2 ^ 64"
    and "card (behind cache visible analytics settings s) \<le> n * max (chunk_nodes settings) 1"
    and s': "s' = rounds cache ks visible analytics settings now n sq s"
  shows "behind cache visible analytics settings s' = {}"
    "cache i = Some p \<Longrightarrow> visible i \<Longrightarrow>
       \<exists>h. acked s' i = Some h \<and> up_to_date (analytics i) settings p h \<and> (acked s i = Some h \<or> held_pos h = node_pos p)"
    "\<not> visible i \<or> cache i = None \<Longrightarrow> acked s' i = acked s i"
proof -
  have sub: "behind cache visible analytics settings r \<subseteq> set ks" for r using assms(4) by (auto simp: behind_def)
  then have "set (filter (is_candidate cache visible analytics settings s) ks) = behind cache visible analytics settings s"
    by (auto simp: is_candidate_behind)
  then have "length (filter (is_candidate cache visible analytics settings s) ks) = card (behind cache visible analytics settings s)"
    using assms(3) by (metis distinct_card distinct_filter)
  then have "\<forall>i \<in> set ks. \<not> is_candidate cache visible analytics settings s' i"
    unfolding s' using assms(1-7) by (intro rounds_settle) simp_all
  then show none: "behind cache visible analytics settings s' = {}" using sub [of s'] by (auto simp: is_candidate_behind)
  note held = rounds_acked [OF assms(1-3,5,6), of visible analytics settings now, folded s']
  show "\<exists>h. acked s' i = Some h \<and> up_to_date (analytics i) settings p h \<and> (acked s i = Some h \<or> held_pos h = node_pos p)"
    if p: "cache i = Some p" "visible i"
  proof -
    obtain h where h: "acked s' i = Some h" "up_to_date (analytics i) settings p h"
      using none p by (auto simp: behind_def)
    then show ?thesis using held [of i] p by auto
  qed
  show "acked s' i = acked s i" if "\<not> visible i \<or> cache i = None" using held [of i] that by auto
qed

section \<open>Properties\<close>

text \<open>
  C34. The planner is exact and deterministic. For any client state and any iteration order of
  the cache, a plan has no duplicates, at most \<open>chunk_nodes\<close> nodes (one when that is zero), only
  visible nodes of the cache that have news for this client, all of them when they fit; it is
  empty exactly when there is no news; and it does not depend on the iteration order.
\<close>
theorem plan_exact:
  assumes "distinct ks" and "set ks = dom cache"
    and "pl = plan cache ks visible analytics settings s"
    and "news = {i \<in> dom cache. is_candidate cache visible analytics settings s i}"
  shows "distinct pl \<and> set pl \<subseteq> news
    \<and> length pl = min (max (chunk_nodes settings) 1) (card news)
    \<and> (pl = [] \<longleftrightarrow> news = {})
    \<and> (\<forall>i \<in> news. visible i)
    \<and> (\<forall>ks'. distinct ks' \<longrightarrow> set ks' = dom cache \<longrightarrow>
          plan cache ks' visible analytics settings s = pl)"
proof -
  let ?f = "filter (is_candidate cache visible analytics settings s) ks"
  have news: "set ?f = news" using assms(2,4) by auto
  then have card: "length ?f = card news" using assms(1) by (metis distinct_card distinct_filter)
  have "plan cache ks' visible analytics settings s = pl" if "distinct ks'" "set ks' = dom cache" for ks'
  proof -
    have "mset ks = mset ks'" using assms(1,2) that by (metis set_eq_iff_mset_eq_distinct)
    then show ?thesis
      unfolding assms(3) plan_eq
      using select_chunk_order [OF distinct_candidates [OF assms(1)] mset_candidates] by metis
  qed
  moreover have "\<forall>i \<in> news. visible i"
    by (auto simp: assms(4) is_candidate_def candidate_of_def split: option.splits if_splits)
  moreover have len: "length pl = min (max (chunk_nodes settings) 1) (card news)"
    using assms(3) card by (simp only: length_plan)
  moreover have "pl = [] \<longleftrightarrow> news = {}"
    unfolding length_0_conv [symmetric] len using card_0_eq [of news] by (auto simp: min_def)
  moreover have "set pl \<subseteq> news"
    using set_plan assms(2-4) by blast
  moreover have "distinct pl" unfolding assms(3) by (rule distinct_plan [OF assms(1)])
  ultimately show ?thesis by (intro conjI allI impI)
qed

theorem plan_exact_witness:
  "plan [5 \<mapsto> \<lparr>node_id = 5, node_pos = (7, 8, 9), node_vel = (0, 0, 0)\<rparr>] [5] (\<lambda>_. True)
      (\<lambda>_. (0, 0, 0, 0)) \<lparr>chunk_nodes = 1, move_threshold = 0, ack_timeout = 0\<rparr> new_stream \<noteq> []"
proof -
  let ?cache = "[5 :: u32 \<mapsto> \<lparr>node_id = 5, node_pos = (7, 8, 9), node_vel = (0, 0, 0)\<rparr>]"
    and ?st = "\<lparr>chunk_nodes = 1, move_threshold = 0, ack_timeout = 0\<rparr>"
  have "5 \<in> {i \<in> dom ?cache. is_candidate ?cache (\<lambda>_. True) (\<lambda>_. (0, 0, 0, 0)) ?st new_stream i}"
    by (simp add: is_candidate_def candidate_of_def new_stream_def)
  note mem = this
  have "distinct [5 :: u32]" "set [5] = dom ?cache" by auto
  note iff = plan_exact [OF this refl refl, of "\<lambda>_. True" "\<lambda>_. (0, 0, 0, 0)" ?st new_stream,
      THEN conjunct2, THEN conjunct2, THEN conjunct2, THEN conjunct1]
  show ?thesis unfolding iff using mem by blast
qed

text \<open>
  A reserved share prevents starvation: when chunks have room for at least four nodes, the
  candidate that has waited longest (acknowledged in the oldest chunk, or never, ties by id) is
  in the plan, however far the others moved.
\<close>
theorem longest_waiting_is_planned:
  assumes "distinct ks" and "4 \<le> chunk_nodes settings"
    and "c \<in> set (candidates cache ks visible analytics settings s)"
    and "\<forall>d \<in> set (candidates cache ks visible analytics settings s). by_age c \<le> by_age d"
  shows "cand_id c \<in> set (plan cache ks visible analytics settings s)"
proof -
  have "0 < fair_of (max (chunk_nodes settings) 1)"
    using assms(2) by (simp add: fair_of_def FAIR_SHARE_DIVISOR_def)
  then have "c \<in> set (select_chunk (max (chunk_nodes settings) 1)
      (candidates cache ks visible analytics settings s))"
    using assms(3,4) by (intro oldest_selected distinct_candidates [OF assms(1)])
  then show ?thesis by (simp add: plan_eq)
qed

theorem longest_waiting_is_planned_witness:
  "5 \<in> set (plan [5 \<mapsto> \<lparr>node_id = 5, node_pos = (0, 0, 0), node_vel = (0, 0, 0)\<rparr>] [5] (\<lambda>_. True)
      (\<lambda>_. (0, 0, 0, 0)) \<lparr>chunk_nodes = 4, move_threshold = 0, ack_timeout = 0\<rparr> new_stream)"
  using longest_waiting_is_planned [of "[5]" "\<lparr>chunk_nodes = 4, move_threshold = 0, ack_timeout = 0\<rparr>"
      "(F32_INFINITY, 0, 5)" "[5 \<mapsto> \<lparr>node_id = 5, node_pos = (0, 0, 0), node_vel = (0, 0, 0)\<rparr>]"
      "\<lambda>_. True" "\<lambda>_. (0, 0, 0, 0)" new_stream]
  by (simp add: candidates_def List.map_filter_simps candidate_of_def new_stream_def)

text \<open>
  C10. Delivery: a client that acknowledges its chunks holds, of every visible node of the cache, a
  state that is up to date (the position of the cache itself, unless what it held before was near
  enough), after as many rounds as the number of nodes it was behind on needs at \<open>chunk_nodes\<close> a
  round, from any state with nothing in flight and any positions (infinities and NaN included).
  Nothing is held of a node it may not see that was not before, and the stream is then quiet: the
  next plan is empty.
\<close>
theorem stream_delivers_then_goes_quiet:
  assumes "in_flight s = []" and "\<forall>i h. acked s i = Some h \<longrightarrow> held_seq h \<le> sq"
    and "distinct ks" and "set ks = dom cache" and "\<forall>i p. cache i = Some p \<longrightarrow> node_id p = i"
    and "unat sq + n < 2 ^ 64"
    and "card (behind cache visible analytics settings s) \<le> n * max (chunk_nodes settings) 1"
    and s': "s' = rounds cache ks visible analytics settings now n sq s"
  shows "(\<forall>i p. cache i = Some p \<longrightarrow> visible i \<longrightarrow>
        (\<exists>h. acked s' i = Some h \<and> up_to_date (analytics i) settings p h \<and> (acked s i = Some h \<or> held_pos h = node_pos p)))
    \<and> (\<forall>i. \<not> visible i \<or> cache i = None \<longrightarrow> acked s' i = acked s i)
    \<and> plan cache ks visible analytics settings s' = []"
proof -
  note held = rounds_deliver [OF assms(1-7) s']
  have "plan cache ks visible analytics settings s' = []"
    using held(1) length_plan [of cache ks visible analytics settings s'] by (simp add: is_candidate_behind)
  then show ?thesis using held(2,3) by blast
qed

theorem stream_delivers_then_goes_quiet_witness:
  "let cache = [5 \<mapsto> \<lparr>node_id = 5, node_pos = (7, 8, 9), node_vel = (0, 0, 0)\<rparr>];
       st = \<lparr>chunk_nodes = 1, move_threshold = 0, ack_timeout = 0\<rparr>;
       s' = rounds cache [5] (\<lambda>_. True) (\<lambda>_. (0, 0, 0, 0)) st 0 1 1 new_stream
   in map_option held_pos (acked s' 5) = Some (7, 8, 9) \<and> plan cache [5] (\<lambda>_. True) (\<lambda>_. (0, 0, 0, 0)) st s' = []"
proof -
  let ?cache = "[5 :: u32 \<mapsto> \<lparr>node_id = 5, node_pos = (7, 8, 9), node_vel = (0, 0, 0)\<rparr>]"
    and ?st = "\<lparr>chunk_nodes = 1, move_threshold = 0, ack_timeout = 0\<rparr>"
  have "card (behind ?cache (\<lambda>_. True) (\<lambda>_. (0, 0, 0, 0)) ?st new_stream) \<le> card {5 :: u32}"
    by (intro card_mono) (auto simp: behind_def split: if_splits)
  then have fits: "card (behind ?cache (\<lambda>_. True) (\<lambda>_. (0, 0, 0, 0)) ?st new_stream) \<le> 1 * max (chunk_nodes ?st) 1" by simp
  have start: "in_flight new_stream = []" "\<forall>i h. acked new_stream i = Some h \<longrightarrow> held_seq h \<le> 1" "acked new_stream 5 = None"
    by (simp_all add: new_stream_def)
  have cache: "distinct [5 :: u32]" "set [5] = dom ?cache" "\<forall>i p. ?cache i = Some p \<longrightarrow> node_id p = i" "unat (1 :: u64) + 1 < 2 ^ 64"
    by (auto split: if_splits)
  from stream_delivers_then_goes_quiet [OF start(1,2) cache fits refl, of 0] start(3) show ?thesis
    unfolding Let_def by fastforce
qed

text \<open>
  C35. Over any history of sent chunks, acknowledgements (late, duplicate or unknown ones included)
  and nodes forgotten before a plan, the server never believes that a client holds an older state
  of a node than one it has acknowledged: as long as the node is not forgotten it stays
  acknowledged, at that state or a later one, and when it was forgotten and came back, while the
  numbers of the chunks increase, what is acknowledged anew is no older. At most eight chunks are
  in flight, and the wait is at most eight times the acknowledgement timeout.
\<close>
theorem acknowledged_state_never_regresses:
  "(\<forall>i h. acked (fold stream_step ops new_stream) i = Some h \<longrightarrow>
        ((\<forall>keep. Retained keep \<in> set ops' \<longrightarrow> keep i) \<longrightarrow>
           (\<exists>h'. acked (fold stream_step ops' (fold stream_step ops new_stream)) i = Some h' \<and> held_seq h \<le> held_seq h'))
      \<and> (sorted_wrt (<) (sent_seqs (ops @ ops')) \<longrightarrow>
           (\<forall>h'. acked (fold stream_step ops' (fold stream_step ops new_stream)) i = Some h' \<longrightarrow> held_seq h \<le> held_seq h')))
   \<and> length (in_flight (fold stream_step ops new_stream)) \<le> 8
   \<and> effective_timeout d (fold stream_step ops new_stream) \<le> 8 * d"
proof (intro conjI allI impI)
  let ?s = "fold stream_step ops new_stream"
  fix i h assume h: "acked ?s i = Some h"
  show "\<exists>h'. acked (fold stream_step ops' ?s) i = Some h' \<and> held_seq h \<le> held_seq h'"
    if "\<forall>keep. Retained keep \<in> set ops' \<longrightarrow> keep i"
    using that
  proof (induction ops' rule: rev_induct)
    case (snoc x xs)
    then obtain h' where h': "acked (fold stream_step xs ?s) i = Some h'" "held_seq h \<le> held_seq h'" by auto
    have "\<exists>h''. acked (stream_step x (fold stream_step xs ?s)) i = Some h'' \<and> held_seq h' \<le> held_seq h''"
      using snoc.prems by (intro acked_step_mono [OF h'(1)]) simp
    then show ?case using h'(2) by (auto intro: order_trans)
  qed (use h in simp)
  show "held_seq h \<le> held_seq h'"
    if inc: "sorted_wrt (<) (sent_seqs (ops @ ops'))" and h': "acked (fold stream_step ops' ?s) i = Some h'" for h'
  proof -
    have "all_before (sent_seqs ops) ?s" using inc by (intro all_before_history) (simp add: sent_seqs_append sorted_wrt_append)
    then have "later_than (held_seq h) i ?s" "held_seq h \<in> set (sent_seqs ops)"
      using h by (auto simp: all_before_def later_than_def)
    moreover from this(2) have "\<forall>sq \<in> set (sent_seqs ops'). held_seq h < sq" using inc by (simp add: sent_seqs_append sorted_wrt_append)
    ultimately have "later_than (held_seq h) i (fold stream_step ops' ?s)" using later_than_history [of "held_seq h" i ?s ops'] by blast
    then show ?thesis using h' by (simp add: later_than_def)
  qed
next
  show "length (in_flight (fold stream_step ops new_stream)) \<le> 8"
    using stream.history_inv [of ops] by (simp add: stream_inv_def IN_FLIGHT_HISTORY_def)
next
  let ?c = "consecutive_timeouts (fold stream_step ops new_stream)"
  have "min ?c MAX_BACKOFF_DOUBLINGS \<le> 3" by (simp add: MAX_BACKOFF_DOUBLINGS_def)
  then have "unat (min ?c MAX_BACKOFF_DOUBLINGS) \<le> 3" by (simp add: word_le_nat_alt)
  then have "2 ^ unat (min ?c MAX_BACKOFF_DOUBLINGS) \<le> (2 :: nat) ^ 3"
    by (rule power_increasing) simp
  then show "effective_timeout d (fold stream_step ops new_stream) \<le> 8 * d"
    by (simp add: effective_timeout_def)
qed

theorem acknowledged_state_never_regresses_witness:
  "\<exists>h'. acked (fold stream_step [Acked 3, Retained (\<lambda>i. i = 5), Acked 9]
      (fold stream_step [Sent 7 0 [\<lparr>node_id = 5, node_pos = (0, 0, 0), node_vel = (0, 0, 0)\<rparr>]
         (\<lambda>_. (0, 0, 0, 0)), Acked 7] new_stream)) 5 = Some h' \<and> 7 \<le> held_seq h'"
proof -
  let ?ops = "[Sent 7 0 [\<lparr>node_id = 5, node_pos = (0, 0, 0), node_vel = (0, 0, 0)\<rparr>] (\<lambda>_. (0, 0, 0, 0)), Acked 7]"
  have "acked (fold stream_step ?ops new_stream) 5
      = Some \<lparr>held_pos = (0, 0, 0), held_key = (0, 0, 0, 0), held_seq = 7\<rparr>"
    by (simp add: record_sent_def acknowledge_def new_stream_def IN_FLIGHT_HISTORY_def Let_def)
  then show ?thesis
    using acknowledged_state_never_regresses [of ?ops "[Acked 3, Retained (\<lambda>i. i = 5), Acked 9]" 0] by fastforce
qed

end
