(* ===== verification/Client_Manager.thy ===== *)
theory Client_Manager
  imports Position_Stream
begin

text \<open>
  \<open>src/actors/client_coordinator_actor.rs\<close> with the visibility rules it applies
  (\<open>crates/visionclaw-domain/src/utils/visibility_filter.rs\<close>): the connected clients, the pump
  that sends each its next chunk of positions, agent-action fan-out, congestion and eviction.
  The actor around it is theory \<open>Coordinator\<close>.

  A client's mailbox belongs to the actor library: the outcome of a non-blocking send is the
  parameter \<open>ts\<close> (\<open>try_send\<close>, by client and message), and what was accepted is recorded in
  \<open>delivered\<close>. Hash tables are finite maps and the order in which a table yields its keys is
  an argument. \<open>usize\<close> counters of connections are naturals.
\<close>

section \<open>Who may see a node\<close>

record node_visibility =
  vis_wire_id :: u32
  vis_public :: bool
  vis_owner :: "string option"

definition parse_visibility_flag :: "string option \<Rightarrow> bool" where
  "parse_visibility_flag raw =
     (case raw of
        Some v \<Rightarrow> to_ascii_lowercase (trim v) \<notin> set [''0'', ''false'', ''off'', ''no'']
      | None \<Rightarrow> True)"

definition public_node :: "u32 \<Rightarrow> node_visibility" where
  "public_node i = \<lparr>vis_wire_id = i, vis_public = True, vis_owner = None\<rparr>"

definition private_owned_by :: "u32 \<Rightarrow> string \<Rightarrow> node_visibility" where
  "private_owned_by i k = \<lparr>vis_wire_id = i, vis_public = False, vis_owner = Some k\<rparr>"

definition private_unowned :: "u32 \<Rightarrow> node_visibility" where
  "private_unowned i = \<lparr>vis_wire_id = i, vis_public = False, vis_owner = None\<rparr>"

text \<open>The projection of a graph node takes the two parts of the node it reads.\<close>

definition visibility_of_node :: "u32 \<Rightarrow> (string \<rightharpoonup> string) \<Rightarrow> node_visibility" where
  "visibility_of_node i metadata =
     (let is_public = (case metadata ''public'' of
                         None \<Rightarrow> False
                       | Some v \<Rightarrow> to_ascii_lowercase v = ''true'')
      in \<lparr>vis_wire_id = i, vis_public = is_public,
          vis_owner = (if is_public then None else metadata ''owner_pubkey'')\<rparr>)"

definition is_dropped_for :: "string option \<Rightarrow> node_visibility \<Rightarrow> bool" where
  "is_dropped_for session v =
     (if vis_public v then False
      else case (session, vis_owner v) of
             (Some caller, Some owner) \<Rightarrow> caller \<noteq> owner
           | _ \<Rightarrow> True)"

definition is_visible_to :: "string option \<Rightarrow> node_visibility \<Rightarrow> bool" where
  "is_visible_to session v = (\<not> is_dropped_for session v)"

definition compute_private_opaque_ids :: "node_visibility list \<Rightarrow> string option \<Rightarrow> u32 set" where
  "compute_private_opaque_ids nodes session =
     set (map vis_wire_id (filter (is_dropped_for session) nodes))"

record node_type_arrays =
  knowledge_ids :: "u32 list"
  agent_ids :: "u32 list"
  ontology_class_ids :: "u32 list"
  ontology_individual_ids :: "u32 list"
  ontology_property_ids :: "u32 list"
  private_nodes :: "node_visibility list"
  loaded :: bool

definition default_arrays :: node_type_arrays where
  "default_arrays = \<lparr>knowledge_ids = [], agent_ids = [], ontology_class_ids = [],
     ontology_individual_ids = [], ontology_property_ids = [], private_nodes = [], loaded = False\<rparr>"

section \<open>Clients\<close>

type_synonym f64 = u64

datatype filter_mode = FilterAnd | FilterOr

record client_filter =
  filter_enabled :: bool
  quality_threshold :: f64
  authority_threshold :: f64
  filter_by_quality :: bool
  filter_by_authority :: bool
  filter_mode :: filter_mode
  max_nodes :: "nat option"
  filtered_node_ids :: "u32 set"
  include_linked_pages :: bool
  server_remove :: bool

text \<open>The thresholds 0.4 and 0.5 as their 64-bit patterns.\<close>

definition default_filter :: client_filter where
  "default_filter = \<lparr>filter_enabled = False, quality_threshold = 0x3FD999999999999A,
     authority_threshold = 0x3FE0000000000000, filter_by_quality = True, filter_by_authority = False,
     filter_mode = FilterOr, max_nodes = None, filtered_node_ids = {}, include_linked_pages = False,
     server_remove = False\<rparr>"

definition filter_mode_from_str :: "string \<Rightarrow> string + filter_mode" where
  "filter_mode_from_str s =
     (let l = to_ascii_lowercase s
      in if l = ''and'' then Ok FilterAnd else if l = ''or'' then Ok FilterOr else Err s)"

text \<open>
  Of the recipients of a client the model keeps the stall timeout; the mailboxes are the
  parameter \<open>ts\<close>. The per-user settings override is never read or written here.
\<close>

record client_state =
  client_id :: nat
  stall_timeout :: duration
  connected_at :: instant
  last_update :: instant
  pubkey :: "string option"
  is_power_user :: bool
  client_filter :: client_filter
  ephemeral_session :: bool
  congested_since :: "instant option"
  stream :: client_stream

record client_manager =
  clients :: "nat \<rightharpoonup> client_state"
  next_id :: nat
  total_connections :: nat
  active_connections :: nat

definition new_manager :: client_manager where
  "new_manager = \<lparr>clients = Map.empty, next_id = 1, total_connections = 0, active_connections = 0\<rparr>"

definition client_count :: "client_manager \<Rightarrow> nat" where
  "client_count m = card (dom (clients m))"

definition register_client :: "duration \<Rightarrow> instant \<Rightarrow> client_manager \<Rightarrow> nat \<times> client_manager" where
  "register_client stall now m =
     (let i = next_id m;
          c = \<lparr>client_id = i, stall_timeout = stall, connected_at = now, last_update = now, pubkey = None,
               is_power_user = False, client_filter = default_filter, ephemeral_session = False,
               congested_since = None, stream = new_stream\<rparr>;
          m1 = m\<lparr>next_id := i + 1, clients := (clients m)(i \<mapsto> c),
                 total_connections := total_connections m + 1\<rparr>
      in (i, m1\<lparr>active_connections := client_count m1\<rparr>))"

definition unregister_client :: "nat \<Rightarrow> client_manager \<Rightarrow> bool \<times> client_manager" where
  "unregister_client i m =
     (case clients m i of
        None \<Rightarrow> (False, m)
      | Some _ \<Rightarrow>
          (let m1 = m\<lparr>clients := (clients m)(i := None)\<rparr>
           in (True, m1\<lparr>active_connections := client_count m1\<rparr>)))"

definition with_client :: "nat \<Rightarrow> (client_state \<Rightarrow> client_state) \<Rightarrow> client_manager \<Rightarrow> client_manager" where
  "with_client i f m =
     (case clients m i of None \<Rightarrow> m | Some c \<Rightarrow> m\<lparr>clients := (clients m)(i \<mapsto> f c)\<rparr>)"

definition update_client_timestamp :: "nat \<Rightarrow> instant \<Rightarrow> client_manager \<Rightarrow> client_manager" where
  "update_client_timestamp i now m = with_client i (last_update_update (\<lambda>_. now)) m"

section \<open>Delivery, congestion and eviction\<close>

datatype send_outcome = SendOk | SendFull | SendClosed

type_synonym try_send = "nat \<Rightarrow> bytes \<Rightarrow> send_outcome"

record broadcast_result =
  sent :: nat
  sent_bytes :: nat
  congested_clients :: "nat list"
  closed_clients :: "nat list"
  delivered :: "(nat \<times> bytes) list"

definition empty_result :: broadcast_result where
  "empty_result = \<lparr>sent = 0, sent_bytes = 0, congested_clients = [], closed_clients = [], delivered = []\<rparr>"

definition deliver_binary :: "try_send \<Rightarrow> nat \<Rightarrow> bytes \<Rightarrow> broadcast_result \<Rightarrow> broadcast_result" where
  "deliver_binary ts i data r =
     (case ts i data of
        SendOk \<Rightarrow> r\<lparr>sent := sent r + 1, sent_bytes := sent_bytes r + length data,
                    delivered := delivered r @ [(i, data)]\<rparr>
      | SendFull \<Rightarrow> r\<lparr>congested_clients := congested_clients r @ [i]\<rparr>
      | SendClosed \<Rightarrow> r\<lparr>closed_clients := closed_clients r @ [i]\<rparr>)"

definition record_congestion :: "broadcast_result \<Rightarrow> instant \<Rightarrow> client_manager \<Rightarrow> client_manager" where
  "record_congestion r now m =
     m\<lparr>clients := (\<lambda>i. map_option
         (\<lambda>c. if i \<in> set (congested_clients r)
              then c\<lparr>congested_since := (case congested_since c of None \<Rightarrow> Some now | s \<Rightarrow> s)\<rparr>
              else c\<lparr>congested_since := None\<rparr>) (clients m i))\<rparr>"

definition is_stalled :: "instant \<Rightarrow> client_state \<Rightarrow> bool" where
  "is_stalled now c =
     (case congested_since c of None \<Rightarrow> False | Some since \<Rightarrow> nat (now - since) \<ge> stall_timeout c)"

definition evict_stalled :: "instant \<Rightarrow> nat list \<Rightarrow> client_manager \<Rightarrow> nat list \<times> client_manager" where
  "evict_stalled now order m =
     (let stalled = filter (\<lambda>i. case clients m i of None \<Rightarrow> False | Some c \<Rightarrow> is_stalled now c) order;
          m1 = m\<lparr>clients := (\<lambda>i. if i \<in> set stalled then None else clients m i)\<rparr>
      in (stalled, m1\<lparr>active_connections := client_count m1\<rparr>))"

definition settle_broadcast_result :: "broadcast_result \<Rightarrow> instant \<Rightarrow> nat list \<Rightarrow> client_manager \<Rightarrow> client_manager" where
  "settle_broadcast_result r now order m =
     fold (\<lambda>i m. snd (unregister_client i m)) (closed_clients r)
       (snd (evict_stalled now order (record_congestion r now m)))"

definition broadcast_to_all :: "try_send \<Rightarrow> bytes \<Rightarrow> nat list \<Rightarrow> client_manager \<Rightarrow> broadcast_result" where
  "broadcast_to_all ts data order m =
     fold (\<lambda>i r. case clients m i of None \<Rightarrow> r | Some _ \<Rightarrow> deliver_binary ts i data r) order empty_result"

text \<open>The relay to a user's other sessions; the result lists the sessions that accepted the text.\<close>

definition relay_text_to_pubkey ::
  "(nat \<Rightarrow> string \<Rightarrow> bool) \<Rightarrow> string \<Rightarrow> nat option \<Rightarrow> string \<Rightarrow> nat list \<Rightarrow> client_manager \<Rightarrow> nat list" where
  "relay_text_to_pubkey text_ok key exclude msg order m =
     (if key = [] then []
      else filter (\<lambda>i. case clients m i of
                         None \<Rightarrow> False
                       | Some c \<Rightarrow> \<not> (Some i = exclude \<or> pubkey c \<noteq> Some key) \<and> text_ok i msg) order)"

section \<open>The pump\<close>

record pump_context =
  pc_cache :: "u32 \<rightharpoonup> binary_node_data"
  pc_keys :: "u32 list"
  pc_nta :: node_type_arrays
  pc_settings :: stream_settings
  pc_analytics :: "(u32 \<rightharpoonup> node_analytics) option"
  pc_now :: instant

definition class_ids_of :: "node_type_arrays \<Rightarrow> node_class_ids" where
  "class_ids_of nta = \<lparr>agent = agent_ids nta, knowledge = knowledge_ids nta,
     ontology_class = ontology_class_ids nta, ontology_individual = ontology_individual_ids nta,
     ontology_property = ontology_property_ids nta\<rparr>"

definition serialize_positions ::
  "binary_node_data list \<Rightarrow> node_type_arrays \<Rightarrow> u64 \<Rightarrow> (u32 \<rightharpoonup> node_analytics) option \<Rightarrow> bytes" where
  "serialize_positions positions nta broadcast_sequence analytics_data =
     (let nodes = map (\<lambda>pos. (node_id pos, pos)) positions;
          encoded = encode_node_data_extended_with_sssp nodes (class_ids_of nta) None analytics_data
      in 5 # u64_le broadcast_sequence @ (if length encoded > 1 then drop 1 encoded else []))"

definition analytics_key_of :: "pump_context \<Rightarrow> u32 \<Rightarrow> analytics_key" where
  "analytics_key_of cx i =
     (case lookup_opt (pc_analytics cx) i of
        None \<Rightarrow> (0, 0, 0, 0)
      | Some a \<Rightarrow> (an_cluster_id a, an_community_id a, an_anomaly a, an_centrality a))"

definition client_sees :: "client_filter \<Rightarrow> u32 set option \<Rightarrow> u32 \<Rightarrow> bool" where
  "client_sees f hidden i =
     ((\<not> filter_enabled f \<or> i \<in> filtered_node_ids f)
      \<and> (case hidden of None \<Rightarrow> True | Some h \<Rightarrow> i \<notin> h))"

text \<open>
  The drop set of an identity is computed once per pump and kept in a table; an identity that
  is not in the table yet is added.
\<close>

definition hidden_for ::
  "node_type_arrays \<Rightarrow> bool \<Rightarrow> string option \<Rightarrow> (string option \<rightharpoonup> u32 set)
     \<Rightarrow> u32 set option \<times> (string option \<rightharpoonup> u32 set)" where
  "hidden_for nta policy_on key drop_sets =
     (if policy_on \<and> private_nodes nta \<noteq> []
      then case drop_sets key of
             Some h \<Rightarrow> (Some h, drop_sets)
           | None \<Rightarrow> (let h = compute_private_opaque_ids (private_nodes nta) key
                      in (Some h, drop_sets(key \<mapsto> h)))
      else (None, drop_sets))"

record pump_state =
  pm_manager :: client_manager
  pm_seq :: u64
  pm_drop_sets :: "string option \<rightharpoonup> u32 set"
  pm_result :: broadcast_result

definition pump_one :: "try_send \<Rightarrow> pump_context \<Rightarrow> bool \<Rightarrow> nat \<Rightarrow> pump_state \<Rightarrow> pump_state" where
  "pump_one ts cx policy_on i st =
     (case clients (pm_manager st) i of
        None \<Rightarrow> st
      | Some client \<Rightarrow>
          if is_waiting (pc_now cx) (ack_timeout (pc_settings cx)) (stream client) then st
          else
            let (hidden, drops) = hidden_for (pc_nta cx) policy_on (pubkey client) (pm_drop_sets st);
                visible = client_sees (client_filter client) hidden;
                akey = analytics_key_of cx;
                s1 = retain_nodes (\<lambda>n. pc_cache cx n \<noteq> None \<and> visible n) (stream client);
                ids = plan (pc_cache cx) (pc_keys cx) visible akey (pc_settings cx) s1;
                st1 = st\<lparr>pm_drop_sets := drops,
                         pm_manager := with_client i (stream_update (\<lambda>_. s1)) (pm_manager st)\<rparr>
            in if ids = [] then st1
               else let chunk = List.map_filter (pc_cache cx) ids;
                        sq = pm_seq st + 1;
                        frame = serialize_positions chunk (pc_nta cx) sq (pc_analytics cx);
                        r = deliver_binary ts i frame (pm_result st);
                        st2 = st1\<lparr>pm_seq := sq, pm_result := r\<rparr>
                    in if sent r > sent (pm_result st)
                       then st2\<lparr>pm_manager := with_client i
                              (stream_update (\<lambda>s. record_sent sq (pc_now cx) chunk akey s)) (pm_manager st2)\<rparr>
                       else st2)"

definition pump_all ::
  "try_send \<Rightarrow> pump_context \<Rightarrow> bool \<Rightarrow> nat list \<Rightarrow> client_manager \<Rightarrow> u64 \<Rightarrow> pump_state" where
  "pump_all ts cx policy_on order m seq =
     (let st = \<lparr>pm_manager = m, pm_seq = seq, pm_drop_sets = Map.empty, pm_result = empty_result\<rparr>
      in if pc_keys cx = [] \<or> order = [] then st
         else if policy_on \<and> \<not> loaded (pc_nta cx) then st
         else fold (pump_one ts cx policy_on) order st)"

definition pump_client ::
  "try_send \<Rightarrow> pump_context \<Rightarrow> bool \<Rightarrow> nat \<Rightarrow> client_manager \<Rightarrow> u64 \<Rightarrow> pump_state" where
  "pump_client ts cx policy_on i m seq =
     (let st = \<lparr>pm_manager = m, pm_seq = seq, pm_drop_sets = Map.empty, pm_result = empty_result\<rparr>
      in if pc_keys cx = [] then st
         else if policy_on \<and> \<not> loaded (pc_nta cx) then st
         else pump_one ts cx policy_on i st)"

definition manager_acknowledge :: "nat \<Rightarrow> u64 \<Rightarrow> client_manager \<Rightarrow> nat option \<times> client_manager" where
  "manager_acknowledge i sq m =
     (case clients m i of
        None \<Rightarrow> (None, m)
      | Some c \<Rightarrow> (let (n, s) = acknowledge sq (stream c)
                   in (n, m\<lparr>clients := (clients m)(i \<mapsto> c\<lparr>stream := s\<rparr>)\<rparr>)))"

section \<open>Agent actions\<close>

definition frame_for ::
  "action_event list \<Rightarrow> node_type_arrays \<Rightarrow> bool \<Rightarrow> string option \<Rightarrow> bytes option" where
  "frame_for events nta entitlement_on key =
     (let hidden = (if entitlement_on then Some (compute_private_opaque_ids (private_nodes nta) key) else None);
          kept = filter (\<lambda>e. case hidden of None \<Rightarrow> True | Some h \<Rightarrow> target_node_id e \<notin> h) events
      in if kept = [] then None else Some (encode_agent_actions kept))"

definition action_client ::
  "try_send \<Rightarrow> action_event list \<Rightarrow> node_type_arrays \<Rightarrow> bool \<Rightarrow> client_manager \<Rightarrow> nat
     \<Rightarrow> (string option \<rightharpoonup> bytes option) \<times> broadcast_result
     \<Rightarrow> (string option \<rightharpoonup> bytes option) \<times> broadcast_result" where
  "action_client ts events nta entitlement_on m i fr =
     (case clients m i of
        None \<Rightarrow> fr
      | Some client \<Rightarrow>
          let (frames, r) = fr;
              (frame, frames1) =
                (case frames (pubkey client) of
                   Some f \<Rightarrow> (f, frames)
                 | None \<Rightarrow> (let f = frame_for events nta entitlement_on (pubkey client)
                            in (f, frames(pubkey client \<mapsto> f))))
          in (frames1, case frame of None \<Rightarrow> r | Some data \<Rightarrow> deliver_binary ts i data r))"

definition broadcast_agent_actions ::
  "try_send \<Rightarrow> action_event list \<Rightarrow> node_type_arrays \<Rightarrow> bool \<Rightarrow> nat list \<Rightarrow> client_manager \<Rightarrow> broadcast_result" where
  "broadcast_agent_actions ts events nta policy_on order m =
     (if events = [] \<or> (policy_on \<and> \<not> loaded nta) then empty_result
      else snd (fold (action_client ts events nta (policy_on \<and> private_nodes nta \<noteq> []) m) order
                  (Map.empty, empty_result)))"

section \<open>The frame a pump sends\<close>

lemma lookup_opt_None [simp]: "lookup_opt None k = None"
  by (simp add: lookup_opt_def)

lemma serialize_eq_v5_frame:
  "serialize_positions ps nta sq an =
     v5_frame sq (map (\<lambda>p. to_wire_format_with_data p (flagged_id (class_ids_of nta) (node_id p)) None
                (lookup_opt an (node_id p AND NODE_ID_MASK))) ps)"
  by (simp add: serialize_positions_def encode_eq_v3_frame v3_frame_def v5_frame_def comp_def Let_def
      PROTOCOL_V5_def)

lemma decode_v5_frame:
  assumes "length rs \<le> MAX_NODE_COUNT"
  shows "decode_node_data (v5_frame sq rs) = Ok (map (decode_chunk \<circ> to_bytes) rs)"
proof -
  have "decode_node_data (v5_frame sq rs) = decode_node_data_v3 (concat (map to_bytes rs))"
    using assms by (simp add: decode_node_data_def v5_frame_def limit_consts wire_consts WIRE_V5_SEQ_SIZE_def)
  with decode_body [OF assms] show ?thesis by simp
qed

definition compact_cache :: "(u32 \<rightharpoonup> binary_node_data) \<Rightarrow> bool" where
  "compact_cache cache \<longleftrightarrow> (\<forall>i p. cache i = Some p \<longrightarrow> node_id p = i \<and> i AND NODE_ID_MASK = i)"

lemma decode_serialized:
  assumes "length ps \<le> MAX_NODE_COUNT" and "\<forall>p \<in> set ps. node_id p AND NODE_ID_MASK = node_id p"
  shows "decode_node_data (serialize_positions ps nta sq an) = Ok (map (\<lambda>p. (node_id p, p)) ps)"
  using assms actual_of_flagged_id [unfolded get_actual_node_id_def]
  by (simp add: serialize_eq_v5_frame decode_v5_frame decode_chunk_to_bytes to_wire_format_with_data_def
      to_wire_id_v2_def Let_def comp_def)

lemma sequence_of_serialized: "v5_sequence_of (serialize_positions ps nta sq an) = Some sq"
  by (simp add: serialize_eq_v5_frame v5_sequence_of_def v5_frame_def wire_consts)

section \<open>Entitlement\<close>

definition memo_ok :: "node_type_arrays \<Rightarrow> (string option \<rightharpoonup> u32 set) \<Rightarrow> bool" where
  "memo_ok nta drops \<longleftrightarrow> (\<forall>k h. drops k = Some h \<longrightarrow> h = compute_private_opaque_ids (private_nodes nta) k)"

definition hidden_of :: "node_type_arrays \<Rightarrow> bool \<Rightarrow> string option \<Rightarrow> u32 set option" where
  "hidden_of nta policy_on key =
     (if policy_on \<and> private_nodes nta \<noteq> [] then Some (compute_private_opaque_ids (private_nodes nta) key) else None)"

lemma hidden_for_memo:
  "memo_ok nta drops \<Longrightarrow>
     fst (hidden_for nta policy_on key drops) = hidden_of nta policy_on key
     \<and> memo_ok nta (snd (hidden_for nta policy_on key drops))"
  by (auto simp: hidden_for_def hidden_of_def memo_ok_def Let_def split: option.splits)

lemma client_sees_entitled:
  "client_sees f (hidden_of nta True key) n \<Longrightarrow> v \<in> set (private_nodes nta) \<Longrightarrow> vis_wire_id v = n
     \<Longrightarrow> is_visible_to key v"
  by (auto simp: client_sees_def hidden_of_def compute_private_opaque_ids_def is_visible_to_def
      split: if_splits)

section \<open>What one pump does, without the table of drop sets\<close>

definition pump_visible :: "pump_context \<Rightarrow> bool \<Rightarrow> client_state \<Rightarrow> u32 \<Rightarrow> bool" where
  "pump_visible cx policy_on c = client_sees (client_filter c) (hidden_of (pc_nta cx) policy_on (pubkey c))"

definition retained_stream :: "pump_context \<Rightarrow> bool \<Rightarrow> client_state \<Rightarrow> client_stream" where
  "retained_stream cx policy_on c =
     retain_nodes (\<lambda>n. pc_cache cx n \<noteq> None \<and> pump_visible cx policy_on c n) (stream c)"

text \<open>The nodes a client is due (none while it is waiting), the frame and the stream afterwards.\<close>

definition due_ids :: "pump_context \<Rightarrow> bool \<Rightarrow> client_state \<Rightarrow> u32 list" where
  "due_ids cx policy_on c =
     (if is_waiting (pc_now cx) (ack_timeout (pc_settings cx)) (stream c) then []
      else plan (pc_cache cx) (pc_keys cx) (pump_visible cx policy_on c) (analytics_key_of cx)
             (pc_settings cx) (retained_stream cx policy_on c))"

abbreviation due_chunk :: "pump_context \<Rightarrow> bool \<Rightarrow> client_state \<Rightarrow> binary_node_data list" where
  "due_chunk cx policy_on c \<equiv> List.map_filter (pc_cache cx) (due_ids cx policy_on c)"

definition due_frame :: "pump_context \<Rightarrow> bool \<Rightarrow> u64 \<Rightarrow> client_state \<Rightarrow> bytes" where
  "due_frame cx policy_on sq c =
     serialize_positions (due_chunk cx policy_on c) (pc_nta cx) sq (pc_analytics cx)"

definition pumped_stream :: "pump_context \<Rightarrow> bool \<Rightarrow> bool \<Rightarrow> u64 \<Rightarrow> client_state \<Rightarrow> client_stream" where
  "pumped_stream cx policy_on accepted sq c =
     (if is_waiting (pc_now cx) (ack_timeout (pc_settings cx)) (stream c) then stream c
      else if due_ids cx policy_on c \<noteq> [] \<and> accepted
      then record_sent sq (pc_now cx) (due_chunk cx policy_on c) (analytics_key_of cx)
             (retained_stream cx policy_on c)
      else retained_stream cx policy_on c)"

lemma sent_deliver: "sent (deliver_binary ts i d r) > sent r \<longleftrightarrow> ts i d = SendOk"
  by (simp add: deliver_binary_def split: send_outcome.split)

lemma with_client_same: "clients m i = Some c \<Longrightarrow> with_client i (\<lambda>c'. c'\<lparr>stream := stream c\<rparr>) m = m"
  by (auto simp: with_client_def intro!: client_manager.equality)

lemma pump_one_none: "clients (pm_manager st) i = None \<Longrightarrow> pump_one ts cx policy_on i st = st"
  by (simp add: pump_one_def)

lemma pump_one_spec:
  assumes "memo_ok (pc_nta cx) (pm_drop_sets st)" and "clients (pm_manager st) i = Some c"
    and "st' = pump_one ts cx policy_on i st" and "sq = pm_seq st + 1"
  shows "memo_ok (pc_nta cx) (pm_drop_sets st')
    \<and> pm_manager st' = with_client i (\<lambda>c'. c'\<lparr>stream := pumped_stream cx policy_on
         (ts i (due_frame cx policy_on sq c) = SendOk) sq c\<rparr>) (pm_manager st)
    \<and> pm_seq st' = (if due_ids cx policy_on c = [] then pm_seq st else sq)
    \<and> pm_result st' = (if due_ids cx policy_on c = [] then pm_result st
                       else deliver_binary ts i (due_frame cx policy_on sq c) (pm_result st))"
proof (cases "is_waiting (pc_now cx) (ack_timeout (pc_settings cx)) (stream c)")
  case True
  then have "st' = st" using assms by (simp add: pump_one_def)
  then show ?thesis using True assms(1,2)
    by (simp add: due_ids_def pumped_stream_def with_client_same)
next
  case False
  obtain h d where hd: "hidden_for (pc_nta cx) policy_on (pubkey c) (pm_drop_sets st) = (h, d)"
    by (cases "hidden_for (pc_nta cx) policy_on (pubkey c) (pm_drop_sets st)")
  then have h: "h = hidden_of (pc_nta cx) policy_on (pubkey c)" and d: "memo_ok (pc_nta cx) d"
    using hidden_for_memo [OF assms(1), of policy_on "pubkey c"] by simp_all
  show ?thesis
    using False assms(2) d
    unfolding assms(3,4) pump_one_def due_ids_def due_frame_def pumped_stream_def
      retained_stream_def pump_visible_def
    by (simp add: hd h sent_deliver with_client_def Let_def comp_def)
qed

section \<open>A frame shows only what its client may see\<close>

definition shows_only :: "pump_context \<Rightarrow> bool \<Rightarrow> client_state \<Rightarrow> bytes \<Rightarrow> bool" where
  "shows_only cx policy_on c f \<longleftrightarrow>
     (\<exists>nodes. decode_node_data f = Ok nodes \<and> nodes \<noteq> []
        \<and> (\<forall>(n, p) \<in> set nodes. pc_cache cx n = Some p \<and> pump_visible cx policy_on c n))"

lemma due_chunk_props:
  assumes "compact_cache (pc_cache cx)"
  shows "map node_id (due_chunk cx policy_on c) = due_ids cx policy_on c
    \<and> (\<forall>p \<in> set (due_chunk cx policy_on c). pc_cache cx (node_id p) = Some p
         \<and> pump_visible cx policy_on c (node_id p) \<and> node_id p AND NODE_ID_MASK = node_id p)
    \<and> length (due_chunk cx policy_on c) \<le> max (chunk_nodes (pc_settings cx)) 1"
proof -
  have "is_candidate (pc_cache cx) (pump_visible cx policy_on c) (analytics_key_of cx) (pc_settings cx)
      (retained_stream cx policy_on c) i" if "i \<in> set (due_ids cx policy_on c)" for i
    using that set_plan by (fastforce simp: due_ids_def split: if_splits)
  then have ids: "\<forall>i \<in> set (due_ids cx policy_on c). pc_cache cx i \<noteq> None \<and> pump_visible cx policy_on c i"
    by (fastforce simp: is_candidate_def candidate_of_def split: option.splits if_splits)
  note mf = map_filter_all [of "due_ids cx policy_on c" "pc_cache cx"]
  have m: "map node_id (due_chunk cx policy_on c) = due_ids cx policy_on c"
    and p: "\<forall>p \<in> set (due_chunk cx policy_on c). pc_cache cx (node_id p) = Some p"
    using mf ids assms by (simp_all add: compact_cache_def)
  have "length (due_chunk cx policy_on c) = length (due_ids cx policy_on c)"
    using m by (metis length_map)
  also have "\<dots> \<le> max (chunk_nodes (pc_settings cx)) 1" by (simp add: due_ids_def length_plan)
  finally have l: "length (due_chunk cx policy_on c) \<le> max (chunk_nodes (pc_settings cx)) 1" .
  have "\<forall>p \<in> set (due_chunk cx policy_on c). node_id p \<in> set (due_ids cx policy_on c)"
    using m by (metis image_eqI list.set_map)
  then show ?thesis using m p l ids assms by (auto simp: compact_cache_def)
qed

lemma due_frame_decodes:
  assumes "compact_cache (pc_cache cx)" and "chunk_nodes (pc_settings cx) \<le> MAX_NODE_COUNT"
  shows "decode_node_data (due_frame cx policy_on sq c) = Ok (map (\<lambda>p. (node_id p, p)) (due_chunk cx policy_on c))"
  unfolding due_frame_def using due_chunk_props [OF assms(1), of policy_on c] assms(2)
  by (intro decode_serialized) (auto simp: limit_consts)

lemma due_frame_shows:
  assumes "compact_cache (pc_cache cx)" and "chunk_nodes (pc_settings cx) \<le> MAX_NODE_COUNT"
    and "due_ids cx policy_on c \<noteq> []"
  shows "shows_only cx policy_on c (due_frame cx policy_on sq c)"
proof -
  have "due_chunk cx policy_on c \<noteq> []" using due_chunk_props [OF assms(1), of policy_on c] assms(3) by force
  then show ?thesis
    unfolding shows_only_def due_frame_decodes [OF assms(1,2)]
    using due_chunk_props [OF assms(1), of policy_on c] by auto
qed

text \<open>A pump changes nothing of a client but its stream.\<close>

definition same_clients :: "client_manager \<Rightarrow> client_manager \<Rightarrow> bool" where
  "same_clients m m' \<longleftrightarrow>
     (\<forall>i. map_option (stream_update (\<lambda>_. new_stream)) (clients m i)
        = map_option (stream_update (\<lambda>_. new_stream)) (clients m' i))
     \<and> next_id m = next_id m' \<and> total_connections m = total_connections m'
     \<and> active_connections m = active_connections m'"

lemma same_clients_refl [simp]: "same_clients m m"
  by (simp add: same_clients_def)

lemma same_clients_with_stream: "same_clients m m' \<Longrightarrow> same_clients m (with_client i (\<lambda>c. c\<lparr>stream := g c\<rparr>) m')"
  by (auto simp: same_clients_def with_client_def split: option.splits)

lemma same_clients_Some:
  assumes "same_clients m m'" and "clients m' i = Some c'"
  shows "\<exists>c. clients m i = Some c \<and> pubkey c = pubkey c' \<and> client_filter c = client_filter c'"
proof -
  have "map_option (stream_update (\<lambda>_. new_stream)) (clients m i) = Some (c'\<lparr>stream := new_stream\<rparr>)"
    using assms by (simp add: same_clients_def)
  then obtain c where c: "clients m i = Some c" "c\<lparr>stream := new_stream\<rparr> = c'\<lparr>stream := new_stream\<rparr>" by auto
  then have "pubkey (c\<lparr>stream := new_stream\<rparr>) = pubkey (c'\<lparr>stream := new_stream\<rparr>)"
    "client_filter (c\<lparr>stream := new_stream\<rparr>) = client_filter (c'\<lparr>stream := new_stream\<rparr>)"
    by (simp_all only: c(2))
  then show ?thesis using c(1) by simp
qed

lemma shows_only_cong:
  "pubkey c = pubkey c' \<Longrightarrow> client_filter c = client_filter c' \<Longrightarrow>
     shows_only cx policy_on c f = shows_only cx policy_on c' f"
  by (simp add: shows_only_def pump_visible_def)

lemma delivered_deliver:
  "x \<in> set (delivered (deliver_binary ts i d r)) \<Longrightarrow> x = (i, d) \<or> x \<in> set (delivered r)"
  by (auto simp: deliver_binary_def split: send_outcome.splits)

definition pump_ok :: "pump_context \<Rightarrow> bool \<Rightarrow> client_manager \<Rightarrow> pump_state \<Rightarrow> bool" where
  "pump_ok cx policy_on m st \<longleftrightarrow>
     memo_ok (pc_nta cx) (pm_drop_sets st) \<and> same_clients m (pm_manager st)
     \<and> (\<forall>(i, f) \<in> set (delivered (pm_result st)). \<exists>c. clients m i = Some c \<and> shows_only cx policy_on c f)"

lemma pump_one_ok:
  assumes "compact_cache (pc_cache cx)" and "chunk_nodes (pc_settings cx) \<le> MAX_NODE_COUNT"
    and "pump_ok cx policy_on m st"
  shows "pump_ok cx policy_on m (pump_one ts cx policy_on i st)"
proof (cases "clients (pm_manager st) i")
  case None
  then show ?thesis using assms(3) by (simp add: pump_one_none)
next
  case (Some c)
  note spec = pump_one_spec [OF _ Some refl refl, of cx ts policy_on]
  obtain c0 where c0: "clients m i = Some c0" "pubkey c0 = pubkey c" "client_filter c0 = client_filter c"
    using same_clients_Some [of m "pm_manager st" i c] assms(3) Some by (auto simp: pump_ok_def)
  have "shows_only cx policy_on c0 (due_frame cx policy_on sq c)" if "due_ids cx policy_on c \<noteq> []" for sq
    using due_frame_shows [OF assms(1,2) that] shows_only_cong [OF c0(2,3)] by blast
  then show ?thesis
    using spec assms(3) c0(1)
    unfolding pump_ok_def by (auto simp: same_clients_with_stream dest!: delivered_deliver)
qed

lemma pump_fold_ok:
  assumes "compact_cache (pc_cache cx)" and "chunk_nodes (pc_settings cx) \<le> MAX_NODE_COUNT"
    and "pump_ok cx policy_on m st"
  shows "pump_ok cx policy_on m (fold (pump_one ts cx policy_on) order st)"
  using assms(3) by (induction order arbitrary: st) (simp_all add: pump_one_ok [OF assms(1,2)])

definition initial_pump :: "client_manager \<Rightarrow> u64 \<Rightarrow> pump_state" where
  "initial_pump m seq = \<lparr>pm_manager = m, pm_seq = seq, pm_drop_sets = Map.empty, pm_result = empty_result\<rparr>"

lemma initial_pump_ok [simp]: "pump_ok cx policy_on m (initial_pump m seq)"
  by (simp add: pump_ok_def initial_pump_def memo_ok_def empty_result_def)

lemma pump_all_eq:
  "pump_all ts cx policy_on order m seq =
     (if pc_keys cx = [] \<or> order = [] \<or> policy_on \<and> \<not> loaded (pc_nta cx) then initial_pump m seq
      else fold (pump_one ts cx policy_on) order (initial_pump m seq))"
  by (auto simp: pump_all_def initial_pump_def Let_def)

lemma pump_client_eq:
  "pump_client ts cx policy_on i m seq =
     (if pc_keys cx = [] \<or> policy_on \<and> \<not> loaded (pc_nta cx) then initial_pump m seq
      else pump_one ts cx policy_on i (initial_pump m seq))"
  by (auto simp: pump_client_def initial_pump_def Let_def)

section \<open>Nodes that a client may not see do not influence its stream\<close>

lemma serialize_cong:
  assumes "\<forall>p \<in> set ps. lookup_opt an (node_id p AND NODE_ID_MASK) = lookup_opt an' (node_id p AND NODE_ID_MASK)"
  shows "serialize_positions ps nta sq an = serialize_positions ps nta sq an'"
  unfolding serialize_eq_v5_frame using assms by (intro arg_cong [where f = "v5_frame sq"] map_cong) simp_all

lemma map_filter_cong_on: "\<forall>i \<in> set ids. f i = g i \<Longrightarrow> List.map_filter f ids = List.map_filter g ids"
  by (induction ids) (auto simp: List.map_filter_simps split: option.split)

lemma record_sent_cong:
  "\<forall>p \<in> set ps. ak (node_id p) = ak' (node_id p) \<Longrightarrow> record_sent sq now ps ak s = record_sent sq now ps ak' s"
  by (simp add: record_sent_def Let_def cong: map_cong)

definition agree_for :: "pump_context \<Rightarrow> pump_context \<Rightarrow> (u32 \<Rightarrow> bool) \<Rightarrow> bool" where
  "agree_for cx cx' visible \<longleftrightarrow>
     pc_nta cx' = pc_nta cx \<and> pc_settings cx' = pc_settings cx \<and> pc_now cx' = pc_now cx
     \<and> (\<forall>n. visible n \<longrightarrow> pc_cache cx n = pc_cache cx' n
             \<and> lookup_opt (pc_analytics cx) n = lookup_opt (pc_analytics cx') n)"

definition enumerates :: "'a list \<Rightarrow> ('a \<rightharpoonup> 'b) \<Rightarrow> bool" where
  "enumerates ks m \<longleftrightarrow> distinct ks \<and> set ks = dom m"

lemma agree_due:
  assumes "agree_for cx cx' (pump_visible cx policy_on c)" and "compact_cache (pc_cache cx)"
    and "enumerates (pc_keys cx) (pc_cache cx)" and "enumerates (pc_keys cx') (pc_cache cx')"
  shows "retained_stream cx' policy_on c = retained_stream cx policy_on c
    \<and> due_ids cx' policy_on c = due_ids cx policy_on c
    \<and> due_frame cx' policy_on sq c = due_frame cx policy_on sq c
    \<and> pumped_stream cx' policy_on acc sq c = pumped_stream cx policy_on acc sq c"
proof -
  let ?v = "pump_visible cx policy_on c"
  have v: "pump_visible cx' policy_on c = ?v" using assms(1) by (simp add: agree_for_def pump_visible_def)
  have vis: "?v n \<Longrightarrow> pc_cache cx' n = pc_cache cx n \<and> analytics_key_of cx' n = analytics_key_of cx n
      \<and> lookup_opt (pc_analytics cx') n = lookup_opt (pc_analytics cx) n" for n
    using assms(1) by (simp add: agree_for_def analytics_key_of_def)
  have r: "retained_stream cx' policy_on c = retained_stream cx policy_on c"
    unfolding retained_stream_def retain_nodes_def v using vis by (auto intro!: client_stream.equality ext)
  have "plan (pc_cache cx') (pc_keys cx') ?v (analytics_key_of cx') st s
      = plan (pc_cache cx) (pc_keys cx) ?v (analytics_key_of cx) st s" for st s
    using assms(3,4) vis by (intro plan_hides) (auto simp: enumerates_def)
  then have ids: "due_ids cx' policy_on c = due_ids cx policy_on c"
    using assms(1) by (simp add: due_ids_def v r agree_for_def)
  note dc = due_chunk_props [OF assms(2), of policy_on c]
  have "\<forall>i \<in> set (due_ids cx policy_on c). ?v i" using dc by (metis (no_types, lifting) imageE list.set_map)
  then have ch: "List.map_filter (pc_cache cx') (due_ids cx policy_on c) = due_chunk cx policy_on c"
    using vis by (intro map_filter_cong_on) simp
  have "due_frame cx' policy_on sq c = due_frame cx policy_on sq c"
    unfolding due_frame_def ids ch using assms(1) dc vis
    by (subst serialize_cong [of _ "pc_analytics cx'" "pc_analytics cx"]) (simp_all add: agree_for_def)
  moreover have "pumped_stream cx' policy_on acc sq c = pumped_stream cx policy_on acc sq c"
    unfolding pumped_stream_def r ids ch using assms(1) dc vis
    by (subst record_sent_cong [of _ "analytics_key_of cx'" "analytics_key_of cx"]) (simp_all add: agree_for_def)
  ultimately show ?thesis using r ids by simp
qed

section \<open>An acknowledged chunk is what was sent\<close>

definition stream_below :: "u64 \<Rightarrow> client_stream \<Rightarrow> bool" where
  "stream_below seq s \<longleftrightarrow> (\<forall>f \<in> set (in_flight s). chunk_seq f \<le> seq)
     \<and> (\<forall>i h. acked s i = Some h \<longrightarrow> held_seq h \<le> seq)"

lemma record_sent_fields:
  "in_flight (record_sent sq now ps ak s) =
     (if length (in_flight s) \<ge> IN_FLIGHT_HISTORY then tl (in_flight s) else in_flight s)
       @ [\<lparr>chunk_seq = sq, chunk_sent_at = now,
           chunk_held = map (\<lambda>p. (node_id p, \<lparr>held_pos = node_pos p, held_key = ak (node_id p), held_seq = sq\<rparr>)) ps\<rparr>]"
  "acked (record_sent sq now ps ak s) = acked s"
  by (auto simp: record_sent_def Let_def)

lemma set_tl_subset: "set (tl xs) \<subseteq> set xs"
  by (cases xs) auto

lemma acknowledge_last_sent:
  assumes "stream_below seq s" and "unat seq + 1 < 2 ^ 64"
    and "distinct (map node_id ps)" and "p \<in> set ps"
    and "s' = snd (acknowledge (seq + 1) (record_sent (seq + 1) now ps ak s))"
  shows "acked s' (node_id p) = Some \<lparr>held_pos = node_pos p, held_key = ak (node_id p), held_seq = seq + 1\<rparr>
    \<and> fst (acknowledge (seq + 1) (record_sent (seq + 1) now ps ak s)) = Some (length ps)"
proof -
  let ?h = "\<lambda>p. (node_id p, \<lparr>held_pos = node_pos p, held_key = ak (node_id p), held_seq = seq + 1\<rparr>)"
  let ?f = "\<lparr>chunk_seq = seq + 1, chunk_sent_at = now, chunk_held = map ?h ps\<rparr>"
  have lt: "seq < seq + 1" using assms(2) by (simp add: word_less_nat_alt unat_word_ariths)
  obtain fs where fs: "in_flight (record_sent (seq + 1) now ps ak s) = fs @ [?f]"
    "set fs \<subseteq> set (in_flight s)" "acked (record_sent (seq + 1) now ps ak s) = acked s"
    by (rule that [OF record_sent_fields(1)]) (use set_tl_subset [of "in_flight s"] in \<open>auto simp: record_sent_fields\<close>)
  have "chunk_seq ?f \<notin> chunk_seq ` set fs" using fs(2) assms(1) lt by (force simp: stream_below_def not_le [symmetric])
  then have rem: "remove_chunk (seq + 1) (fs @ [?f]) = Some (?f, fs)" using remove_chunk_last [of ?f fs] by simp
  have d: "distinct (map fst (map ?h ps))" using assms(3) by (simp add: comp_def)
  have "settle (map ?h ps) (acked s) = acked s ++ map_of (map ?h ps)"
    using assms(1) lt d by (intro settle_older) (fastforce simp: stream_below_def)+
  moreover have "map_of (map ?h ps) (node_id p) = Some (snd (?h p))"
    using d assms(4) by (intro map_of_is_SomeI) auto
  ultimately show ?thesis using rem fs assms(5) by (simp add: acknowledge_def)
qed

section \<open>Congestion runs\<close>

text \<open>When the current unbroken run of broadcasts that found the client's mailbox full began.\<close>

definition run_start :: "nat \<Rightarrow> (broadcast_result \<times> instant) list \<Rightarrow> instant option" where
  "run_start i rs =
     (let run = takeWhile (\<lambda>(r, t). i \<in> set (congested_clients r)) (rev rs)
      in if run = [] then None else Some (snd (last run)))"

lemma congestion_run:
  assumes "clients m i = Some c" and "congested_since c = None"
  shows "clients (fold (\<lambda>(r, t). record_congestion r t) rs m) i = Some (c\<lparr>congested_since := run_start i rs\<rparr>)"
proof (induction rs rule: rev_induct)
  case Nil
  then show ?case using assms by (simp add: run_start_def)
next
  case (snoc x xs)
  obtain r t where x: "x = (r, t)" by (cases x)
  show ?case
    using snoc unfolding x
    by (simp add: record_congestion_def run_start_def Let_def last_rev split: option.split)
qed

section \<open>Agent actions without the table of frames\<close>

abbreviation entitled_events :: "node_type_arrays \<Rightarrow> string option \<Rightarrow> action_event list \<Rightarrow> action_event list" where
  "entitled_events nta key events \<equiv>
     filter (\<lambda>e. \<forall>v \<in> set (private_nodes nta). vis_wire_id v = target_node_id e \<longrightarrow> is_visible_to key v) events"

lemma frame_for_eq:
  "frame_for events nta (policy_on \<and> private_nodes nta \<noteq> []) key =
     (let es = if policy_on then entitled_events nta key events else events
      in if es = [] then None else Some (encode_agent_actions es))"
proof -
  have "filter (\<lambda>e. target_node_id e \<notin> compute_private_opaque_ids (private_nodes nta) key) events
      = entitled_events nta key events"
    by (intro filter_cong) (auto simp: compute_private_opaque_ids_def is_visible_to_def image_iff)
  moreover have "entitled_events nta key events = events" if "private_nodes nta = []" using that by simp
  ultimately show ?thesis by (auto simp: frame_for_def Let_def)
qed

definition frames_ok :: "action_event list \<Rightarrow> node_type_arrays \<Rightarrow> bool \<Rightarrow> (string option \<rightharpoonup> bytes option) \<Rightarrow> bool" where
  "frames_ok events nta entitlement_on frames \<longleftrightarrow>
     (\<forall>k f. frames k = Some f \<longrightarrow> f = frame_for events nta entitlement_on k)"

definition action_delivery ::
  "try_send \<Rightarrow> action_event list \<Rightarrow> node_type_arrays \<Rightarrow> bool \<Rightarrow> client_manager \<Rightarrow> nat \<Rightarrow> (nat \<times> bytes) option" where
  "action_delivery ts events nta entitlement_on m i =
     (case clients m i of
        None \<Rightarrow> None
      | Some c \<Rightarrow> (case frame_for events nta entitlement_on (pubkey c) of
                     None \<Rightarrow> None
                   | Some f \<Rightarrow> if ts i f = SendOk then Some (i, f) else None))"

lemma action_client_step:
  assumes "frames_ok events nta entitlement_on (fst fr)"
  shows "frames_ok events nta entitlement_on (fst (action_client ts events nta entitlement_on m i fr))
    \<and> delivered (snd (action_client ts events nta entitlement_on m i fr))
        = delivered (snd fr) @ (case action_delivery ts events nta entitlement_on m i of None \<Rightarrow> [] | Some d \<Rightarrow> [d])"
  using assms
  by (cases fr) (auto simp: action_client_def action_delivery_def frames_ok_def deliver_binary_def Let_def
      split: option.splits send_outcome.splits)

lemma action_fold:
  assumes "frames_ok events nta entitlement_on (fst fr)"
  shows "delivered (snd (fold (action_client ts events nta entitlement_on m) order fr))
    = delivered (snd fr) @ List.map_filter (action_delivery ts events nta entitlement_on m) order"
  using assms
proof (induction order arbitrary: fr)
  case (Cons i order)
  then show ?case using action_client_step [OF Cons.prems, of ts m i]
    by (simp add: List.map_filter_simps split: option.split)
qed (simp add: List.map_filter_simps)

section \<open>A session for the witnesses\<close>

text \<open>Client 1 holds the key of the owner of the private node 5; every send is accepted.\<close>

definition example_nta :: node_type_arrays where
  "example_nta = default_arrays\<lparr>private_nodes := [private_owned_by 5 ''k''], loaded := True\<rparr>"

definition example_node :: binary_node_data where
  "example_node = \<lparr>node_id = 5, node_pos = (7, 8, 9), node_vel = (0, 0, 0)\<rparr>"

definition example_context :: pump_context where
  "example_context = \<lparr>pc_cache = [5 \<mapsto> example_node], pc_keys = [5], pc_nta = example_nta,
     pc_settings = \<lparr>chunk_nodes = 4, move_threshold = 0, ack_timeout = 10\<rparr>, pc_analytics = None, pc_now = 0\<rparr>"

definition example_manager :: client_manager where
  "example_manager = with_client 1 (pubkey_update (\<lambda>_. Some ''k'')) (snd (register_client 5 0 new_manager))"

lemmas example_defs = example_context_def example_manager_def example_nta_def example_node_def
  with_client_def register_client_def new_manager_def default_arrays_def private_owned_by_def

lemmas pump_eval = initial_pump_def pump_one_def hidden_for_def compute_private_opaque_ids_def
  is_dropped_for_def is_waiting_def new_stream_def client_sees_def default_filter_def retain_nodes_def
  plan_def candidates_def candidate_of_def select_chunk_def List.map_filter_simps
  deliver_binary_def empty_result_def

lemma example_cache [simp]:
  "compact_cache (pc_cache example_context)" "chunk_nodes (pc_settings example_context) \<le> MAX_NODE_COUNT"
  "enumerates (pc_keys example_context) (pc_cache example_context)" "pc_keys example_context \<noteq> []"
  by (auto simp: compact_cache_def example_context_def example_node_def NODE_ID_MASK_def limit_consts
      enumerates_def split: if_splits)

lemma example_client:
  "\<exists>c. clients example_manager 1 = Some c \<and> stream c = new_stream \<and> pubkey c = Some ''k''
     \<and> congested_since c = None \<and> stall_timeout c = 5 \<and> client_filter c = default_filter"
  by (simp add: example_defs Let_def)

lemma example_pump:
  "delivered (pm_result (pump_all (\<lambda>_ _. SendOk) example_context True [1] example_manager 0))
     = [(1, serialize_positions [example_node] example_nta 1 None)]"
  "delivered (pm_result (pump_client (\<lambda>_ _. SendOk) example_context True 1 example_manager 0))
     = [(1, serialize_positions [example_node] example_nta 1 None)]"
  by (simp_all add: example_defs pump_eval pump_all_eq pump_client_eq Let_def)

section \<open>Properties\<close>

text \<open>
  C1. A private node is never streamed to someone who may not see it. With the visibility
  filter on, every frame that a pump hands to a client is for a registered client, is accepted
  by the decoder, and carries only nodes of the cache, at their cached positions, that are not
  private or are owned by that client's key; nothing at all is sent before a classification has
  been loaded. The table of drop sets that the pump shares between clients changes nothing.
\<close>
theorem private_nodes_never_streamed:
  assumes "compact_cache (pc_cache cx)" and "chunk_nodes (pc_settings cx) \<le> MAX_NODE_COUNT"
    and "st = pump_all ts cx True order m seq" and "(i, frame) \<in> set (delivered (pm_result st))"
  shows "loaded (pc_nta cx) \<and> (\<exists>c nodes. clients m i = Some c \<and> decode_node_data frame = Ok nodes \<and> nodes \<noteq> []
    \<and> (\<forall>(n, p) \<in> set nodes. pc_cache cx n = Some p
         \<and> (\<forall>v \<in> set (private_nodes (pc_nta cx)). vis_wire_id v = n \<longrightarrow> is_visible_to (pubkey c) v)))"
proof -
  have ok: "pump_ok cx True m st"
    unfolding assms(3) pump_all_eq using pump_fold_ok [OF assms(1,2) initial_pump_ok] by simp
  then obtain c where c: "clients m i = Some c" "shows_only cx True c frame"
    using assms(4) by (fastforce simp: pump_ok_def)
  have "loaded (pc_nta cx)"
    using assms(3,4) by (cases "loaded (pc_nta cx)") (simp_all add: pump_all_eq initial_pump_def empty_result_def)
  then show ?thesis
    using c client_sees_entitled unfolding shows_only_def pump_visible_def by blast
qed

theorem private_nodes_never_streamed_witness:
  "\<exists>nodes. decode_node_data (serialize_positions [example_node] example_nta 1 None) = Ok nodes \<and> nodes \<noteq> []"
proof -
  have "(1, serialize_positions [example_node] example_nta 1 None) \<in> set (delivered (pm_result
      (pump_all (\<lambda>_ _. SendOk) example_context True [1] example_manager 0)))"
    unfolding example_pump by simp
  from private_nodes_never_streamed [OF example_cache(1,2) refl this] show ?thesis by blast
qed

text \<open>
  C22. Nodes that a client may not see have no influence on it: two states of the graph that agree,
  in positions and analytics, on the nodes visible to a client give the same pump for it, with the
  same frames byte for byte, the same sequence numbers and the same stream afterwards, whatever
  the positions of the hidden nodes are and whether they exist.
\<close>
theorem hidden_nodes_do_not_influence_a_client:
  assumes "clients m i = Some c" and "agree_for cx cx' (pump_visible cx policy_on c)"
    and "compact_cache (pc_cache cx)" and "enumerates (pc_keys cx) (pc_cache cx)"
    and "enumerates (pc_keys cx') (pc_cache cx')" and "pc_keys cx \<noteq> []" and "pc_keys cx' \<noteq> []"
    and "st = pump_client ts cx policy_on i m seq" and "st' = pump_client ts cx' policy_on i m seq"
  shows "pm_result st' = pm_result st \<and> pm_seq st' = pm_seq st \<and> pm_manager st' = pm_manager st"
proof -
  have nta: "pc_nta cx' = pc_nta cx" using assms(2) by (simp add: agree_for_def)
  have c: "clients (pm_manager (initial_pump m seq)) i = Some c"
    and memo: "memo_ok nta (pm_drop_sets (initial_pump m seq))" for nta
    using assms(1) by (simp_all add: initial_pump_def memo_ok_def)
  note spec = pump_one_spec [OF memo c refl refl, of _ ts policy_on]
  show ?thesis
    unfolding assms(8,9) pump_client_eq using spec [of cx] spec [of cx'] agree_due [OF assms(2-5)]
    by (simp add: assms(6,7) nta)
qed

theorem hidden_nodes_do_not_influence_a_client_witness:
  "let cx = example_context\<lparr>pc_nta := example_nta\<lparr>private_nodes := [private_owned_by 5 ''k'', private_unowned 6]\<rparr>\<rparr>;
       cx' = cx\<lparr>pc_cache := [5 \<mapsto> example_node, 6 \<mapsto> example_node\<lparr>node_id := 6\<rparr>], pc_keys := [6, 5]\<rparr>
   in pm_result (pump_client (\<lambda>_ _. SendOk) cx' True 1 example_manager 0)
      = pm_result (pump_client (\<lambda>_ _. SendOk) cx True 1 example_manager 0)"
proof -
  obtain c where c: "clients example_manager 1 = Some c" "pubkey c = Some ''k''" "client_filter c = default_filter"
    using example_client by blast
  let ?nta = "example_nta\<lparr>private_nodes := [private_owned_by 5 ''k'', private_unowned 6]\<rparr>"
  let ?cx = "example_context\<lparr>pc_nta := ?nta\<rparr>"
  let ?cx' = "?cx\<lparr>pc_cache := [5 \<mapsto> example_node, 6 \<mapsto> example_node\<lparr>node_id := 6\<rparr>], pc_keys := [6, 5]\<rparr>"
  have agree: "agree_for ?cx ?cx' (pump_visible ?cx True c)"
    using c by (auto simp: agree_for_def pump_visible_def hidden_of_def client_sees_def default_filter_def
        compute_private_opaque_ids_def is_dropped_for_def private_owned_by_def private_unowned_def example_context_def)
  have "compact_cache (pc_cache ?cx)" "enumerates (pc_keys ?cx) (pc_cache ?cx)"
    "enumerates (pc_keys ?cx') (pc_cache ?cx')" "pc_keys ?cx \<noteq> []" "pc_keys ?cx' \<noteq> []"
    using example_cache by (auto simp: enumerates_def)
  from hidden_nodes_do_not_influence_a_client [OF c(1) agree this refl refl, of "\<lambda>_ _. SendOk" 0]
  show ?thesis unfolding Let_def by (rule conjunct1)
qed

text \<open>
  C23. The server's belief is what the client decoded: when a chunk was sent to a client and the
  client acknowledges the sequence number it read from that frame, the server takes every node
  that the frame decodes to as held at exactly the decoded position, from that sequence number on.
\<close>
theorem acknowledged_is_what_was_decoded:
  assumes "compact_cache (pc_cache cx)" and "chunk_nodes (pc_settings cx) \<le> MAX_NODE_COUNT"
    and "distinct (pc_keys cx)" and "clients m i = Some c" and "stream_below seq (stream c)"
    and "unat seq + 1 < 2 ^ 64"
    and "st = pump_client ts cx policy_on i m seq" and "delivered (pm_result st) = [(i, frame)]"
    and "v5_sequence_of frame = Some q" and "decode_node_data frame = Ok nodes"
    and "m' = snd (manager_acknowledge i q (pm_manager st))"
  shows "fst (manager_acknowledge i q (pm_manager st)) = Some (length nodes)
    \<and> (\<exists>c'. clients m' i = Some c' \<and> (\<forall>(n, p) \<in> set nodes.
          \<exists>h. acked (stream c') n = Some h \<and> held_pos h = node_pos p \<and> held_seq h = q))"
proof -
  let ?f = "due_frame cx policy_on (seq + 1) c" and ?ch = "due_chunk cx policy_on c"
  let ?r = "retained_stream cx policy_on c"
  have c: "clients (pm_manager (initial_pump m seq)) i = Some c"
    and memo: "memo_ok nta (pm_drop_sets (initial_pump m seq))" for nta
    using assms(4) by (simp_all add: initial_pump_def memo_ok_def)
  note spec = pump_one_spec [OF memo c refl refl, of cx ts policy_on]
  have st: "st = pump_one ts cx policy_on i (initial_pump m seq)"
    using assms(7,8) by (auto simp: pump_client_eq initial_pump_def empty_result_def split: if_splits)
  have due: "due_ids cx policy_on c \<noteq> []"
    using assms(8) spec unfolding st by (auto simp: initial_pump_def empty_result_def)
  then have ok: "ts i ?f = SendOk" and frame: "frame = ?f"
    using assms(8) spec unfolding st
    by (auto simp: initial_pump_def empty_result_def deliver_binary_def split: send_outcome.splits)
  have q: "q = seq + 1" using assms(9) frame by (simp add: due_frame_def sequence_of_serialized)
  have nodes: "nodes = map (\<lambda>p. (node_id p, p)) ?ch"
    using assms(10) due_frame_decodes [OF assms(1,2)] by (simp add: frame)
  have "\<not> is_waiting (pc_now cx) (ack_timeout (pc_settings cx)) (stream c)"
    using due by (auto simp: due_ids_def)
  then have man: "clients (pm_manager st) i =
      Some (c\<lparr>stream := record_sent (seq + 1) (pc_now cx) ?ch (analytics_key_of cx) ?r\<rparr>)"
    using spec due ok assms(4) unfolding st
    by (simp add: initial_pump_def pumped_stream_def with_client_def)
  have below: "stream_below seq ?r"
    using assms(5) by (auto simp: stream_below_def retained_stream_def retain_nodes_def split: if_splits)
  have dist: "distinct (map node_id ?ch)"
    using due_chunk_props [OF assms(1), of policy_on c] distinct_plan [OF assms(3)]
    by (simp add: due_ids_def)
  note ack = acknowledge_last_sent [OF below assms(6) dist _ refl, of _ "pc_now cx" "analytics_key_of cx"]
  have "?ch \<noteq> []" using due_chunk_props [OF assms(1), of policy_on c] due by force
  then obtain p0 where "p0 \<in> set ?ch" by (meson last_in_set)
  with ack man show ?thesis
    unfolding assms(11) q nodes by (auto simp: manager_acknowledge_def split: prod.splits)
qed

theorem acknowledged_is_what_was_decoded_witness:
  "fst (manager_acknowledge 1 1 (pm_manager (pump_client (\<lambda>_ _. SendOk) example_context True 1 example_manager 0)))
     = Some 1"
proof -
  obtain c where c: "clients example_manager 1 = Some c" "stream c = new_stream" using example_client by blast
  have below: "stream_below 0 (stream c)" by (simp add: c(2) stream_below_def new_stream_def)
  have dec: "decode_node_data (serialize_positions [example_node] example_nta 1 None) = Ok [(5, example_node)]"
    by (subst decode_serialized) (simp_all add: limit_consts example_node_def NODE_ID_MASK_def)
  have "distinct (pc_keys example_context)" using example_cache(3) by (simp add: enumerates_def)
  from acknowledged_is_what_was_decoded [OF example_cache(1,2) this c(1) below _ refl example_pump(2)
      sequence_of_serialized dec refl]
  show ?thesis by simp
qed

text \<open>
  A client is evicted exactly when its mailbox has been full in every broadcast of an unbroken
  run that began at least its stall timeout ago: one broadcast that does not report it as full
  starts the run again, and nobody else is evicted.
\<close>
theorem evicted_exactly_when_stalled:
  assumes "clients m i = Some c" and "congested_since c = None" and "enumerates order (clients m)"
    and "m' = fold (\<lambda>(r, t). record_congestion r t) rs m"
  shows "(i \<in> set (fst (evict_stalled now order m')) \<longleftrightarrow>
            (\<exists>t. run_start i rs = Some t \<and> stall_timeout c \<le> nat (now - t)))
    \<and> (clients (snd (evict_stalled now order m')) i = None \<longleftrightarrow> i \<in> set (fst (evict_stalled now order m')))"
  using congestion_run [OF assms(1,2), of rs] assms(1,3,4)
  by (auto simp: evict_stalled_def is_stalled_def enumerates_def Let_def split: option.splits)

theorem evicted_exactly_when_stalled_witness:
  "let full = empty_result\<lparr>congested_clients := [1]\<rparr>;
       m' = fold (\<lambda>(r, t). record_congestion r t) [(full, 3), (empty_result, 4), (full, 6), (full, 9)] example_manager
   in 1 \<in> set (fst (evict_stalled 11 [1] m')) \<and> 1 \<notin> set (fst (evict_stalled 10 [1] m'))"
proof -
  obtain c where c: "clients example_manager 1 = Some c" "congested_since c = None" "stall_timeout c = 5"
    using example_client by blast
  have "enumerates [1] (clients example_manager)" by (auto simp: enumerates_def example_defs Let_def)
  note ev = evicted_exactly_when_stalled [OF c(1,2) this refl, THEN conjunct1]
  show ?thesis
    unfolding Let_def ev by (simp add: Let_def c(3) run_start_def empty_result_def)
qed

text \<open>
  Agent actions reach exactly the clients that may see their target. With the visibility
  filter on and loaded, each client whose mailbox accepts it gets one batch with exactly the
  events whose target is not private or is owned by its key, in order, and no batch when there
  are none; before the classification is loaded nothing is sent.
\<close>
theorem agent_actions_reach_the_entitled:
  "delivered (broadcast_agent_actions ts events nta True order m) =
     (if \<not> loaded nta then []
      else List.map_filter (\<lambda>i. case clients m i of
             None \<Rightarrow> None
           | Some c \<Rightarrow>
               (let es = filter (\<lambda>e. \<forall>v \<in> set (private_nodes nta).
                          vis_wire_id v = target_node_id e \<longrightarrow> is_visible_to (pubkey c) v) events
                in if es = [] \<or> ts i (encode_agent_actions es) \<noteq> SendOk then None
                   else Some (i, encode_agent_actions es))) order)"
proof -
  let ?e = "True \<and> private_nodes nta \<noteq> []"
  have ad: "action_delivery ts events nta ?e m = (\<lambda>i. case clients m i of None \<Rightarrow> None
      | Some c \<Rightarrow> (let es = entitled_events nta (pubkey c) events
                   in if es = [] \<or> ts i (encode_agent_actions es) \<noteq> SendOk then None
                      else Some (i, encode_agent_actions es)))"
    unfolding action_delivery_def frame_for_eq by (auto simp: Let_def split: option.splits)
  have "action_delivery ts [] nta ?e m i = None" for i
    by (simp add: action_delivery_def frame_for_def split: option.split)
  then have "List.map_filter (action_delivery ts [] nta ?e m) order = []"
    by (induction order) (simp_all add: List.map_filter_simps)
  moreover have "delivered (snd (fold (action_client ts events nta ?e m) order (Map.empty, empty_result)))
      = List.map_filter (action_delivery ts events nta ?e m) order"
    by (subst action_fold) (simp_all add: frames_ok_def empty_result_def)
  ultimately show ?thesis
    unfolding broadcast_agent_actions_def ad [symmetric] by (auto simp: empty_result_def)
qed

theorem agent_actions_reach_the_entitled_witness:
  "delivered (broadcast_agent_actions (\<lambda>_ _. SendOk) [plain_event 1 5 3, plain_event 1 9 3]
      (example_nta\<lparr>private_nodes := [private_unowned 5]\<rparr>) True [1] example_manager)
     = [(1, encode_agent_actions [plain_event 1 9 3])]"
  unfolding agent_actions_reach_the_entitled
  by (simp add: example_defs private_unowned_def is_visible_to_def is_dropped_for_def plain_event_def
      List.map_filter_simps Let_def)

end
