(* ===== verification/Pathfinding.thy ===== *)
theory Pathfinding
  imports Float32 "HOL-Library.Monad_Syntax"
begin

text \<open>
  \<open>src/services/pathfinding.rs\<close>: the one CPU implementation of single-source shortest paths. Of
  \<open>GraphData\<close> the code reads the node ids and the end points and weights of the edges. Distances
  are \<open>f32\<close> sums, rounded at every edge. A \<open>BinaryHeap\<close> promises only that \<open>pop\<close> removes a greatest
  element, so which of several it removes is the parameter \<open>pick\<close> on the list of its entries. The
  loops are partial functions into \<open>option\<close>; they are shown to return.
\<close>

section \<open>The algorithm\<close>

record graph_edge =
  edge_source :: u32
  edge_target :: u32
  edge_weight_f :: f32

record graph_data =
  graph_node_ids :: "u32 list"
  graph_edges :: "graph_edge list"

record heap_entry =
  entry_node :: u32
  f_score :: f32
  g_score :: f32

text \<open>
  \<open>Ord\<close> for entries is reversed, so a greatest entry has no other below it in \<open>f_score\<close>. Among
  scores with a NaN the comparison is no order, and any entry may be removed.
\<close>

definition pops_greatest :: "(heap_entry list \<Rightarrow> heap_entry) \<Rightarrow> bool" where
  "pops_greatest pick = (\<forall>h. h \<noteq> [] \<longrightarrow> pick h \<in> set h
     \<and> ((\<forall>e \<in> set h. \<not> f32_is_nan (f_score e)) \<longrightarrow> (\<forall>e \<in> set h. \<not> f32_lt (f_score e) (f_score (pick h)))))"

record shortest_paths =
  sp_source :: u32
  distances :: "u32 \<rightharpoonup> f32"
  predecessors :: "u32 \<rightharpoonup> u32"

record dijkstra_state =
  sp :: shortest_paths
  best :: "u32 \<rightharpoonup> f32"
  heap :: "heap_entry list"

type_synonym weighted_adjacency = "u32 \<Rightarrow> (u32 \<times> f32) list"

definition push_neighbour :: "u32 \<Rightarrow> u32 \<times> f32 \<Rightarrow> weighted_adjacency \<Rightarrow> weighted_adjacency" where
  "push_neighbour u vw adj = adj(u := adj u @ [vw])"

definition add_edge :: "u32 list \<Rightarrow> graph_edge \<Rightarrow> weighted_adjacency \<Rightarrow> weighted_adjacency" where
  "add_edge ids e adj =
     (if edge_source e \<notin> set ids \<or> edge_target e \<notin> set ids then adj
      else let adj1 = push_neighbour (edge_source e) (edge_target e, edge_weight_f e) adj
           in if edge_source e \<noteq> edge_target e
              then push_neighbour (edge_target e) (edge_source e, edge_weight_f e) adj1 else adj1)"

definition path_adjacency :: "graph_data \<Rightarrow> weighted_adjacency" where
  "path_adjacency g = fold (add_edge (graph_node_ids g)) (graph_edges g) (\<lambda>_. [])"

definition relax :: "u32 \<Rightarrow> f32 \<Rightarrow> u32 \<times> f32 \<Rightarrow> dijkstra_state \<Rightarrow> dijkstra_state" where
  "relax u d vw st =
     (let (v, w) = vw; nd = f32_add d w
      in if distances (sp st) v = None \<and> (case best st v of None \<Rightarrow> True | Some b \<Rightarrow> f32_lt nd b)
         then st\<lparr>best := (best st)(v \<mapsto> nd), sp := (sp st)\<lparr>predecessors := (predecessors (sp st))(v \<mapsto> u)\<rparr>,
                 heap := \<lparr>entry_node = v, f_score = nd, g_score = nd\<rparr> # heap st\<rparr>
         else st)"

definition settle_next :: "(heap_entry list \<Rightarrow> heap_entry) \<Rightarrow> weighted_adjacency \<Rightarrow> dijkstra_state \<Rightarrow> dijkstra_state" where
  "settle_next pick adj st =
     (let e = pick (heap st); u = entry_node e; d = g_score e; st1 = st\<lparr>heap := remove1 e (heap st)\<rparr>
      in if distances (sp st) u \<noteq> None then st1
         else fold (relax u d) (adj u) (st1\<lparr>sp := (sp st)\<lparr>distances := (distances (sp st))(u \<mapsto> d)\<rparr>\<rparr>))"

partial_function (option) dijkstra_loop ::
    "(heap_entry list \<Rightarrow> heap_entry) \<Rightarrow> weighted_adjacency \<Rightarrow> dijkstra_state \<Rightarrow> dijkstra_state option" where
  "dijkstra_loop pick adj st = (if heap st = [] then Some st else dijkstra_loop pick adj (settle_next pick adj st))"

definition dijkstra_start :: "u32 \<Rightarrow> dijkstra_state" where
  "dijkstra_start s = \<lparr>sp = \<lparr>sp_source = s, distances = Map.empty, predecessors = Map.empty\<rparr>, best = [s \<mapsto> 0],
     heap = [\<lparr>entry_node = s, f_score = 0, g_score = 0\<rparr>]\<rparr>"

text \<open>The outer option says whether the loop ends, the inner one is the \<open>Option\<close> of the source.\<close>

definition single_source ::
    "(heap_entry list \<Rightarrow> heap_entry) \<Rightarrow> graph_data \<Rightarrow> u32 \<Rightarrow> shortest_paths option option" where
  "single_source pick g s =
     (if s \<notin> set (graph_node_ids g) then Some None
      else dijkstra_loop pick (path_adjacency g) (dijkstra_start s) \<bind> (\<lambda>st. Some (Some (sp st))))"

partial_function (option) reconstruct_loop :: "(u32 \<rightharpoonup> u32) \<Rightarrow> u32 \<Rightarrow> u32 \<Rightarrow> u32 list \<Rightarrow> u32 list option" where
  "reconstruct_loop pred s current path =
     (if current = s then Some (rev path)
      else case pred current of
             Some prev \<Rightarrow> reconstruct_loop pred s prev (path @ [prev])
           | None \<Rightarrow> Some [])"

definition reconstruct_path :: "(u32 \<rightharpoonup> u32) \<Rightarrow> u32 \<Rightarrow> u32 \<Rightarrow> u32 list option" where
  "reconstruct_path pred s target = reconstruct_loop pred s target [target]"

definition path_to :: "shortest_paths \<Rightarrow> u32 \<Rightarrow> u32 list option" where
  "path_to r target =
     (if distances r target = None then Some [] else reconstruct_path (predecessors r) (sp_source r) target)"

section \<open>Walks and their rounded sums\<close>

text \<open>\<open>walk adj s p d\<close>: \<open>p\<close> is a walk from \<open>s\<close>, and \<open>d\<close> the sum of its weights, rounded at each edge.\<close>

inductive walk :: "weighted_adjacency \<Rightarrow> u32 \<Rightarrow> u32 list \<Rightarrow> f32 \<Rightarrow> bool" for adj :: weighted_adjacency and s :: u32 where
  start: "walk adj s [s] 0"
| step: "walk adj s p d \<Longrightarrow> (v, w) \<in> set (adj (last p)) \<Longrightarrow> walk adj s (p @ [v]) (f32_add d w)"

definition weights_ok :: "weighted_adjacency \<Rightarrow> bool" where
  "weights_ok adj = (\<forall>u. \<forall>(v, w) \<in> set (adj u). f32_weight w)"

lemma walk_nonneg: "walk adj s p d \<Longrightarrow> weights_ok adj \<Longrightarrow> f32_nonneg d \<and> p \<noteq> [] \<and> hd p = s"
proof (induction rule: walk.induct)
  case (step p d v w)
  then have "f32_weight w" by (auto simp: weights_ok_def)
  then show ?case using step f32_add_nonneg by auto
qed simp

section \<open>The invariant of the search\<close>

abbreviation entry :: "u32 \<Rightarrow> f32 \<Rightarrow> heap_entry" where
  "entry v d \<equiv> \<lparr>entry_node = v, f_score = d, g_score = d\<rparr>"

abbreviation dist :: "dijkstra_state \<Rightarrow> u32 \<rightharpoonup> f32" where
  "dist st \<equiv> distances (sp st)"

abbreviation pred :: "dijkstra_state \<Rightarrow> u32 \<rightharpoonup> u32" where
  "pred st \<equiv> predecessors (sp st)"

definition heap_ok :: "dijkstra_state \<Rightarrow> bool" where
  "heap_ok st \<longleftrightarrow>
     (\<forall>e \<in> set (heap st). f_score e = g_score e \<and> f32_nonneg (g_score e)
        \<and> (\<exists>b. best st (entry_node e) = Some b \<and> b \<le> g_score e))
     \<and> (\<forall>v b. best st v = Some b \<longrightarrow> dist st v = None \<longrightarrow> entry v b \<in> set (heap st))"

definition tree_ok :: "weighted_adjacency \<Rightarrow> u32 \<Rightarrow> dijkstra_state \<Rightarrow> bool" where
  "tree_ok adj s st \<longleftrightarrow>
     best st s = Some 0
     \<and> (\<forall>v b. best st v = Some b \<longrightarrow> f32_nonneg b)
     \<and> (\<forall>v b. best st v = Some b \<longrightarrow> v \<noteq> s \<longrightarrow>
          (\<exists>u d w. pred st v = Some u \<and> dist st u = Some d \<and> (v, w) \<in> set (adj u) \<and> b = f32_add d w))
     \<and> (\<exists>ol. set ol = dom (dist st) \<and> (\<forall>i < length ol. ol ! i \<noteq> s \<longrightarrow> (\<exists>j < i. pred st (ol ! i) = Some (ol ! j))))"

text \<open>\<open>seen\<close> lists the edges already relaxed; of a settled node these are, between steps, all its edges.\<close>

definition settled_ok :: "weighted_adjacency \<Rightarrow> dijkstra_state \<Rightarrow> bool" where
  "settled_ok seen st \<longleftrightarrow>
     (\<forall>v d. dist st v = Some d \<longrightarrow> best st v = Some d)
     \<and> (\<forall>u d v w. dist st u = Some d \<longrightarrow> (v, w) \<in> set (seen u) \<longrightarrow> (\<exists>b. best st v = Some b \<and> b \<le> f32_add d w))
     \<and> (\<forall>u d v b. dist st u = Some d \<longrightarrow> best st v = Some b \<longrightarrow> dist st v = None \<longrightarrow> d \<le> b)"

definition search_inv :: "weighted_adjacency \<Rightarrow> weighted_adjacency \<Rightarrow> u32 \<Rightarrow> dijkstra_state \<Rightarrow> bool" where
  "search_inv adj seen s st \<longleftrightarrow> heap_ok st \<and> tree_ok adj s st \<and> settled_ok seen st"

lemmas search_inv_defs = search_inv_def heap_ok_def tree_ok_def settled_ok_def

lemma start_inv: "search_inv adj seen s (dijkstra_start s)"
  by (auto simp: search_inv_defs dijkstra_start_def intro: exI [of _ "[]"])

lemma relax_dist [simp]: "dist (relax u d vw st) = dist st" "sp_source (sp (relax u d vw st)) = sp_source (sp st)"
  by (simp_all add: relax_def Let_def split: prod.split)

lemma settled_best: "search_inv adj seen s st \<Longrightarrow> dist st u = Some d \<Longrightarrow> best st u = Some d"
  by (simp add: search_inv_def settled_ok_def)

lemma best_nonneg: "search_inv adj seen s st \<Longrightarrow> best st u = Some d \<Longrightarrow> f32_nonneg d"
  by (simp add: search_inv_def tree_ok_def)

lemma relax_inv:
  assumes inv: "search_inv adj seen s st" and ok: "weights_ok adj" and u: "dist st u = Some d"
    and top: "\<forall>u' d'. dist st u' = Some d' \<longrightarrow> d' \<le> d" and vw: "(v, w) \<in> set (adj u)"
  shows "search_inv adj (seen(u := seen u @ [(v, w)])) s (relax u d (v, w) st)"
proof -
  let ?nd = "f32_add d w"
  have w: "f32_weight w" using ok vw by (auto simp: weights_ok_def)
  have d: "f32_nonneg d" using best_nonneg [OF inv settled_best [OF inv u]] .
  note nd = f32_add_nonneg [OF d w] f32_add_inflate [OF d w]
  show ?thesis
  proof (cases "dist st v = None \<and> (case best st v of None \<Rightarrow> True | Some b \<Rightarrow> f32_lt ?nd b)")
    case False
    then have same: "relax u d (v, w) st = st" by (auto simp: relax_def Let_def)
    have "\<exists>b. best st v = Some b \<and> b \<le> ?nd"
    proof (cases "dist st v")
      case None
      then obtain b where b: "best st v = Some b" "\<not> f32_lt ?nd b" using False by (auto split: option.splits)
      then have "f32_nonneg b" using best_nonneg [OF inv] by blast
      then show ?thesis using b f32_nonneg_order(1) [OF nd(1)] by (auto simp: not_less)
    next
      case (Some d')
      then have "best st v = Some d'" "d' \<le> d" using settled_best [OF inv] top by blast+
      then show ?thesis using nd(2) by auto
    qed
    then show ?thesis using inv u unfolding same by (auto simp: search_inv_defs)
  next
    case True
    have vs: "v \<noteq> s"
    proof
      assume "v = s"
      then have "f32_lt ?nd 0" using True inv by (simp add: search_inv_def tree_ok_def)
      then show False using f32_nonneg_order(1) [OF nd(1), of 0] by simp
    qed
    have old: "?nd \<le> b" if "best st v = Some b" for b
      using True that best_nonneg [OF inv that] f32_nonneg_order(1) [OF nd(1), of b] by (simp add: less_imp_le)
    define st' where "st' = relax u d (v, w) st"
    have f: "best st' = (best st)(v \<mapsto> ?nd)" "pred st' = (pred st)(v \<mapsto> u)" "dist st' = dist st" "heap st' = entry v ?nd # heap st"
      using True by (simp_all add: st'_def relax_def Let_def)
    have "heap_ok st'"
      using inv nd(1) old unfolding heap_ok_def f search_inv_def by (auto intro: order_trans)
    moreover have "tree_ok adj s st'"
    proof -
      obtain ol where ol: "set ol = dom (dist st)" "\<forall>i < length ol. ol ! i \<noteq> s \<longrightarrow> (\<exists>j < i. pred st (ol ! i) = Some (ol ! j))"
        using inv unfolding search_inv_def tree_ok_def by blast
      then have "ol ! i \<noteq> v" if "i < length ol" for i using True that nth_mem by fastforce
      then have "\<exists>ol. set ol = dom (dist st) \<and> (\<forall>i < length ol. ol ! i \<noteq> s \<longrightarrow> (\<exists>j < i. pred st' (ol ! i) = Some (ol ! j)))"
        using ol by (intro exI [of _ ol]) (simp add: f)
      then show ?thesis
        using inv nd(1) vs vw u unfolding tree_ok_def f search_inv_def by auto
    qed
    moreover have "settled_ok (seen(u := seen u @ [(v, w)])) st'"
    proof -
      have "\<exists>b. best st' v' = Some b \<and> b \<le> f32_add d' w'"
        if t: "dist st u' = Some d'" "(v', w') \<in> set ((seen(u := seen u @ [(v, w)])) u')" for u' d' v' w'
      proof (cases "(u', v', w') = (u, v, w)")
        case False
        then have "(v', w') \<in> set (seen u')" using that(2) by (auto split: if_splits)
        then obtain b where "best st v' = Some b" "b \<le> f32_add d' w'"
          using inv t(1) unfolding search_inv_def settled_ok_def by blast
        then show ?thesis using old by (auto simp: f)
      qed (use that(1) u in \<open>simp add: f\<close>)
      moreover have "d' \<le> b" if "dist st u' = Some d'" "best st' v' = Some b" "dist st v' = None" for u' d' v' b
      proof (cases "v' = v")
        case True
        then have "b = ?nd" "d' \<le> d" using that(1,2) top by (auto simp: f)
        then show ?thesis using nd(2) by auto
      next
        case False
        then show ?thesis using inv that unfolding search_inv_def settled_ok_def f by simp
      qed
      ultimately show ?thesis using inv True unfolding settled_ok_def f search_inv_def by auto
    qed
    ultimately show ?thesis by (simp add: search_inv_def st'_def)
  qed
qed
lemma relax_all_inv:
  assumes "search_inv adj seen s st" and "weights_ok adj" and "dist st u = Some d"
    and "\<forall>u' d'. dist st u' = Some d' \<longrightarrow> d' \<le> d" and "set vws \<subseteq> set (adj u)"
  shows "search_inv adj (seen(u := seen u @ vws)) s (fold (relax u d) vws st) \<and> dist (fold (relax u d) vws st) = dist st"
  using assms
proof (induction vws arbitrary: seen st)
  case (Cons vw vws)
  obtain v w where vw: "vw = (v, w)" by force
  define seen1 where "seen1 = seen(u := seen u @ [(v, w)])"
  have "search_inv adj seen1 s (relax u d (v, w) st)"
    using relax_inv [OF Cons.prems(1-4), of v w] Cons.prems(5) vw by (simp add: seen1_def)
  moreover have "seen1(u := seen1 u @ vws) = seen(u := seen u @ vw # vws)"
    by (simp add: seen1_def vw fun_eq_iff)
  ultimately show ?case
    using Cons.IH [of seen1 "relax u d (v, w) st"] Cons.prems(2-5) vw by (simp del: fun_upd_apply)
qed simp

lemma heap_relax_all: "length (heap (fold (relax u d) vws st)) \<le> length (heap st) + length vws"
proof (induction vws arbitrary: st)
  case (Cons vw vws)
  have "length (heap (relax u d vw st)) \<le> length (heap st) + 1" by (simp add: relax_def Let_def split: prod.split)
  then show ?case using Cons [of "relax u d vw st"] by simp
qed simp

lemma pop_settled_inv:
  assumes inv: "search_inv adj adj s st" and u: "dist st (entry_node e) \<noteq> None"
  shows "search_inv adj adj s (st\<lparr>heap := remove1 e (heap st)\<rparr>)"
proof -
  have "entry v b \<in> set (remove1 e (heap st))" if "best st v = Some b" "dist st v = None" for v b
  proof -
    have "entry v b \<in> set (heap st)" using inv that by (auto simp: search_inv_defs)
    moreover have "entry v b \<noteq> e" using u that(2) by auto
    ultimately show ?thesis by (simp add: in_set_remove1)
  qed
  then show ?thesis using inv unfolding search_inv_defs by (auto dest: notin_set_remove1 [rotated])
qed

text \<open>Settling a node of least distance starts a new list of relaxed edges for it.\<close>

lemma settle_inv:
  assumes inv: "search_inv adj adj s st" and e: "e \<in> set (heap st)" "\<forall>x \<in> set (heap st). \<not> f32_lt (f_score x) (f_score e)"
    and u: "u = entry_node e" "dist st u = None" and d: "d = g_score e"
    and st': "st' = st\<lparr>heap := remove1 e (heap st), sp := (sp st)\<lparr>distances := (distances (sp st))(u \<mapsto> d)\<rparr>\<rparr>"
  shows "search_inv adj (adj(u := [])) s st' \<and> (\<forall>u' d'. dist st' u' = Some d' \<longrightarrow> d' \<le> d)"
proof -
  obtain b where b: "best st u = Some b" "b \<le> d" "f_score e = d" "f32_nonneg d"
    using inv e(1) u(1) d by (auto simp: search_inv_def heap_ok_def)
  have least: "d \<le> b'" if "best st v = Some b'" "dist st v = None" for v b'
  proof -
    have "entry v b' \<in> set (heap st)" using inv that by (simp add: search_inv_def heap_ok_def)
    then have "\<not> f32_lt b' d" using e(2) b(3) by force
    then show ?thesis using f32_nonneg_order(1) [OF best_nonneg [OF inv that(1)] b(4)] by simp
  qed
  then have bd: "best st u = Some d" using b u(2) by force
  have f: "dist st' = (dist st)(u \<mapsto> d)" "best st' = best st" "pred st' = pred st" "heap st' = remove1 e (heap st)"
    by (simp_all add: st')
  have below: "d' \<le> d" if "dist st' u' = Some d'" for u' d'
  proof (cases "u' = u")
    case False
    then have "dist st u' = Some d'" using that by (simp add: f)
    then show ?thesis using inv bd u(2) unfolding search_inv_def settled_ok_def by blast
  qed (use that in \<open>simp add: f\<close>)
  have "entry v b' \<in> set (remove1 e (heap st))" if "best st v = Some b'" "v \<noteq> u" "dist st v = None" for v b'
  proof -
    have "entry v b' \<in> set (heap st)" using inv that by (simp add: search_inv_def heap_ok_def)
    moreover have "entry v b' \<noteq> e" using u(1) that(2) by auto
    ultimately show ?thesis by (simp add: in_set_remove1)
  qed
  then have "heap_ok st'"
    using inv unfolding search_inv_def heap_ok_def f by (auto dest: notin_set_remove1 [rotated])
  moreover have "tree_ok adj s st'"
  proof -
    obtain ol where ol: "set ol = dom (dist st)" "\<forall>i < length ol. ol ! i \<noteq> s \<longrightarrow> (\<exists>j < i. pred st (ol ! i) = Some (ol ! j))"
      using inv unfolding search_inv_def tree_ok_def by blast
    have "\<exists>j < length ol. pred st u = Some (ol ! j)" if us: "u \<noteq> s"
    proof -
      obtain u' d' where "pred st u = Some u'" "dist st u' = Some d'"
        using inv bd us unfolding search_inv_def tree_ok_def by blast
      moreover from this have "u' \<in> set ol" using ol(1) by auto
      ultimately show ?thesis by (metis in_set_conv_nth)
    qed
    then have "\<exists>ol. set ol = dom (dist st') \<and> (\<forall>i < length ol. ol ! i \<noteq> s \<longrightarrow> (\<exists>j < i. pred st' (ol ! i) = Some (ol ! j)))"
      using ol by (intro exI [of _ "ol @ [u]"]) (force simp: f nth_append less_Suc_eq)
    moreover have "\<exists>u1 d1 w. pred st' v = Some u1 \<and> dist st' u1 = Some d1 \<and> (v, w) \<in> set (adj u1) \<and> b' = f32_add d1 w"
      if v: "best st' v = Some b'" "v \<noteq> s" for v b'
    proof -
      obtain u1 d1 w where "pred st v = Some u1" "dist st u1 = Some d1" "(v, w) \<in> set (adj u1)" "b' = f32_add d1 w"
        using inv v unfolding search_inv_def tree_ok_def f by blast
      moreover from this have "u1 \<noteq> u" using u(2) by auto
      ultimately show ?thesis by (auto simp: f)
    qed
    ultimately show ?thesis using inv unfolding tree_ok_def search_inv_def f by blast
  qed
  moreover have "settled_ok (adj(u := [])) st'"
    using inv bd least below unfolding search_inv_def settled_ok_def f
    by (auto split: if_splits)
  ultimately show ?thesis using below by (simp add: search_inv_def)
qed
section \<open>The loop ends\<close>

text \<open>Edges of nodes not yet settled, and entries of the heap: each step removes from this.\<close>

definition work :: "weighted_adjacency \<Rightarrow> dijkstra_state \<Rightarrow> nat" where
  "work adj st = (\<Sum>u \<in> {u. dist st u = None}. length (adj u)) + length (heap st)"

lemma settle_next_ok:
  assumes inv: "search_inv adj adj s st" and ok: "weights_ok adj" and pick: "pops_greatest pick" and ne: "heap st \<noteq> []"
  shows "search_inv adj adj s (settle_next pick adj st) \<and> work adj (settle_next pick adj st) < work adj st
    \<and> sp_source (sp (settle_next pick adj st)) = sp_source (sp st)"
proof -
  define e where "e = pick (heap st)"
  have e: "e \<in> set (heap st)" "\<forall>x \<in> set (heap st). \<not> f32_lt (f_score x) (f_score e)"
  proof -
    have "\<forall>x \<in> set (heap st). \<not> f32_is_nan (f_score x)"
      using inv f32_nonneg_facts(2) unfolding search_inv_def heap_ok_def by simp
    then show "e \<in> set (heap st)" "\<forall>x \<in> set (heap st). \<not> f32_lt (f_score x) (f_score e)"
      using pick ne unfolding pops_greatest_def e_def by blast+
  qed
  then have len: "length (remove1 e (heap st)) < length (heap st)" using ne by (simp add: length_remove1)
  show ?thesis
  proof (cases "dist st (entry_node e) = None")
    case False
    then show ?thesis
      using pop_settled_inv [OF inv False] len by (simp add: settle_next_def e_def [symmetric] Let_def work_def)
  next
    case True
    define u where "u = entry_node e"
    define d where "d = g_score e"
    define st1 where "st1 = st\<lparr>heap := remove1 e (heap st), sp := (sp st)\<lparr>distances := (distances (sp st))(u \<mapsto> d)\<rparr>\<rparr>"
    define st2 where "st2 = fold (relax u d) (adj u) st1"
    have st2: "settle_next pick adj st = st2"
      using True by (simp add: settle_next_def e_def [symmetric] Let_def u_def [symmetric] d_def [symmetric] st1_def st2_def)
    have d1: "dist st1 = (dist st)(u \<mapsto> d)" by (simp add: st1_def)
    have s1: "search_inv adj (adj(u := [])) s st1" "\<forall>u' d'. dist st1 u' = Some d' \<longrightarrow> d' \<le> d"
      using settle_inv [OF inv e u_def _ d_def st1_def] True by (simp_all add: u_def)
    have "search_inv adj ((adj(u := []))(u := (adj(u := [])) u @ adj u)) s st2 \<and> dist st2 = dist st1"
      unfolding st2_def by (rule relax_all_inv [OF s1(1) ok _ s1(2)]) (simp_all add: d1)
    then have inv2: "search_inv adj adj s st2" "dist st2 = (dist st)(u \<mapsto> d)" by (simp_all add: d1)
    have split: "{u'. dist st u' = None} = insert u {u'. dist st2 u' = None}" "u \<notin> {u'. dist st2 u' = None}"
      using True by (auto simp: inv2(2) u_def)
    have "(\<Sum>x \<in> {u'. dist st u' = None}. length (adj x)) = length (adj u) + (\<Sum>x \<in> {u'. dist st2 u' = None}. length (adj x))"
      unfolding split(1) by (rule sum.insert) (use split(2) in simp_all)
    moreover have "length (heap st2) \<le> length (remove1 e (heap st)) + length (adj u)"
      using heap_relax_all [of u d "adj u" st1] by (simp add: st2_def st1_def)
    ultimately have "work adj st2 < work adj st" using len by (simp add: work_def)
    moreover have "sp_source (sp (fold (relax u d) vws x)) = sp_source (sp x)" for vws x
      by (induction vws arbitrary: x) simp_all
    ultimately show ?thesis using inv2(1) by (simp add: st2) (simp add: st2_def st1_def)
  qed
qed

lemma dijkstra_loop_ok:
  assumes "search_inv adj adj s st" and "weights_ok adj" and "pops_greatest pick"
  shows "\<exists>st'. dijkstra_loop pick adj st = Some st' \<and> search_inv adj adj s st' \<and> heap st' = []
    \<and> sp_source (sp st') = sp_source (sp st)"
  using assms(1)
proof (induction "work adj st" arbitrary: st rule: less_induct)
  case less
  show ?case
  proof (cases "heap st = []")
    case True
    then show ?thesis using less.prems by (subst dijkstra_loop.simps) simp
  next
    case False
    note n = settle_next_ok [OF less.prems assms(2,3) False]
    then show ?thesis using less.hyps [of "settle_next pick adj st"] False by (subst dijkstra_loop.simps) simp
  qed
qed

section \<open>The result\<close>

lemma final_best:
  assumes inv: "search_inv adj adj s st" and h: "heap st = []" and ok: "weights_ok adj" and p: "walk adj s p d"
  shows "\<exists>b. dist st (last p) = Some b \<and> b \<le> d"
proof -
  have settled: "dist st v = Some b" if "best st v = Some b" for v b
    using that inv h settled_best [OF inv, of v] by (cases "dist st v") (auto simp: search_inv_def heap_ok_def)
  show ?thesis using p
  proof (induction rule: walk.induct)
    case start
    have "best st s = Some 0" using inv by (simp add: search_inv_def tree_ok_def)
    then show ?case using settled by simp
  next
    case (step p d v w)
    then obtain b where b: "dist st (last p) = Some b" "b \<le> d" by blast
    then obtain b' where b': "best st v = Some b'" "b' \<le> f32_add b w"
      using inv step.hyps(2) unfolding search_inv_def settled_ok_def by blast
    have "f32_add b w \<le> f32_add d w"
      using b best_nonneg [OF inv settled_best [OF inv b(1)]] walk_nonneg [OF step.hyps(1) ok] step.hyps(2) ok
      by (intro f32_add_mono) (auto simp: weights_ok_def)
    then show ?case using settled [OF b'(1)] b'(2) by auto
  qed
qed

lemma reconstruct_ok:
  assumes inv: "search_inv adj adj s st" and ol: "set ol = dom (dist st)"
    "\<forall>i < length ol. ol ! i \<noteq> s \<longrightarrow> (\<exists>j < i. pred st (ol ! i) = Some (ol ! j))" and "i < length ol"
  shows "\<exists>q. reconstruct_loop (pred st) s (ol ! i) (path @ [ol ! i]) = Some (q @ ol ! i # rev path)
    \<and> walk adj s (q @ [ol ! i]) (the (dist st (ol ! i)))"
  using assms(4)
proof (induction i arbitrary: path rule: less_induct)
  case (less i)
  let ?c = "ol ! i"
  obtain b where b: "dist st ?c = Some b" "best st ?c = Some b"
    using ol(1) less.prems settled_best [OF inv, of ?c] nth_mem [of i ol] by auto
  show ?case
  proof (cases "?c = s")
    case True
    then have "b = 0" using inv b(2) by (simp add: search_inv_def tree_ok_def)
    then show ?thesis using True b(1) by (subst reconstruct_loop.simps) (simp add: walk.start)
  next
    case False
    then obtain j where j: "j < i" "pred st ?c = Some (ol ! j)" using ol(2) less.prems by blast
    obtain d w where e: "dist st (ol ! j) = Some d" "(?c, w) \<in> set (adj (ol ! j))" "b = f32_add d w"
      using inv b(2) False j(2) unfolding search_inv_def tree_ok_def by force
    obtain q where q: "reconstruct_loop (pred st) s (ol ! j) ((path @ [?c]) @ [ol ! j]) = Some (q @ ol ! j # rev (path @ [?c]))"
      "walk adj s (q @ [ol ! j]) (the (dist st (ol ! j)))"
      using less.IH [OF j(1), of "path @ [?c]"] j(1) less.prems by auto
    have "walk adj s ((q @ [ol ! j]) @ [?c]) (f32_add d w)"
      using walk.step [OF q(2), of ?c w] e(1,2) by simp
    then show ?thesis
      using False j(2) q(1) e(3) b(1) by (subst reconstruct_loop.simps) (intro exI [of _ "q @ [ol ! j]"], simp)
  qed
qed

lemma dijkstra_result:
  assumes ok: "weights_ok (path_adjacency g)" and pick: "pops_greatest pick" and s: "s \<in> set (graph_node_ids g)"
  shows "\<exists>r. single_source pick g s = Some (Some r)
    \<and> (\<forall>p d. walk (path_adjacency g) s p d \<longrightarrow> (\<exists>b. distances r (last p) = Some b \<and> b \<le> d))
    \<and> (\<forall>v b. distances r v = Some b \<longrightarrow> f32_nonneg b \<and> (\<exists>p. path_to r v = Some p \<and> last p = v \<and> walk (path_adjacency g) s p b))"
proof -
  let ?adj = "path_adjacency g"
  obtain st where st: "dijkstra_loop pick ?adj (dijkstra_start s) = Some st" "search_inv ?adj ?adj s st" "heap st = []"
    "sp_source (sp st) = s"
    using dijkstra_loop_ok [OF start_inv ok pick, of s] by (auto simp: dijkstra_start_def)
  obtain ol where ol: "set ol = dom (dist st)" "\<forall>i < length ol. ol ! i \<noteq> s \<longrightarrow> (\<exists>j < i. pred st (ol ! i) = Some (ol ! j))"
    using st(2) unfolding search_inv_def tree_ok_def by blast
  have "\<exists>p. path_to (sp st) v = Some p \<and> last p = v \<and> walk ?adj s p b" if v: "dist st v = Some b" for v b
  proof -
    obtain i where "i < length ol" "ol ! i = v" using ol(1) v by (metis domI in_set_conv_nth)
    then obtain q where "reconstruct_loop (pred st) s v [v] = Some (q @ [v])" "walk ?adj s (q @ [v]) b"
      using reconstruct_ok [OF st(2) ol, of i "[]"] v by auto
    then show ?thesis using v st(4) by (simp add: path_to_def reconstruct_path_def)
  qed
  then show ?thesis
    using st s final_best [OF st(2,3) ok] best_nonneg [OF st(2) settled_best [OF st(2)]]
    by (intro exI [of _ "sp st"]) (simp add: single_source_def)
qed
text \<open>The specification: walks along the edges of the graph whose end points are both nodes of it.\<close>

definition joins :: "graph_data \<Rightarrow> graph_edge \<Rightarrow> u32 \<Rightarrow> u32 \<Rightarrow> bool" where
  "joins g e u v \<longleftrightarrow> e \<in> set (graph_edges g) \<and> u \<in> set (graph_node_ids g) \<and> v \<in> set (graph_node_ids g)
     \<and> (edge_source e = u \<and> edge_target e = v \<or> edge_source e = v \<and> edge_target e = u)"

inductive graph_walk :: "graph_data \<Rightarrow> u32 \<Rightarrow> u32 list \<Rightarrow> f32 \<Rightarrow> bool" for g :: graph_data and s :: u32 where
  here: "graph_walk g s [s] 0"
| along: "graph_walk g s p d \<Longrightarrow> joins g e (last p) v \<Longrightarrow> graph_walk g s (p @ [v]) (f32_add d (edge_weight_f e))"

lemma add_edges_member:
  "(v, w) \<in> set (fold (add_edge ids) es adj u) \<longleftrightarrow>
     (v, w) \<in> set (adj u) \<or> (\<exists>e \<in> set es. u \<in> set ids \<and> v \<in> set ids \<and> edge_weight_f e = w
        \<and> (edge_source e = u \<and> edge_target e = v \<or> edge_source e = v \<and> edge_target e = u))"
proof (induction es arbitrary: adj)
  case (Cons e es)
  have "(v, w) \<in> set (add_edge ids e adj u) \<longleftrightarrow> (v, w) \<in> set (adj u) \<or> u \<in> set ids \<and> v \<in> set ids \<and> edge_weight_f e = w
        \<and> (edge_source e = u \<and> edge_target e = v \<or> edge_source e = v \<and> edge_target e = u)"
    by (auto simp: add_edge_def push_neighbour_def Let_def)
  then show ?case using Cons.IH [of "add_edge ids e adj"] by auto
qed simp

lemma path_adjacency_member: "(v, w) \<in> set (path_adjacency g u) \<longleftrightarrow> (\<exists>e. joins g e u v \<and> edge_weight_f e = w)"
  by (auto simp: path_adjacency_def add_edges_member joins_def)

lemma walk_iff_graph_walk: "walk (path_adjacency g) s p d \<longleftrightarrow> graph_walk g s p d"
proof
  show "graph_walk g s p d" if "walk (path_adjacency g) s p d"
    using that by (induction rule: walk.induct) (auto simp: path_adjacency_member intro: graph_walk.intros)
  show "walk (path_adjacency g) s p d" if "graph_walk g s p d"
    using that by (induction rule: graph_walk.induct) (auto simp: path_adjacency_member intro!: walk.intros)
qed

lemma graph_walk_nodes: "graph_walk g s p d \<Longrightarrow> s \<in> set (graph_node_ids g) \<Longrightarrow> set p \<subseteq> set (graph_node_ids g) \<and> p \<noteq> []"
  by (induction rule: graph_walk.induct) (auto simp: joins_def)

section \<open>Results stay inside the graph\<close>

text \<open>Whatever the weights are, the search and the paths it returns name only nodes of the graph.\<close>

definition stays :: "u32 set \<Rightarrow> dijkstra_state \<Rightarrow> bool" where
  "stays ids st \<longleftrightarrow> entry_node ` set (heap st) \<subseteq> ids \<and> dom (distances (sp st)) \<subseteq> ids \<and> ran (predecessors (sp st)) \<subseteq> ids"

lemma relax_stays: "stays ids st \<Longrightarrow> u \<in> ids \<Longrightarrow> fst vw \<in> ids \<Longrightarrow> stays ids (relax u d vw st)"
  by (cases vw) (auto simp: relax_def stays_def Let_def ran_def split: if_splits option.splits)

lemma relax_all_stays:
  "stays ids st \<Longrightarrow> u \<in> ids \<Longrightarrow> fst ` set es \<subseteq> ids \<Longrightarrow> stays ids (fold (relax u d) es st)"
  by (induction es arbitrary: st) (simp_all add: relax_stays)

lemma settle_stays:
  assumes "stays ids st" and "pops_greatest pick" and "heap st \<noteq> []" and adj: "\<And>u. fst ` set (adj u) \<subseteq> ids"
  shows "stays ids (settle_next pick adj st)"
proof -
  define e where "e = pick (heap st)"
  have e: "e \<in> set (heap st)" using assms(2,3) by (simp add: pops_greatest_def e_def)
  then have u: "entry_node e \<in> ids" using assms(1) by (auto simp: stays_def)
  have pop: "stays ids (st\<lparr>heap := remove1 e (heap st)\<rparr>)"
    using assms(1) set_remove1_subset [of e "heap st"] by (auto simp: stays_def)
  then have "stays ids (st\<lparr>heap := remove1 e (heap st), sp := (sp st)\<lparr>distances := (distances (sp st))(entry_node e \<mapsto> g_score e)\<rparr>\<rparr>)"
    using u by (auto simp: stays_def)
  from relax_all_stays [OF this u adj] show ?thesis
    using pop by (simp add: settle_next_def e_def [symmetric] Let_def)
qed

lemma dijkstra_loop_stays:
  assumes "dijkstra_loop pick adj st = Some st'" and "stays ids st" and "pops_greatest pick" and "\<And>u. fst ` set (adj u) \<subseteq> ids"
  shows "stays ids st'"
proof -
  have "stays ids st \<longrightarrow> pops_greatest pick \<longrightarrow> (\<forall>u. fst ` set (adj u) \<subseteq> ids) \<longrightarrow> stays ids st'"
  proof (rule dijkstra_loop.raw_induct [where P = "\<lambda>pick adj st st'. stays ids st \<longrightarrow> pops_greatest pick
      \<longrightarrow> (\<forall>u. fst ` set (adj u) \<subseteq> ids) \<longrightarrow> stays ids st'"], goal_cases)
    case (1 loop pick adj st st')
    show ?case
    proof (cases "heap st = []")
      case False
      then show ?thesis using 1(1) [of pick adj "settle_next pick adj st" st'] 1(2) settle_stays [of ids st pick adj] by simp
    qed (use 1(2) in simp)
  qed (rule assms(1))
  then show ?thesis using assms(2-4) by blast
qed

lemma reconstruct_stays:
  assumes "reconstruct_loop pr s c path = Some p" and "ran pr \<subseteq> ids" and "set path \<subseteq> ids"
  shows "set p \<subseteq> ids"
proof -
  have "ran pr \<subseteq> ids \<longrightarrow> set path \<subseteq> ids \<longrightarrow> set p \<subseteq> ids"
  proof (rule reconstruct_loop.raw_induct [where P = "\<lambda>pr s c path p. ran pr \<subseteq> ids \<longrightarrow> set path \<subseteq> ids \<longrightarrow> set p \<subseteq> ids"], goal_cases)
    case (1 loop pr s c path p)
    show ?case
    proof (cases "c = s")
      case False
      then show ?thesis
      proof (cases "pr c")
        case (Some q)
        then have "loop pr s q (path @ [q]) = Some p" using 1(2) False by simp
        moreover have "q \<in> ran pr" using Some by (rule ranI)
        ultimately show ?thesis using 1(1) [of pr s q "path @ [q]" p] by auto
      qed (use 1(2) False in simp)
    qed (use 1(2) in auto)
  qed (rule assms(1))
  then show ?thesis using assms(2,3) by blast
qed

lemma search_stays_inside:
  assumes "single_source pick g s = Some (Some r)" and "pops_greatest pick"
  shows "dom (distances r) \<subseteq> set (graph_node_ids g)" and "path_to r t = Some p \<Longrightarrow> set p \<subseteq> set (graph_node_ids g)"
proof -
  let ?ids = "set (graph_node_ids g)"
  obtain st where s: "s \<in> ?ids" and st: "dijkstra_loop pick (path_adjacency g) (dijkstra_start s) = Some st" "r = sp st"
    using assms(1) by (auto simp: single_source_def Option.bind_eq_Some_conv split: if_splits)
  have "fst ` set (path_adjacency g u) \<subseteq> ?ids" for u by (auto simp: path_adjacency_member joins_def)
  moreover have "stays ?ids (dijkstra_start s)" using s by (simp add: stays_def dijkstra_start_def)
  ultimately have st': "stays ?ids st" using dijkstra_loop_stays [OF st(1) _ assms(2)] by blast
  then show "dom (distances r) \<subseteq> ?ids" by (simp add: st(2) stays_def)
  show "set p \<subseteq> ?ids" if "path_to r t = Some p"
  proof (cases "distances r t")
    case (Some d)
    then have "t \<in> ?ids" using st' by (auto simp: st(2) stays_def)
    then show ?thesis
      using that Some st' reconstruct_stays [of "predecessors r" "sp_source r" t "[t]" p ?ids]
      by (simp add: path_to_def reconstruct_path_def stays_def st(2))
  qed (use that in \<open>simp add: path_to_def\<close>)
qed

text \<open>Edges with an end outside the ids change nothing.\<close>

lemma add_edges_inner:
  "fold (add_edge ids) (filter (\<lambda>e. edge_source e \<in> set ids \<and> edge_target e \<in> set ids) es) adj = fold (add_edge ids) es adj"
  by (induction es arbitrary: adj) (simp_all add: add_edge_def)

lemma search_inner_edges:
  assumes "graph_node_ids g = graph_node_ids h"
    and "filter (\<lambda>e. edge_source e \<in> set (graph_node_ids g) \<and> edge_target e \<in> set (graph_node_ids g)) (graph_edges g)
      = filter (\<lambda>e. edge_source e \<in> set (graph_node_ids g) \<and> edge_target e \<in> set (graph_node_ids g)) (graph_edges h)"
  shows "single_source pick g s = single_source pick h s"
proof -
  have "path_adjacency g = path_adjacency h"
    unfolding path_adjacency_def assms(1) [symmetric]
    by (subst (1 2) add_edges_inner [symmetric]) (simp only: assms(2))
  then show ?thesis by (simp add: single_source_def assms(1))
qed


section \<open>The result is exact\<close>

text \<open>
  C8. For weights that are not negative, the search ends whatever equal element the heap prefers:
  a node has a distance exactly when it is reachable, the distance is the least sum (rounded at each
  edge) over all walks to it, \<open>path_to\<close> returns a walk with that very sum, and no result names an id
  outside the graph.
\<close>

theorem shortest_paths_exact:
  assumes ok: "\<forall>e \<in> set (graph_edges g). f32_weight (edge_weight_f e)" and pick: "pops_greatest pick"
    and s: "s \<in> set (graph_node_ids g)"
  shows "\<exists>r. single_source pick g s = Some (Some r) \<and> (\<forall>v. case distances r v of
      None \<Rightarrow> path_to r v = Some [] \<and> (\<forall>p d. graph_walk g s p d \<longrightarrow> last p \<noteq> v)
    | Some d \<Rightarrow> \<exists>p. path_to r v = Some p \<and> graph_walk g s p d \<and> last p = v \<and> set p \<subseteq> set (graph_node_ids g)
        \<and> (\<forall>p' d'. graph_walk g s p' d' \<longrightarrow> last p' = v \<longrightarrow> f32_le d d'))"
proof -
  have ok': "weights_ok (path_adjacency g)"
    using ok by (auto simp: weights_ok_def path_adjacency_member joins_def)
  obtain r where r: "single_source pick g s = Some (Some r)"
    "\<forall>p d. graph_walk g s p d \<longrightarrow> (\<exists>b. distances r (last p) = Some b \<and> b \<le> d)"
    "\<forall>v b. distances r v = Some b \<longrightarrow> f32_nonneg b \<and> (\<exists>p. path_to r v = Some p \<and> last p = v \<and> graph_walk g s p b)"
    using dijkstra_result [OF ok' pick s] unfolding walk_iff_graph_walk by blast
  have "f32_le b d'" if "distances r v = Some b" "graph_walk g s p' d'" "last p' = v" for v b p' d'
  proof -
    have "b \<le> d'" using r(2) that by fastforce
    moreover have "f32_nonneg b" "f32_nonneg d'"
      using r(3) that(1) walk_nonneg [OF _ ok', of s p' d'] that(2) by (auto simp: walk_iff_graph_walk)
    ultimately show ?thesis by (simp add: f32_nonneg_order)
  qed
  note least = this
  show ?thesis
  proof (intro exI [of _ r] conjI allI)
    show "single_source pick g s = Some (Some r)" by (rule r(1))
    fix v
    show "case distances r v of None \<Rightarrow> path_to r v = Some [] \<and> (\<forall>p d. graph_walk g s p d \<longrightarrow> last p \<noteq> v)
      | Some d \<Rightarrow> \<exists>p. path_to r v = Some p \<and> graph_walk g s p d \<and> last p = v \<and> set p \<subseteq> set (graph_node_ids g)
          \<and> (\<forall>p' d'. graph_walk g s p' d' \<longrightarrow> last p' = v \<longrightarrow> f32_le d d')"
    proof (cases "distances r v")
      case None
      then show ?thesis using r(2) by (auto simp: path_to_def) (metis option.distinct(1))
    next
      case (Some d)
      then obtain p where "path_to r v = Some p" "last p = v" "graph_walk g s p d" using r(3) by blast
      then show ?thesis using least [OF Some] Some graph_walk_nodes [OF _ s, of p d] by auto
    qed
  qed
qed

text \<open>A heap that prefers the entry pushed last among the least ones.\<close>

fun pick_least :: "heap_entry list \<Rightarrow> heap_entry" where
  "pick_least [] = entry 0 0"
| "pick_least [e] = e"
| "pick_least (e # es) = (let m = pick_least es in if f32_lt (f_score m) (f_score e) then m else e)"

lemma pick_least_pops: "pops_greatest pick_least"
proof -
  have "pick_least h \<in> set h" if "h \<noteq> []" for h
    using that by (induction h rule: pick_least.induct) (auto simp: Let_def)
  moreover have "\<forall>e \<in> set h. f32_scaled (f_score (pick_least h)) \<le> f32_scaled (f_score e)"
    if "h \<noteq> []" "\<forall>e \<in> set h. \<not> f32_is_nan (f_score e)" for h
    using that
  proof (induction h rule: pick_least.induct)
    case (3 e e' es)
    then have "\<not> f32_is_nan (f_score (pick_least (e' # es)))"
      using calculation [of "e' # es"] by (metis list.distinct(1) list.set_intros(2))
    then show ?case using 3 by (auto simp: Let_def f32_lt_def)
  qed simp_all
  ultimately show ?thesis by (simp add: pops_greatest_def f32_lt_def not_less)
qed

theorem shortest_paths_exact_witness:
  "\<exists>r. single_source pick_least
       \<lparr>graph_node_ids = [1, 2], graph_edges = [\<lparr>edge_source = 1, edge_target = 2, edge_weight_f = 0x3F800000\<rparr>]\<rparr> 1 = Some (Some r)"
proof -
  have "f32_weight 0x3F800000" by (simp add: f32_weight_def f32_nonneg_order)
  then show ?thesis
    using shortest_paths_exact [OF _ pick_least_pops, of "\<lparr>graph_node_ids = [1, 2],
      graph_edges = [\<lparr>edge_source = 1, edge_target = 2, edge_weight_f = 0x3F800000\<rparr>]\<rparr>" 1] by auto
qed

end
