(* ===== verification/Page_Links.thy ===== *)
theory Page_Links
  imports Prelude
begin

text \<open>
  Links in authored text, as \<open>PageNames::scrub_links\<close> in
  \<open>crates/visionclaw-domain/src/utils/visibility_filter.rs\<close> cuts those that name a hidden page: first
  the \<open>[[Page|alias]]\<close> links, then the \<open>[text](Page)\<close> links of what is left. The patterns are
  ASCII, so a search over bytes finds what Rust's search over characters finds.
\<close>

section \<open>Strings\<close>

text \<open>\<open>str::find\<close>: the first position where the pattern starts.\<close>

fun find_str :: "string \<Rightarrow> string \<Rightarrow> nat option" where
  "find_str p [] = (if p = [] then Some 0 else None)"
| "find_str p (c # s) = (if starts_with p (c # s) then Some 0 else map_option Suc (find_str p s))"

lemma find_str_Some:
  "find_str p s = Some i \<Longrightarrow> \<exists>a b. s = a @ p @ b \<and> length a = i"
proof (induction s arbitrary: i)
  case (Cons c s)
  show ?case
  proof (cases "starts_with p (c # s)")
    case True
    then show ?thesis using Cons.prems by (force simp: starts_with_iff)
  next
    case False
    then obtain j where j: "find_str p s = Some j" "i = Suc j" using Cons.prems by auto
    then obtain a b where "s = a @ p @ b" "length a = j" using Cons.IH by blast
    then have "c # s = (c # a) @ p @ b \<and> length (c # a) = i" using j(2) by simp
    then show ?thesis by blast
  qed
qed (auto split: if_splits)

lemma find_str_bound: "find_str p s = Some i \<Longrightarrow> i + length p \<le> length s"
  by (drule find_str_Some) auto

fun split_char :: "char \<Rightarrow> string \<Rightarrow> string list" where
  "split_char c [] = [[]]"
| "split_char c (x # s) =
     (case split_char c s of
        [] \<Rightarrow> []
      | p # ps \<Rightarrow> if x = c then [] # p # ps else (x # p) # ps)"

fun join_with :: "string \<Rightarrow> string list \<Rightarrow> string" where
  "join_with sep [] = []"
| "join_with sep [p] = p"
| "join_with sep (p # q # ps) = p @ sep @ join_with sep (q # ps)"

definition strip_suffix :: "string \<Rightarrow> string \<Rightarrow> string option" where
  "strip_suffix p s = map_option rev (strip_prefix (rev p) (rev s))"

text \<open>\<open>trim_end_matches\<close> removes the suffix as often as it is there; the text is reversed.\<close>

function trim_front :: "string \<Rightarrow> string \<Rightarrow> string" where
  "trim_front p s = (if p = [] then s else case strip_prefix p s of Some r \<Rightarrow> trim_front p r | None \<Rightarrow> s)"
  by pat_completeness auto
termination
  by (relation "measure (\<lambda>(p, s). length s)") auto

declare trim_front.simps [simp del]

definition trim_end_matches :: "string \<Rightarrow> string \<Rightarrow> string" where
  "trim_end_matches p s = rev (trim_front (rev p) (rev s))"

section \<open>Links in texts\<close>

definition link_target :: "string \<Rightarrow> string" where
  "link_target inner = takeWhile (\<lambda>c. c \<noteq> CHR ''|'' \<and> c \<noteq> CHR ''#'' \<and> c \<noteq> CHR ''^'') inner"

text \<open>The two passes take the test for hidden names as a function.\<close>

definition md_target_hidden :: "(string \<Rightarrow> bool) \<Rightarrow> string \<Rightarrow> bool" where
  "md_target_hidden hid target =
     (let page0 = takeWhile (\<lambda>c. c \<noteq> CHR ''#'') target;
          page = (case strip_suffix ''.md'' page0 of Some p \<Rightarrow> p | None \<Rightarrow> page0)
      in find_str ''://'' page = None \<and> hid page)"

function scrub_md_links :: "(string \<Rightarrow> bool) \<Rightarrow> string \<Rightarrow> string" where
  "scrub_md_links hid rest =
     (case find_str '']('' rest of
        None \<Rightarrow> rest
      | Some opn \<Rightarrow>
          (case find_str '')'' (drop (opn + 2) rest) of
             None \<Rightarrow> rest
           | Some clos \<Rightarrow>
               (let front = take opn rest; pre = takeWhile (\<lambda>c. c \<noteq> CHR ''['') (rev front)
                in if length pre = length front
                   then take (opn + 2) rest @ scrub_md_links hid (drop (opn + 2) rest)
                   else let lbr = length front - length pre - 1;
                            target = take clos (drop (opn + 2) rest);
                            hidden = md_target_hidden hid target;
                            after = opn + 2 + clos + 1
                        in take lbr rest @ (if hidden then [] else take (after - lbr) (drop lbr rest))
                           @ scrub_md_links hid (drop after rest))))"
  by pat_completeness auto
termination
  by (relation "measure (\<lambda>(hid, s). length s)") (auto dest!: find_str_bound)

declare scrub_md_links.simps [simp del]

function scrub_wikilinks :: "(string \<Rightarrow> bool) \<Rightarrow> string \<Rightarrow> string" where
  "scrub_wikilinks hid rest =
     (case find_str ''[['' rest of
        None \<Rightarrow> rest
      | Some start \<Rightarrow>
          (case find_str '']]'' (drop (start + 2) rest) of
             None \<Rightarrow> rest
           | Some len \<Rightarrow>
               (let inner = take len (drop (start + 2) rest);
                    hidden = hid (link_target inner);
                    front = take start rest;
                    lead = (if hidden \<and> front \<noteq> [] \<and> last front = CHR ''!'' then start - 1 else start)
                in take lead rest @ (if hidden then [] else take (2 + len + 2) (drop start rest))
                   @ scrub_wikilinks hid (drop (start + 2 + len + 2) rest))))"
  by pat_completeness auto
termination
  by (relation "measure (\<lambda>(hid, s). length s)") (auto dest!: find_str_bound)

declare scrub_wikilinks.simps [simp del]

definition scrub_links :: "(string \<Rightarrow> bool) \<Rightarrow> string \<Rightarrow> string" where
  "scrub_links hid text = scrub_md_links hid (scrub_wikilinks hid text)"

section \<open>Searching past a quiet prefix\<close>

fun no_pair :: "char \<Rightarrow> char \<Rightarrow> string \<Rightarrow> bool" where
  "no_pair c d (a # b # s) = (\<not> (a = c \<and> b = d) \<and> no_pair c d (b # s))"
| "no_pair c d s = True"

lemma no_pair_free: "c \<notin> set x \<Longrightarrow> no_pair c d x"
  by (induction c d x rule: no_pair.induct) auto

lemma no_pair_append:
  "no_pair c d (x @ y) \<longleftrightarrow> no_pair c d x \<and> no_pair c d y \<and> \<not> (x \<noteq> [] \<and> y \<noteq> [] \<and> last x = c \<and> hd y = d)"
proof (induction x)
  case (Cons a x)
  then show ?case by (cases x; cases y) auto
qed simp

lemma no_pair_Cons: "no_pair c d (a # y) \<longleftrightarrow> no_pair c d y \<and> \<not> (a = c \<and> y \<noteq> [] \<and> hd y = d)"
  by (cases y) auto

lemma find_pair_skip:
  assumes "no_pair c d x" and "\<not> (x \<noteq> [] \<and> y \<noteq> [] \<and> last x = c \<and> hd y = d)"
  shows "find_str [c, d] (x @ y) = map_option ((+) (length x)) (find_str [c, d] y)"
  using assms
proof (induction x)
  case Nil
  then show ?case by (simp add: option.map_ident)
next
  case (Cons a x)
  have "\<not> starts_with [c, d] (a # x @ y)"
    using Cons.prems by (cases x; cases y) (auto simp: starts_with_iff)
  moreover have "no_pair c d x" "\<not> (x \<noteq> [] \<and> y \<noteq> [] \<and> last x = c \<and> hd y = d)"
    using Cons.prems by (cases x; auto)+
  ultimately show ?case using Cons.IH by (simp add: option.map_comp comp_def)
qed

lemma find_here [simp]: "find_str p (p @ s) = Some 0"
  by (cases "p @ s") (simp_all, metis starts_with_append)

lemma find_pair_none: "no_pair c d x \<Longrightarrow> find_str [c, d] x = None"
  using find_pair_skip [of c d x "[]"] by simp

lemma find_char_skip: "c \<notin> set x \<Longrightarrow> find_str [c] (x @ c # y) = Some (length x)"
  by (induction x) (auto simp: starts_with_iff)

section \<open>Well-formed texts\<close>

datatype page_link = Wiki string | Md string string

fun link_text :: "page_link \<Rightarrow> string" where
  "link_text (Wiki inner) = ''[['' @ inner @ '']]''"
| "link_text (Md label target) = ''['' @ label @ '']('' @ target @ '')''"

fun link_hidden :: "(string \<Rightarrow> bool) \<Rightarrow> page_link \<Rightarrow> bool" where
  "link_hidden hid (Wiki inner) = hid (link_target inner)"
| "link_hidden hid (Md label target) = md_target_hidden hid target"

fun link_ok :: "page_link \<Rightarrow> bool" where
  "link_ok (Wiki inner) = (set inner \<inter> {CHR ''['', CHR '']''} = {})"
| "link_ok (Md label target) = (set label \<inter> {CHR ''['', CHR '']''} = {} \<and> set target \<inter> {CHR ''['', CHR '']'', CHR '')''} = {})"

definition plain_ok :: "string \<Rightarrow> bool" where
  "plain_ok t \<longleftrightarrow> set t \<inter> {CHR ''['', CHR '']''} = {} \<and> (t \<noteq> [] \<longrightarrow> hd t \<noteq> CHR ''('')"

text \<open>A text is a list of plain pieces, each with the link that follows it, and a plain tail.\<close>

definition links_ok :: "(string \<times> page_link) list \<Rightarrow> bool" where
  "links_ok ps \<longleftrightarrow> (\<forall>(t, l) \<in> set ps. plain_ok t \<and> link_ok l)"

definition text_of :: "(string \<times> page_link) list \<Rightarrow> string \<Rightarrow> string" where
  "text_of ps tail = concat (map (\<lambda>(t, l). t @ link_text l) ps) @ tail"

fun drop_bang :: "string \<Rightarrow> page_link \<Rightarrow> string" where
  "drop_bang t (Wiki inner) = (if t \<noteq> [] \<and> last t = CHR ''!'' then butlast t else t)"
| "drop_bang t (Md label target) = t"

definition without_hidden :: "(string \<Rightarrow> bool) \<Rightarrow> (string \<times> page_link) list \<Rightarrow> string \<Rightarrow> string" where
  "without_hidden hid ps tail =
     concat (map (\<lambda>(t, l). if link_hidden hid l then drop_bang t l else t @ link_text l) ps) @ tail"

text \<open>The text between the passes: the hidden links of the first kind are cut.\<close>

definition halfway :: "(string \<Rightarrow> bool) \<Rightarrow> (string \<times> page_link) list \<Rightarrow> string \<Rightarrow> string" where
  "halfway hid ps tail =
     concat (map (\<lambda>(t, l). case l of Wiki _ \<Rightarrow> if link_hidden hid l then drop_bang t l else t @ link_text l
                                 | Md _ _ \<Rightarrow> t @ link_text l) ps) @ tail"

lemmas text_simps = text_of_def without_hidden_def halfway_def links_ok_def

section \<open>The first pass\<close>

lemma wiki_pass:
  assumes "links_ok ps" and "plain_ok tail" and "no_pair (CHR ''['') (CHR ''['') x"
    and "x = [] \<or> last x = CHR '')''"
  shows "scrub_wikilinks hid (x @ text_of ps tail) = x @ halfway hid ps tail"
  using assms(1,3,4)
proof (induction ps arbitrary: x)
  case Nil
  have "no_pair (CHR ''['') (CHR ''['') (x @ tail)"
    using Nil assms(2) by (auto simp: no_pair_append plain_ok_def intro: no_pair_free)
  then show ?case
    by (subst scrub_wikilinks.simps) (simp add: text_simps find_pair_none)
next
  case (Cons p ps)
  obtain t l where p: "p = (t, l)" by (cases p)
  have t: "plain_ok t" "link_ok l" and ok: "links_ok ps" using Cons.prems(1) by (auto simp: p links_ok_def)
  have nt: "no_pair (CHR ''['') (CHR ''['') (x @ t)" "x @ t \<noteq> [] \<longrightarrow> last (x @ t) \<noteq> CHR ''[''"
    using Cons.prems(2,3) t(1) by (cases "t = []"; auto simp: no_pair_append plain_ok_def last_append intro: no_pair_free dest: last_in_set)+
  show ?case
  proof (cases l)
    case (Md label target)
    let ?z = "label @ '']('' @ target @ '')''" and ?y = "x @ t @ ''['' @ label @ '']('' @ target @ '')''"
    have z: "CHR ''['' \<notin> set ?z" using t(2) by (simp add: Md)
    then have "no_pair (CHR ''['') (CHR ''['') (CHR ''['' # ?z)"
      using no_pair_free [OF z] hd_in_set [of ?z] unfolding no_pair_Cons by metis
    then have "no_pair (CHR ''['') (CHR ''['') ?y"
      using nt no_pair_append [of "CHR ''[''" "CHR ''[''" "x @ t" "CHR ''['' # ?z"] by (cases "x @ t = []") simp_all
    then show ?thesis
      using Cons.IH [OF ok, of ?y] by (simp add: p Md text_simps)
  next
    case (Wiki inner)
    let ?rest = "text_of ps tail"
    have find: "find_str ''[['' (x @ t @ ''[['' @ inner @ '']]'' @ ?rest) = Some (length (x @ t))"
      using find_pair_skip [OF nt(1), of "''[['' @ inner @ '']]'' @ ?rest"] nt(2) find_here [of "''[[''"] by (auto split: if_splits)
    have inner: "inner = [] \<or> last inner \<noteq> CHR '']''" using t(2) by (auto simp: Wiki) (metis last_in_set)
    have close: "find_str '']]'' (inner @ '']]'' @ ?rest) = Some (length inner)"
      using find_pair_skip [of "CHR '']''" "CHR '']''" inner "'']]'' @ ?rest"] no_pair_free [of "CHR '']''" inner "CHR '']''"] t(2) find_here [of "'']]''"]
        inner
      by (auto simp: Wiki)
    have front: "(x @ t \<noteq> [] \<and> last (x @ t) = CHR ''!'') = (t \<noteq> [] \<and> last t = CHR ''!'')"
      using Cons.prems(3) by (auto simp: last_append)
    have four: "drop (4 + length inner) (''[['' @ inner @ '']]'' @ r) = r" for r by (simp add: eval_nat_numeral)
    have cut: "take (length x + length t - Suc 0) x @ take (length t - Suc 0) t = x @ butlast t" if "t \<noteq> []"
      using that by (cases t) (simp_all add: butlast_conv_take)
    have rec: "scrub_wikilinks hid ?rest = halfway hid ps tail"
      using Cons.IH [OF ok, of "[]"] by simp
    have "scrub_wikilinks hid (x @ t @ ''[['' @ inner @ '']]'' @ ?rest)
        = (if hid (link_target inner) \<and> t \<noteq> [] \<and> last t = CHR ''!'' then x @ butlast t else x @ t) @ (if hid (link_target inner) then [] else ''[['' @ inner @ '']]'') @ halfway hid ps tail"
      using find close front rec four cut by (subst scrub_wikilinks.simps) (simp add: Let_def)
    then show ?thesis
      by (auto simp: p Wiki text_simps)
  qed
qed

section \<open>The second pass\<close>

lemma no_pair_plain:
  assumes "no_pair (CHR '']'') (CHR ''('') x" and "plain_ok t"
  shows "no_pair (CHR '']'') (CHR ''('') (x @ t)"
  using assms by (auto simp: no_pair_append plain_ok_def intro: no_pair_free)

lemma plain_drop_bang: "plain_ok t \<Longrightarrow> plain_ok (drop_bang t l)"
  by (cases l; cases t) (auto simp: plain_ok_def dest: in_set_butlastD)

lemma md_step:
  assumes find: "find_str '']('' s = Some (length f)" and close: "find_str '')'' (target @ '')'' @ rest) = Some (length target)"
    and s: "s = f @ '']('' @ target @ '')'' @ rest" and f: "f = g @ ''['' @ label" and label: "CHR ''['' \<notin> set label"
  shows "scrub_md_links hid s
    = g @ (if md_target_hidden hid target then [] else ''['' @ label @ '']('' @ target @ '')'') @ scrub_md_links hid rest"
proof -
  have front: "take (length f) s = f" "drop (length f + 2) s = target @ '')'' @ rest" by (simp_all add: s)
  have pre: "takeWhile (\<lambda>c. c \<noteq> CHR ''['') (rev f) = rev label"
    unfolding f using label by (simp, subst takeWhile_append2) auto
  have g: "length f - length label - 1 = length g" "take (length g) s = g" "length label \<noteq> length f" by (simp_all add: s f)
  let ?after = "length f + 2 + length target + 1"
  have "drop ?after s = drop (length target + 1) (drop (length f + 2) s)" by (simp add: add.commute add.left_commute)
  then have after: "drop ?after s = rest" unfolding front by simp
  have "drop (length g) s = (''['' @ label @ '']('' @ target @ '')'') @ rest" by (simp add: s f)
  moreover have "?after - length g = length (''['' @ label @ '']('' @ target @ '')'')" by (simp add: f)
  ultimately have mid: "take (?after - length g) (drop (length g) s) = ''['' @ label @ '']('' @ target @ '')''"
    by (simp only: append_eq_conv_conj [symmetric] take_append) simp
  have target: "take (length target) (target @ '')'' @ rest) = target" by simp
  show ?thesis
    by (subst scrub_md_links.simps)
      (simp only: find option.case front close Let_def pre length_rev g if_False after mid target cong: if_cong)
qed

lemma md_pass:
  assumes "links_ok ps" and "plain_ok tail" and "no_pair (CHR '']'') (CHR ''('') x"
  shows "scrub_md_links hid (x @ halfway hid ps tail) = x @ without_hidden hid ps tail"
  using assms(1,3)
proof (induction ps arbitrary: x)
  case Nil
  then show ?case
    using no_pair_plain [OF Nil(2) assms(2)] by (subst scrub_md_links.simps) (simp add: text_simps find_pair_none)
next
  case (Cons p ps)
  obtain t l where p: "p = (t, l)" by (cases p)
  have t: "plain_ok t" "link_ok l" and ok: "links_ok ps" using Cons.prems(1) by (auto simp: p links_ok_def)
  note quiet = no_pair_plain [OF Cons.prems(2)]
  show ?case
  proof (cases l)
    case (Wiki inner)
    have "no_pair (CHR '']'') (CHR ''('') (x @ t @ ''[['' @ inner @ '']]'')"
    proof -
      have "no_pair (CHR '']'') (CHR ''('') (''[['' @ inner)"
        using t(2) by (intro no_pair_free) (simp add: Wiki)
      then have "no_pair (CHR '']'') (CHR ''('') ((''[['' @ inner) @ '']]'')"
        by (subst no_pair_append) simp
      then show ?thesis
        using quiet [OF t(1)] no_pair_append [of "CHR '']''" "CHR ''(''" "x @ t" "''[['' @ inner @ '']]''"] by simp
    qed
    then show ?thesis
      using Cons.IH [OF ok, of "x @ t @ ''[['' @ inner @ '']]''"] Cons.IH [OF ok quiet [OF plain_drop_bang [OF t(1), of l]]]
      by (simp add: p Wiki text_simps)
  next
    case (Md label target)
    let ?rest = "halfway hid ps tail" and ?front = "x @ t @ ''['' @ label"
    have lab: "CHR '']'' \<notin> set (''['' @ label)" "CHR ''['' \<notin> set label" using t(2) by (simp_all add: Md)
    have "no_pair (CHR '']'') (CHR ''('') ?front"
      using quiet [OF t(1)] no_pair_free [OF lab(1)] no_pair_append [of "CHR '']''" "CHR ''(''" "x @ t" "''['' @ label"] by simp
    then have find: "find_str '']('' (x @ t @ CHR ''['' # label @ '']('' @ target @ '')'' @ ?rest) = Some (length ?front)"
      using find_pair_skip [of "CHR '']''" "CHR ''(''" ?front "'']('' @ target @ '')'' @ ?rest"] find_here [of "'']('' " "target @ '')'' @ ?rest"]
      by (simp split: if_splits)
    have close: "find_str '')'' (target @ CHR '')'' # ?rest) = Some (length target)"
      using t(2) by (intro find_char_skip) (simp add: Md)
    have rec: "scrub_md_links hid ?rest = without_hidden hid ps tail" using Cons.IH [OF ok, of "[]"] by simp
    have step: "scrub_md_links hid (?front @ '']('' @ target @ '')'' @ ?rest)
        = (x @ t) @ (if md_target_hidden hid target then [] else ''['' @ label @ '']('' @ target @ '')'') @ without_hidden hid ps tail"
      unfolding rec [symmetric] using find close lab(2) by (intro md_step [where f = ?front]) simp_all
    have "x @ halfway hid (p # ps) tail = ?front @ '']('' @ target @ '')'' @ ?rest" by (simp add: p Md halfway_def)
    moreover have "x @ without_hidden hid (p # ps) tail
        = (x @ t) @ (if md_target_hidden hid target then [] else ''['' @ label @ '']('' @ target @ '')'') @ without_hidden hid ps tail"
      by (simp add: p Md without_hidden_def)
    ultimately show ?thesis using step by (simp only:)
  qed
qed

lemma scrubbed_text:
  assumes "links_ok ps" and "plain_ok tail"
  shows "scrub_links hid (text_of ps tail) = without_hidden hid ps tail"
  using wiki_pass [OF assms, of "[]" hid] md_pass [OF assms, of "[]" hid] by (simp add: scrub_links_def)

lemma plain_append: "plain_ok x \<Longrightarrow> plain_ok t \<Longrightarrow> plain_ok (x @ t)"
  by (cases x) (auto simp: plain_ok_def)

text \<open>What is left is a well-formed text again, with the links that are not hidden.\<close>

lemma remaining_text:
  assumes "links_ok ps" and "plain_ok tail" and "plain_ok x"
  shows "\<exists>qs tl. links_ok qs \<and> plain_ok tl \<and> x @ without_hidden hid ps tail = text_of qs tl
    \<and> map snd qs = filter (\<lambda>l. \<not> link_hidden hid l) (map snd ps)"
  using assms(1,3)
proof (induction ps arbitrary: x)
  case Nil
  then show ?case using plain_append [OF Nil(2) assms(2)]
    by (intro exI [of _ "[]"] exI [of _ "x @ tail"]) (simp add: text_simps)
next
  case (Cons p ps)
  obtain t l where p: "p = (t, l)" by (cases p)
  have t: "plain_ok t" "link_ok l" and ok: "links_ok ps" using Cons.prems(1) by (auto simp: p links_ok_def)
  show ?case
  proof (cases "link_hidden hid l")
    case True
    with Cons.IH [OF ok plain_append [OF Cons.prems(2) plain_drop_bang [OF t(1), of l]]] show ?thesis
      by (simp add: p without_hidden_def)
  next
    case False
    obtain qs tl where "links_ok qs" "plain_ok tl" "without_hidden hid ps tail = text_of qs tl"
      "map snd qs = filter (\<lambda>l. \<not> link_hidden hid l) (map snd ps)"
      using Cons.IH [OF ok, of "[]"] by (auto simp: plain_ok_def)
    then show ?thesis
      using False t plain_append [OF Cons.prems(2) t(1)]
      by (intro exI [of _ "(x @ t, l) # qs"] exI [of _ tl]) (simp add: p text_simps)
  qed
qed

section \<open>Properties\<close>

text \<open>
  C19. In a well-formed text exactly the links that name a hidden page are cut, an embedded page with
  its exclamation mark; every other character stays. What is left is well formed, its links are the
  visible ones in order, and scrubbing it again changes nothing.
\<close>

theorem hidden_links_are_cut:
  assumes "links_ok ps" and "plain_ok tail"
  shows "scrub_links hid (text_of ps tail) = without_hidden hid ps tail
    \<and> (\<exists>qs tl. links_ok qs \<and> plain_ok tl \<and> without_hidden hid ps tail = text_of qs tl
        \<and> map snd qs = filter (\<lambda>l. \<not> link_hidden hid l) (map snd ps))
    \<and> scrub_links hid (scrub_links hid (text_of ps tail)) = scrub_links hid (text_of ps tail)"
proof -
  obtain qs tl where q: "links_ok qs" "plain_ok tl" "without_hidden hid ps tail = text_of qs tl"
    "map snd qs = filter (\<lambda>l. \<not> link_hidden hid l) (map snd ps)"
    using remaining_text [OF assms, of "[]" hid] by (auto simp: plain_ok_def)
  have "\<not> link_hidden hid l" if "(t, l) \<in> set qs" for t l
    using arg_cong [OF q(4), of set] that by force
  then have "without_hidden hid qs tl = text_of qs tl"
    unfolding without_hidden_def text_of_def by (intro arg_cong2 [where f = append] arg_cong [where f = concat] map_cong) auto
  then show ?thesis
    using q scrubbed_text [OF assms, of hid] scrubbed_text [OF q(1,2), of hid] by auto
qed

theorem hidden_links_are_cut_witness:
  "scrub_links (\<lambda>n. n = ''Secret'') ''a ![[Secret|x]], [[Open]] and [text](Secret.md).'' = ''a , [[Open]] and .''"
proof -
  let ?ps = "[(''a !'', Wiki ''Secret|x''), ('', '', Wiki ''Open''), ('' and '', Md ''text'' ''Secret.md'')]"
  have "links_ok ?ps" "plain_ok ''.''" by (simp_all add: links_ok_def plain_ok_def)
  from hidden_links_are_cut [OF this, of "\<lambda>n. n = ''Secret''"]
  show ?thesis by (simp add: text_of_def without_hidden_def link_target_def md_target_hidden_def strip_suffix_def starts_with_def)
qed

text \<open>
  Outside of well-formed texts links to hidden pages survive: an unclosed \<open>[[\<close> in front hides the
  link behind it from the scan, and cutting an embedded page can put two brackets together.
\<close>

theorem hidden_links_can_survive:
  "scrub_links (\<lambda>n. n = ''Secret'') ''see [[ and [[Secret]]'' = ''see [[ and [[Secret]]''"
  "scrub_links (\<lambda>n. n = ''Secret'') ''[![[Secret]][Secret]]'' = ''[[Secret]]''"
  by code_simp+

end
