(* ===== verification/Float_Ops.thy ===== *)
theory Float_Ops
  imports Float32
begin

unbundle bit_operations_syntax

text \<open>
  The rest of Rust's float arithmetic that the presence components use: division and square
  root of \<open>f32\<close>, \<open>abs\<close>, \<open>clamp\<close>, the cast to \<open>i16\<close>, and the part of \<open>f64\<close> needed for a speed
  (a conversion from \<open>u64\<close>, a square root, a division and the cast to \<open>f32\<close>). Quotients and
  roots are computed as integers with enough further bits and a last bit that is set when
  something was cut off, so that rounding to nearest sees on which side of a tie the exact
  value lies.

  A non-negative finite \<open>f64\<close> is a pair \<open>(m, e)\<close> for \<open>m * 2^e\<close> with at most 53 bits in \<open>m\<close>. The
  exponent is unbounded: the values here come from finite \<open>f32\<close> and from \<open>u64\<close>, and their
  roots and quotients stay far inside the range of \<open>f64\<close>.
\<close>

section \<open>Integer square root\<close>

function isqrt :: "nat \<Rightarrow> nat" where
  "isqrt n = (if n = 0 then 0
              else let r = 2 * isqrt (n div 4) in if (r + 1) * (r + 1) \<le> n then r + 1 else r)"
  by pat_completeness auto
termination
  by (relation "measure id") auto

declare isqrt.simps [simp del]

lemma isqrt_spec: "isqrt n * isqrt n \<le> n \<and> n < (isqrt n + 1) * (isqrt n + 1)"
proof (induction n rule: isqrt.induct)
  case (1 n)
  show ?case
  proof (cases "n = 0")
    case False
    define s where "s = isqrt (n div 4)"
    have s: "s * s \<le> n div 4" "n div 4 < (s + 1) * (s + 1)" using 1 False by (simp_all add: s_def)
    have "4 * (s * s) \<le> n" using s(1) by linarith
    moreover have "n < 4 * ((s + 1) * (s + 1))" using s(2) by linarith
    moreover have "isqrt n = (if (2 * s + 1) * (2 * s + 1) \<le> n then 2 * s + 1 else 2 * s)"
      using False by (subst isqrt.simps) (simp add: s_def Let_def)
    ultimately show ?thesis by (auto simp: algebra_simps)
  qed (simp add: isqrt.simps)
qed

text \<open>Twice the root, with the last bit set when the root is not exact.\<close>

definition sticky_root :: "nat \<Rightarrow> nat" where
  "sticky_root n = (let r = isqrt n in 2 * r + (if r * r = n then 0 else 1))"

lemma isqrt_mono: "m \<le> n \<Longrightarrow> isqrt m \<le> isqrt n"
proof (rule ccontr)
  assume le: "m \<le> n" and "\<not> isqrt m \<le> isqrt n"
  then have "isqrt n + 1 \<le> isqrt m" by simp
  from mult_le_mono [OF this this]
  have "(isqrt n + 1) * (isqrt n + 1) \<le> isqrt m * isqrt m" .
  with isqrt_spec [of m] isqrt_spec [of n] le show False by linarith
qed

lemma sticky_root_mono: "m \<le> n \<Longrightarrow> sticky_root m \<le> sticky_root n"
proof -
  assume le: "m \<le> n"
  show ?thesis
  proof (cases "isqrt m = isqrt n")
    case True
    then show ?thesis using le isqrt_spec [of m] by (auto simp: sticky_root_def Let_def)
  next
    case False
    then have "isqrt m + 1 \<le> isqrt n" using isqrt_mono [OF le] by simp
    then show ?thesis by (simp add: sticky_root_def Let_def)
  qed
qed

section \<open>Division and square root of f32\<close>

definition sticky_div :: "nat \<Rightarrow> nat \<Rightarrow> nat" where
  "sticky_div a b = 2 * (a div b) + (if a mod b = 0 then 0 else 1)"

definition f32_zero_of :: "bool \<Rightarrow> f32" where
  "f32_zero_of neg = (if neg then 0x80000000 else 0)"

definition f32_inf_of :: "bool \<Rightarrow> f32" where
  "f32_inf_of neg = (if neg then 0xFF800000 else F32_INFINITY)"

definition f32_div :: "f32 \<Rightarrow> f32 \<Rightarrow> f32" where
  "f32_div a b =
     (let neg = (f32_neg a \<noteq> f32_neg b)
      in if f32_is_nan a \<or> f32_is_nan b then F32_NAN
         else if f32_is_infinite a then (if f32_is_infinite b then F32_NAN else f32_inf_of neg)
         else if f32_is_infinite b then f32_zero_of neg
         else if f32_is_zero b then (if f32_is_zero a then F32_NAN else f32_inf_of neg)
         else f32_round neg (sticky_div (f32_mag a * 2 ^ 150) (f32_mag b)) 2)"

definition f32_sqrt :: "f32 \<Rightarrow> f32" where
  "f32_sqrt a =
     (if f32_is_nan a then F32_NAN
      else if f32_is_zero a then a
      else if f32_neg a then F32_NAN
      else if f32_is_infinite a then a
      else f32_round False (sticky_root (f32_mag a * 2 ^ 149)) 1)"

definition f32_abs :: "f32 \<Rightarrow> f32" where
  "f32_abs a = a AND 0x7FFFFFFF"

definition f32_is_finite :: "f32 \<Rightarrow> bool" where
  "f32_is_finite a = (f32_exp a \<noteq> 255)"

text \<open>\<open>f32::clamp\<close> and the pattern of \<open>(v).round() as i16\<close> for a value already clamped to the range.\<close>

definition f32_clamp :: "f32 \<Rightarrow> f32 \<Rightarrow> f32 \<Rightarrow> f32" where
  "f32_clamp lo hi v = (if f32_lt v lo then lo else if f32_lt hi v then hi else v)"

text \<open>\<open>f32::round\<close>: to the nearest integer, halves away from zero, as that integer.\<close>

definition round_half_away :: "f32 \<Rightarrow> int" where
  "round_half_away v =
     (let k = int ((2 * f32_mag v + 2 ^ 149) div 2 ^ 150) in if f32_neg v then - k else k)"

section \<open>The part of f64\<close>

type_synonym f64_pos = "nat \<times> int"

definition f64_round :: "nat \<Rightarrow> int \<Rightarrow> f64_pos" where
  "f64_round n e = (let q = bit_length n - 53 in (round_shift n q, e + int q))"

definition f64_of_f32 :: "f32 \<Rightarrow> f64_pos" where
  "f64_of_f32 x = (f32_mag x, - 149)"

definition f64_of_u64 :: "u64 \<Rightarrow> f64_pos" where
  "f64_of_u64 w = f64_round (unat w) 0"

fun f64_sqrt :: "f64_pos \<Rightarrow> f64_pos" where
  "f64_sqrt (m, e) =
     (if m = 0 then (0, 0)
      else let j = (if even e then 200 else 201)
           in f64_round (sticky_root (m * 2 ^ j)) ((e - int j) div 2 - 1))"

fun f64_div :: "f64_pos \<Rightarrow> f64_pos \<Rightarrow> f64_pos" where
  "f64_div (m, e) (m', e') = (if m = 0 then (0, 0) else f64_round (sticky_div (m * 2 ^ 200) m') (e - e' - 201))"

fun f32_of_f64 :: "f64_pos \<Rightarrow> f32" where
  "f32_of_f64 (m, e) =
     (if - 149 \<le> e then f32_round False (m * 2 ^ nat (e + 149)) 0
      else f32_round False m (nat (- 149 - e)))"

section \<open>Lemmas\<close>

lemma f32_abs_fields: "f32_exp (f32_abs x) = f32_exp x" "f32_man (f32_abs x) = f32_man x" "\<not> f32_neg (f32_abs x)"
proof -
  have "f32_abs x = take_bit 31 x" by (simp add: f32_abs_def take_bit_eq_mask mask_eq_exp_minus_1)
  then show "f32_exp (f32_abs x) = f32_exp x" "f32_man (f32_abs x) = f32_man x" "\<not> f32_neg (f32_abs x)"
    by (simp_all add: f32_exp_def f32_man_def f32_neg_def drop_bit_take_bit bit_take_bit_iff)
qed

lemma f32_scaled_abs: "f32_scaled (f32_abs x) = \<bar>f32_scaled x\<bar>"
  by (simp add: f32_scaled_def f32_mag_def f32_abs_fields)

lemma f32_is_nan_abs [simp]: "f32_is_nan (f32_abs x) = f32_is_nan x"
  by (simp add: f32_is_nan_def f32_abs_fields)

lemma f32_exp_255: "f32_exp x = 255 \<Longrightarrow> 2 ^ 277 \<le> \<bar>f32_scaled x\<bar>"
  by (auto simp: f32_scaled_def f32_mag_def)

lemma f32_finiteI: "\<bar>f32_scaled x\<bar> < 2 ^ 277 \<Longrightarrow> f32_is_finite x"
  using f32_exp_255 [of x] by (auto simp: f32_is_finite_def)

lemma f32_clamp_id: "f32_le lo v \<Longrightarrow> f32_le v hi \<Longrightarrow> f32_clamp lo hi v = v"
  by (simp add: f32_clamp_def f32_le_def f32_lt_def)

text \<open>The square root is monotone on the patterns of positive numbers.\<close>

lemma isqrt_eqI:
  assumes "r * r \<le> n" and "n < (r + 1) * (r + 1)"
  shows "isqrt n = r"
proof (rule antisym)
  show "isqrt n \<le> r"
  proof (rule ccontr)
    assume "\<not> isqrt n \<le> r"
    then have "r + 1 \<le> isqrt n" by simp
    from mult_le_mono [OF this this] isqrt_spec [of n] assms(2) show False by linarith
  qed
  show "r \<le> isqrt n"
  proof (rule ccontr)
    assume "\<not> r \<le> isqrt n"
    then have "isqrt n + 1 \<le> r" by simp
    from mult_le_mono [OF this this] isqrt_spec [of n] assms(1) show False by linarith
  qed
qed

lemma f32_round_root:
  assumes "2 ^ 25 \<le> N"
  shows "f32_round False N 1 = word_of_nat (min (round_pattern N - 2 ^ 23) 0x7F800000)"
proof -
  have "0 < N" using assms by (rule order_less_le_trans [rotated]) simp
  from bit_length_bounds [OF this] have "N < 2 ^ bit_length N" by simp
  then have "(2 :: nat) ^ 25 < 2 ^ bit_length N" using assms by linarith
  then have "25 < bit_length N" by (simp only: power_strict_increasing_iff)
  then have "max 1 (bit_length N - 24) = bit_length N - 24" "2 ^ 23 \<le> (bit_length N - 24) * 2 ^ 23" by simp_all
  then show ?thesis by (simp add: f32_round_def round_pattern_def Let_def algebra_simps)
qed

lemma sticky_root_large: "0 < m \<Longrightarrow> 2 ^ 25 \<le> sticky_root (m * 2 ^ 149)"
proof -
  assume "0 < m"
  then have "(2 :: nat) ^ 48 \<le> m * 2 ^ 149" by (cases m) simp_all
  from isqrt_mono [OF this] have "isqrt (2 ^ 48) \<le> isqrt (m * 2 ^ 149)" .
  moreover have "isqrt (2 ^ 48) = 2 ^ 24" by (rule isqrt_eqI) simp_all
  ultimately show ?thesis by (simp add: sticky_root_def Let_def)
qed

lemma f32_sqrt_positive:
  assumes "f32_nonneg a" and "a \<noteq> 0" and "a \<noteq> 0x7F800000"
  shows "f32_sqrt a = word_of_nat (min (round_pattern (sticky_root (f32_mag a * 2 ^ 149)) - 2 ^ 23) 0x7F800000)"
proof -
  note f = f32_nonneg_facts [OF assms(1)]
  have "f32_mag a \<noteq> 0"
  proof
    assume "f32_mag a = 0"
    then have "unat a = 0" using round_pattern_mag [OF assms(1)] by (simp add: round_pattern_small)
    then have "a = 0" by (intro unsigned_word_eqI) simp
    then show False using assms(2) by simp
  qed
  then have pos: "0 < f32_mag a" by simp
  then have "\<not> f32_is_zero a" by (cases "f32_exp a = 0") (auto simp: f32_is_zero_def f32_mag_def)
  then have "f32_sqrt a = f32_round False (sticky_root (f32_mag a * 2 ^ 149)) 1"
    using f assms(3) by (simp add: f32_sqrt_def)
  then show ?thesis using f32_round_root [OF sticky_root_large [OF pos]] by simp
qed

lemma word_of_nat_mono: "m \<le> n \<Longrightarrow> n < 2 ^ 32 \<Longrightarrow> (word_of_nat m :: f32) \<le> word_of_nat n"
  by (simp add: word_le_nat_alt unat_of_nat)

lemma f32_sqrt_mono:
  assumes "f32_nonneg a" and "f32_nonneg b" and "a \<noteq> 0" and "b \<noteq> 0x7F800000" and "a \<le> b"
  shows "f32_sqrt a \<le> f32_sqrt b"
proof -
  have a: "a \<noteq> 0x7F800000" using assms(2,4,5) by (metis order_antisym)
  have b: "b \<noteq> 0" using assms(3,5) by (metis word_le_0_iff)
  have "f32_mag a \<le> f32_mag b" using f32_mag_mono [OF assms(1,2)] assms(5) by simp
  then have "sticky_root (f32_mag a * 2 ^ 149) \<le> sticky_root (f32_mag b * 2 ^ 149)"
    by (intro sticky_root_mono mult_le_mono1)
  from round_pattern_mono [OF this] show ?thesis
    unfolding f32_sqrt_positive [OF assms(1,3) a] f32_sqrt_positive [OF assms(2) b assms(4)]
    by (intro word_of_nat_mono) (auto intro: min.mono)
qed

lemma f32_sqrt_nonneg:
  assumes a: "f32_nonneg a"
  shows "f32_nonneg (f32_sqrt a)"
proof (cases "a = 0 \<or> a = 0x7F800000")
  case True
  then have "f32_sqrt a = a"
    using f32_nonneg_facts [OF a] by (auto simp: f32_sqrt_def f32_is_zero_def f32_exp_def f32_man_def)
  then show ?thesis using a by simp
next
  case False
  then have "f32_sqrt a \<le> word_of_nat 0x7F800000"
    unfolding f32_sqrt_positive [OF a conjunct1 [OF False [unfolded de_Morgan_disj]] conjunct2 [OF False [unfolded de_Morgan_disj]]]
    by (intro word_of_nat_mono) simp_all
  then show ?thesis by simp
qed

section \<open>Finite results\<close>

text \<open>A rounded value is finite when it is small, and infinite when it is large.\<close>

lemma f32_round_fields:
  defines "p N d \<equiv> round_shift N (max d (bit_length N - 24)) + (max d (bit_length N - 24) - d) * 2 ^ 23"
  shows "f32_is_finite (f32_round neg N d) \<longleftrightarrow> p N d < 0x7F800000"
proof -
  let ?pat = "min (p N d) 0x7F800000"
  have le: "?pat \<le> 0x7F800000" by simp
  have "unat (f32_round neg N d) = (if neg then 0x80000000 + ?pat else ?pat)"
    using le by (simp add: f32_round_def p_def Let_def unat_of_nat take_bit_nat_eq_self)
  moreover have "(256 * 2 ^ 23 + ?pat) div 2 ^ 23 = 256 + ?pat div 2 ^ 23" by (rule div_mult_self3) simp
  moreover have "?pat div 2 ^ 23 \<le> 0x7F800000 div 2 ^ 23" using le by (rule div_le_mono)
  ultimately have "f32_exp (f32_round neg N d) = ?pat div 2 ^ 23"
    by (cases neg) (simp_all add: f32_exp_mod)
  then show ?thesis using le by (auto simp: f32_is_finite_def min_def)
qed

lemma round_shift_le: "N < 2 ^ (q + k) \<Longrightarrow> round_shift N q \<le> 2 ^ k"
  using less_mult_imp_div_less [of N "2 ^ k" "2 ^ q"] by (auto simp: round_shift_def Let_def power_add mult.commute)

lemma f32_round_small:
  assumes "N < 2 ^ (276 + d)"
  shows "f32_is_finite (f32_round neg N d)"
proof -
  have "bit_length N \<le> 276 + d"
  proof (cases "N = 0")
    case False
    then have "2 ^ (bit_length N - 1) < (2::nat) ^ (276 + d)" using bit_length_bounds [of N] assms by linarith
    then have "bit_length N - 1 < 276 + d" by (simp only: power_strict_increasing_iff)
    then show ?thesis by simp
  qed (simp add: bit_length.simps)
  then have q: "max d (bit_length N - 24) - d \<le> 252" by simp
  have "N < 2 ^ (max d (bit_length N - 24) + 24)"
  proof (cases "N = 0")
    case False
    have "(2::nat) ^ bit_length N \<le> 2 ^ (max d (bit_length N - 24) + 24)" by (rule power_increasing) simp_all
    then show ?thesis using bit_length_bounds [of N] False by linarith
  qed simp
  then have "round_shift N (max d (bit_length N - 24)) \<le> 2 ^ 24" by (rule round_shift_le)
  moreover have "(max d (bit_length N - 24) - d) * 2 ^ 23 \<le> 252 * 2 ^ 23" using q by (rule mult_le_mono1)
  ultimately show ?thesis unfolding f32_round_fields by simp
qed

lemma f32_round_large:
  assumes "2 ^ (277 + d) \<le> N"
  shows "\<not> f32_is_finite (f32_round neg N d)"
proof -
  have N: "0 < N" using assms by (rule order_less_le_trans [rotated]) simp
  then have "(2::nat) ^ (277 + d) < 2 ^ bit_length N" using bit_length_bounds [of N] assms by linarith
  then have b: "277 + d < bit_length N" by (simp only: power_strict_increasing_iff)
  define q where "q = bit_length N - 24"
  have q: "max d (bit_length N - 24) = q" "254 \<le> q - d" "bit_length N = q + 24" using b by (simp_all add: q_def)
  have "2 ^ 23 * 2 ^ q \<le> N" using bit_length_bounds [OF N] q(3) by (simp add: power_add mult.commute)
  from round_shift_mono [OF this, of q] have "2 ^ 23 \<le> round_shift N q" by (simp only: round_shift_exact)
  moreover have "254 * 2 ^ 23 \<le> (q - d) * 2 ^ 23" using q(2) by (rule mult_le_mono1)
  ultimately show ?thesis unfolding f32_round_fields q(1) by simp
qed

lemma f32_add_finite: "f32_is_finite (f32_add a b) \<Longrightarrow> f32_is_finite a \<and> f32_is_finite b"
  by (auto simp: f32_add_def f32_is_finite_def f32_is_nan_def f32_is_infinite_def F32_NAN_def f32_exp_def f32_man_def split: if_splits)

lemma f32_square_finite:
  assumes "f32_is_finite (f32_mul c c)"
  shows "f32_is_finite c" and "f32_mag c < 2 ^ 213"
proof -
  show fin: "f32_is_finite c"
    using assms by (auto simp: f32_mul_def f32_is_finite_def f32_is_nan_def f32_is_infinite_def f32_is_zero_def
        F32_NAN_def F32_INFINITY_def f32_exp_def f32_man_def split: if_splits)
  then have "f32_mul c c = f32_round False (f32_mag c * f32_mag c) 149"
    by (simp add: f32_mul_def f32_is_finite_def f32_is_nan_def f32_is_infinite_def)
  then have "\<not> 2 ^ (277 + 149) \<le> f32_mag c * f32_mag c" using assms f32_round_large by metis
  moreover have "2 ^ (277 + 149) \<le> f32_mag c * f32_mag c" if "2 ^ 213 \<le> f32_mag c"
    using mult_le_mono [OF that that] by (simp flip: power_add)
  ultimately show "f32_mag c < 2 ^ 213" by (meson not_le)
qed

end
