(* ===== verification/Float64.thy ===== *)
theory Float64
  imports Float_Ops
begin

text \<open>
  \<open>f64\<close> as its 64-bit pattern, as far as thresholds and scores read from text need it: comparison
  and \<open>str::parse\<close>. A decimal \<open>m * 10^e\<close> is rounded once, to nearest with ties to even. The parser
  accepts an optional sign, digits with at most one point among or around them, an optional
  exponent, and \<open>inf\<close>, \<open>infinity\<close> and \<open>nan\<close> in any case; white space is refused. (The library stops
  reading an exponent after some 65536, which only texts of that length could tell.)
\<close>

section \<open>Comparison\<close>

definition f64_is_nan :: "u64 \<Rightarrow> bool" where
  "f64_is_nan x = (unat (take_bit 63 x) > 0x7FF0000000000000)"

definition f64_key :: "u64 \<Rightarrow> int" where
  "f64_key x = (if bit x 63 then - int (unat (take_bit 63 x)) else int (unat (take_bit 63 x)))"

definition f64_le :: "u64 \<Rightarrow> u64 \<Rightarrow> bool" where
  "f64_le a b = (\<not> f64_is_nan a \<and> \<not> f64_is_nan b \<and> f64_key a \<le> f64_key b)"

section \<open>Parsing\<close>

text \<open>The pattern nearest to \<open>N * 2^-(1074 + d)\<close>, as \<open>f32_round\<close> finds it for \<open>f32\<close>.\<close>

definition f64_pattern :: "bool \<Rightarrow> nat \<Rightarrow> nat \<Rightarrow> u64" where
  "f64_pattern neg N d =
     (let q = max d (bit_length N - 53);
          pat = min (round_shift N q + (q - d) * 2 ^ 52) 0x7FF0000000000000
      in word_of_nat (if neg then 0x8000000000000000 + pat else pat))"

definition f64_of_decimal :: "bool \<Rightarrow> nat \<Rightarrow> int \<Rightarrow> u64" where
  "f64_of_decimal neg m e =
     (let num = m * 10 ^ nat e; den = 10 ^ nat (- e) in f64_pattern neg (sticky_div (num * 2 ^ 1075) den) 2)"

definition is_digit :: "char \<Rightarrow> bool" where
  "is_digit c = (c \<in> set ''0123456789'')"

definition digits_value :: "string \<Rightarrow> nat" where
  "digits_value ds = foldl (\<lambda>n c. 10 * n + (of_char c - 48)) 0 ds"

fun parse_sign :: "string \<Rightarrow> bool \<times> string" where
  "parse_sign (c # s) = (if c = CHR ''-'' then (True, s) else if c = CHR ''+'' then (False, s) else (False, c # s))"
| "parse_sign [] = (False, [])"

definition parse_exponent :: "string \<Rightarrow> int option" where
  "parse_exponent s =
     (if s = [] then Some 0
      else if hd s \<notin> {CHR ''e'', CHR ''E''} then None
      else let (neg, ds) = parse_sign (tl s)
           in if ds = [] \<or> \<not> list_all is_digit ds then None
              else Some (if neg then - int (digits_value ds) else int (digits_value ds)))"

definition parse_special :: "bool \<Rightarrow> string \<Rightarrow> u64 option" where
  "parse_special neg s =
     (let l = to_ascii_lowercase s; sgn = (if neg then 0x8000000000000000 else 0)
      in if l = ''inf'' \<or> l = ''infinity'' then Some (sgn + 0x7FF0000000000000)
         else if l = ''nan'' then Some (sgn + 0x7FF8000000000000) else None)"

definition parse_f64 :: "string \<Rightarrow> u64 option" where
  "parse_f64 text =
     (let (neg, s) = parse_sign text;
          ip = takeWhile is_digit s; r = dropWhile is_digit s;
          pt = (r \<noteq> [] \<and> hd r = CHR ''.'');
          fp = (if pt then takeWhile is_digit (tl r) else []);
          rest = (if pt then dropWhile is_digit (tl r) else r)
      in if ip = [] \<and> fp = [] then parse_special neg s
         else map_option (\<lambda>e. f64_of_decimal neg (digits_value (ip @ fp)) (e - int (length fp))) (parse_exponent rest))"

end
