(* ===== verification/Graph_View.thy ===== *)
theory Graph_View
  imports Client_Manager Pathfinding Page_Links Float64
begin

text \<open>
  The graph document as one caller may see it. \<open>visible_subgraph\<close> with \<open>PageNames\<close> from
  \<open>crates/visionclaw-domain/src/utils/visibility_filter.rs\<close>, the gate built on it in
  \<open>src/handlers/graph_access.rs\<close>, a client's node filter (\<open>src/actors/client_filter.rs\<close>) and the
  reply to a filter update (\<open>src/actors/client_coordinator_actor.rs\<close>), and the path queries of a
  caller with a gate (\<open>handlers/semantic_handler.rs\<close>, \<open>analytics/visible_analytics.rs\<close>).

  Of \<open>Node\<close>, \<open>Edge\<close> and \<open>Metadata\<close> the records keep the fields these functions read, write or
  return; the others are copied along and are left out. The metadata store and the table of ids are
  lists in iteration order. \<open>str::to_lowercase\<close> follows the case tables of Unicode; it is the
  parameter \<open>lower\<close>, of which nothing is assumed.
\<close>

section \<open>The graph document\<close>

record graph_node =
  gn_id :: u32
  gn_metadata_id :: string
  gn_label :: string
  gn_data :: binary_node_data
  gn_owl_class_iri :: "string option"
  gn_metadata :: "string \<rightharpoonup> string"
  gn_node_type :: "string option"

record document_edge = graph_edge +
  de_id :: string
  de_edge_type :: "string option"
  de_metadata :: "(string \<rightharpoonup> string) option"

record metadata_row =
  mr_file_name :: string
  mr_topic_counts :: "(string \<times> nat) list"
  mr_quality_score :: "f64 option"
  mr_authority_score :: "f64 option"
  mr_belongs_to_domain :: "string list"
  mr_is_subclass_of :: "string list"
  mr_definition :: "string option"

record graph_document =
  doc_nodes :: "graph_node list"
  doc_edges :: "document_edge list"
  doc_metadata :: "(string \<times> metadata_row) list"
  doc_id_to_metadata :: "(string \<times> string) list"

definition of_node :: "graph_node \<Rightarrow> node_visibility" where
  "of_node n = visibility_of_node (gn_id n) (gn_metadata n)"

definition node_is_visible :: "string option \<Rightarrow> graph_node \<Rightarrow> bool" where
  "node_is_visible session n = is_visible_to session (of_node n)"

section \<open>Page names\<close>

record page_names =
  visible_names :: "string set"
  hidden_names :: "string set"

definition norm_name :: "(string \<Rightarrow> string) \<Rightarrow> string \<Rightarrow> string" where
  "norm_name lower s = lower (trim_end_matches ''.md'' (trim s))"

definition node_names :: "graph_node \<Rightarrow> string list" where
  "node_names n = [gn_metadata_id n, gn_label n]"

definition hidden_node_names :: "graph_node \<Rightarrow> string list" where
  "hidden_node_names n = node_names n @ (case gn_owl_class_iri n of Some i \<Rightarrow> [i] | None \<Rightarrow> [])
     @ List.map_filter (gn_metadata n) [''file_name'', ''page_iri'', ''class_iri'']"

definition new_page_names ::
    "(string \<Rightarrow> string) \<Rightarrow> graph_document \<Rightarrow> graph_node list \<Rightarrow> string set \<Rightarrow> page_names" where
  "new_page_names lower g kept kept_metadata =
     (let kept_ids = gn_id ` set kept;
          visible = concat (map node_names kept)
            @ filter (\<lambda>k. k \<in> kept_metadata) (map fst (doc_metadata g));
          hidden = concat (map hidden_node_names (filter (\<lambda>n. gn_id n \<notin> kept_ids) (doc_nodes g)))
            @ concat (map (\<lambda>(k, row). [k, mr_file_name row]) (filter (\<lambda>(k, row). k \<notin> kept_metadata) (doc_metadata g)))
      in \<lparr>visible_names = norm_name lower ` set visible, hidden_names = norm_name lower ` set hidden - {[]}\<rparr>)"

definition is_hidden_name :: "(string \<Rightarrow> string) \<Rightarrow> page_names \<Rightarrow> string \<Rightarrow> bool" where
  "is_hidden_name lower names name =
     (let n = norm_name lower name in n \<in> hidden_names names \<and> n \<notin> visible_names names)"

section \<open>Rows and nodes\<close>

definition scrub_row :: "(string \<Rightarrow> string) \<Rightarrow> page_names \<Rightarrow> metadata_row \<Rightarrow> metadata_row" where
  "scrub_row lower names row =
     row\<lparr>mr_topic_counts := filter (\<lambda>(k, _). norm_name lower k \<in> visible_names names) (mr_topic_counts row),
         mr_is_subclass_of := filter (\<lambda>v. \<not> is_hidden_name lower names v) (mr_is_subclass_of row),
         mr_belongs_to_domain := filter (\<lambda>v. \<not> is_hidden_name lower names v) (mr_belongs_to_domain row),
         mr_definition := map_option (scrub_links (is_hidden_name lower names)) (mr_definition row)\<rparr>"

definition scrub_list :: "(string \<Rightarrow> bool) \<Rightarrow> string \<Rightarrow> string \<Rightarrow> (string \<rightharpoonup> string) \<Rightarrow> (string \<rightharpoonup> string)" where
  "scrub_list hid key sep m =
     (case m key of
        None \<Rightarrow> m
      | Some list \<Rightarrow>
          (let kept = filter (\<lambda>v. v \<noteq> [] \<and> \<not> hid v) (map trim (split_char (CHR '','') list))
           in if kept = [] then m(key := None) else m(key \<mapsto> join_with sep kept)))"

definition scrub_node :: "(string \<Rightarrow> string) \<Rightarrow> page_names \<Rightarrow> graph_node \<Rightarrow> graph_node" where
  "scrub_node lower names n =
     (let hid = is_hidden_name lower names; m = gn_metadata n;
          m1 = (case m ''definition'' of Some d \<Rightarrow> m(''definition'' \<mapsto> scrub_links hid d) | None \<Rightarrow> m)
      in n\<lparr>gn_metadata := scrub_list hid ''tags'' '', '' (scrub_list hid ''is_subclass_of'' '','' m1)\<rparr>)"

section \<open>The caller's view\<close>

text \<open>
  \<open>trimmed_graph\<close> is None when the code returns the graph it was given, the same \<open>Arc\<close>, which is
  what the gate below tests.
\<close>

definition trimmed_graph :: "(string \<Rightarrow> string) \<Rightarrow> graph_document \<Rightarrow> string option \<Rightarrow> bool \<Rightarrow> graph_document option" where
  "trimmed_graph lower g session filter_on =
     (if \<not> filter_on then None
      else let kept = filter (node_is_visible session) (doc_nodes g);
               kept_metadata = gn_metadata_id ` set kept
      in if length kept = length (doc_nodes g)
            \<and> list_all (\<lambda>(k, _). k \<in> kept_metadata) (doc_metadata g)
            \<and> list_all (\<lambda>(_, m). m \<in> kept_metadata) (doc_id_to_metadata g)
         then None
         else let kept_ids = gn_id ` set kept; names = new_page_names lower g kept kept_metadata
         in Some \<lparr>doc_nodes = map (scrub_node lower names) kept,
                  doc_edges = filter (\<lambda>e. edge_source e \<in> kept_ids \<and> edge_target e \<in> kept_ids) (doc_edges g),
                  doc_metadata = map (\<lambda>(k, row). (k, scrub_row lower names row))
                                   (filter (\<lambda>(k, _). k \<in> kept_metadata) (doc_metadata g)),
                  doc_id_to_metadata = filter (\<lambda>(_, m). m \<in> kept_metadata) (doc_id_to_metadata g)\<rparr>)"

definition visible_subgraph :: "(string \<Rightarrow> string) \<Rightarrow> graph_document \<Rightarrow> string option \<Rightarrow> bool \<Rightarrow> graph_document" where
  "visible_subgraph lower g session filter_on =
     (case trimmed_graph lower g session filter_on of Some v \<Rightarrow> v | None \<Rightarrow> g)"

text \<open>\<open>CallerGate\<close>: ids for results keyed by node id, slots for results of the GPU by position.\<close>

record caller_gate =
  gate_graph :: graph_document
  gate_view :: graph_document
  gate_ids :: "u32 set"
  gate_slots :: "u32 set"

definition slot_pairs :: "graph_document \<Rightarrow> (nat \<times> graph_node) list" where
  "slot_pairs g = enumerate 0 (doc_nodes g)"

definition gate_for_graph_with :: "(string \<Rightarrow> string) \<Rightarrow> graph_document \<Rightarrow> string option \<Rightarrow> bool \<Rightarrow> caller_gate option" where
  "gate_for_graph_with lower g session filter_on =
     (case trimmed_graph lower g session filter_on of
        None \<Rightarrow> None
      | Some view \<Rightarrow>
          (let ids = gn_id ` set (doc_nodes view)
           in Some \<lparr>gate_graph = g, gate_view = view, gate_ids = ids,
                    gate_slots = (\<lambda>(i, n). word_of_nat i) ` set (filter (\<lambda>(i, n). unat (gn_id n) = i \<and> gn_id n \<in> ids) (slot_pairs g))\<rparr>))"

definition id_at_slot :: "caller_gate \<Rightarrow> nat \<Rightarrow> u32 option" where
  "id_at_slot gate slot =
     (if slot < 2 ^ 32 \<and> word_of_nat slot \<in> gate_slots gate \<and> slot < length (doc_nodes (gate_graph gate))
      then Some (gn_id (doc_nodes (gate_graph gate) ! slot)) else None)"

definition hidden_class_iris :: "caller_gate \<Rightarrow> string set" where
  "hidden_class_iris gate =
     set (List.map_filter gn_owl_class_iri (filter (\<lambda>n. gn_id n \<notin> gate_ids gate) (doc_nodes (gate_graph gate))))"

definition visible_counts :: "(string \<Rightarrow> string) \<Rightarrow> graph_document \<Rightarrow> string option \<Rightarrow> bool \<Rightarrow> nat \<times> nat \<times> nat" where
  "visible_counts lower g session filter_on =
     (let v = visible_subgraph lower g session filter_on
      in (length (doc_nodes v), length (doc_edges v), length (doc_metadata v)))"

section \<open>The node filter of a client\<close>

definition population_type :: "graph_node \<Rightarrow> string option" where
  "population_type n = (case gn_metadata n ''type'' of Some t \<Rightarrow> Some t | None \<Rightarrow> gn_node_type n)"

definition passes_predicates :: "client_filter \<Rightarrow> f64 option \<Rightarrow> f64 option \<Rightarrow> bool" where
  "passes_predicates f quality authority =
     (let verdicts =
            (if filter_by_quality f then [case quality of None \<Rightarrow> True | Some q \<Rightarrow> f64_le (quality_threshold f) q] else [])
          @ (if filter_by_authority f then [case authority of None \<Rightarrow> True | Some a \<Rightarrow> f64_le (authority_threshold f) a] else [])
      in if verdicts = [] then True
         else case filter_mode f of FilterAnd \<Rightarrow> list_all id verdicts | FilterOr \<Rightarrow> list_ex id verdicts)"

definition or_else :: "'a option \<Rightarrow> 'a option \<Rightarrow> 'a option" where
  "or_else a b = (case a of Some x \<Rightarrow> Some x | None \<Rightarrow> b)"

definition node_quality :: "graph_document \<Rightarrow> graph_node \<Rightarrow> f64 option" where
  "node_quality g n =
     or_else (Option.bind (or_else (gn_metadata n ''quality_score'') (gn_metadata n ''qualityScore'')) parse_f64)
       (Option.bind (map_of (doc_metadata g) (gn_metadata_id n)) mr_quality_score)"

definition node_authority :: "graph_document \<Rightarrow> graph_node \<Rightarrow> f64 option" where
  "node_authority g n =
     or_else (Option.bind (gn_metadata n ''authority_score'') parse_f64)
       (Option.bind (map_of (doc_metadata g) (gn_metadata_id n)) mr_authority_score)"

definition keeps_node :: "client_filter \<Rightarrow> graph_document \<Rightarrow> graph_node \<Rightarrow> bool" where
  "keeps_node f g n =
     (if \<not> include_linked_pages f \<and> population_type n = Some ''linked_page'' then False
      else if filter_enabled f \<and> server_remove f
           then passes_predicates f (node_quality g n) (node_authority g n)
           else True)"

definition recompute_filtered_nodes :: "client_filter \<Rightarrow> graph_document \<Rightarrow> client_filter" where
  "recompute_filtered_nodes f g = f\<lparr>filtered_node_ids := gn_id ` set (filter (keeps_node f g) (doc_nodes g))\<rparr>"

record initial_node =
  in_id :: u32
  in_metadata_id :: string
  in_label :: string
  in_position :: vec3
  in_velocity :: vec3
  in_owl_class_iri :: "string option"
  in_node_type :: "string option"
  in_did_nostr :: "string option"
  in_metadata :: "string \<rightharpoonup> string"

definition initial_node_of :: "graph_node \<Rightarrow> initial_node" where
  "initial_node_of n = \<lparr>in_id = gn_id n, in_metadata_id = gn_metadata_id n, in_label = gn_label n,
     in_position = node_pos (gn_data n), in_velocity = node_vel (gn_data n), in_owl_class_iri = gn_owl_class_iri n,
     in_node_type = gn_node_type n, in_did_nostr = gn_metadata n ''did_nostr'', in_metadata = gn_metadata n\<rparr>"

record initial_edge =
  ie_id :: string
  ie_source :: u32
  ie_target :: u32
  ie_weight :: f32
  ie_edge_type :: "string option"
  ie_inferred :: bool

definition edge_is_inferred :: "document_edge \<Rightarrow> bool" where
  "edge_is_inferred e = (Option.bind (de_metadata e) (\<lambda>m. m ''inferred'') = Some ''true'')"

definition initial_edge_of :: "document_edge \<Rightarrow> initial_edge" where
  "initial_edge_of e = \<lparr>ie_id = de_id e, ie_source = edge_source e, ie_target = edge_target e,
     ie_weight = edge_weight_f e, ie_edge_type = de_edge_type e, ie_inferred = edge_is_inferred e\<rparr>"

definition filter_update_reply ::
    "(string \<Rightarrow> string) \<Rightarrow> client_filter \<Rightarrow> graph_document \<Rightarrow> string option \<Rightarrow> bool
      \<Rightarrow> client_filter \<times> initial_node list \<times> initial_edge list" where
  "filter_update_reply lower f g session filter_on =
     (let view = visible_subgraph lower g session filter_on;
          f1 = recompute_filtered_nodes f view; allowed = filtered_node_ids f1
      in (f1, map initial_node_of (filter (\<lambda>n. gn_id n \<in> allowed) (doc_nodes view)),
          map initial_edge_of (filter (\<lambda>e. edge_source e \<in> allowed \<and> edge_target e \<in> allowed) (doc_edges view))))"

text \<open>
  Of the arrays the graph actor publishes, the private nodes are read off the document; the five sets
  of ids it keeps beside it are parameters.
\<close>

definition get_node_type_arrays ::
    "u32 list \<Rightarrow> u32 list \<Rightarrow> u32 list \<Rightarrow> u32 list \<Rightarrow> u32 list \<Rightarrow> graph_document \<Rightarrow> node_type_arrays" where
  "get_node_type_arrays kn ag cs ins ps g =
     \<lparr>knowledge_ids = kn, agent_ids = ag, ontology_class_ids = cs,
      ontology_individual_ids = ins, ontology_property_ids = ps,
      private_nodes = filter (\<lambda>v. \<not> vis_public v) (map of_node (doc_nodes g)), loaded = True\<rparr>"

section \<open>Path queries of a caller with a gate\<close>

definition search_graph :: "graph_document \<Rightarrow> graph_data" where
  "search_graph g = \<lparr>graph_node_ids = map gn_id (doc_nodes g), graph_edges = map graph_edge.truncate (doc_edges g)\<rparr>"

text \<open>
  The source is a position of the GPU. As in \<open>single_source\<close>, the outer option of a result says
  whether the loops end, and each path carries its own.
\<close>

record path_response =
  pr_source_node :: u32
  pr_distances :: "u32 \<rightharpoonup> f32"
  pr_paths :: "u32 \<rightharpoonup> u32 list option"

definition visible_shortest_path ::
    "(heap_entry list \<Rightarrow> heap_entry) \<Rightarrow> caller_gate \<Rightarrow> nat \<Rightarrow> bool \<Rightarrow> path_response option option" where
  "visible_shortest_path pick gate source include_path =
     (case id_at_slot gate source of
        None \<Rightarrow> Some None
      | Some i \<Rightarrow> map_option (map_option (\<lambda>r.
          \<lparr>pr_source_node = i, pr_distances = distances r,
           pr_paths = (\<lambda>t. if include_path \<and> t \<noteq> i \<and> distances r t \<noteq> None then Some (path_to r t) else None)\<rparr>))
          (single_source pick (search_graph (gate_view gate)) i))"

text \<open>The error carries the id its message names; \<open>f32::MAX\<close> stands for an unreachable target.\<close>

definition visible_point_to_point ::
    "(heap_entry list \<Rightarrow> heap_entry) \<Rightarrow> caller_gate \<Rightarrow> u32 \<Rightarrow> u32 \<Rightarrow> (u32 + f32 \<times> bool \<times> nat) option" where
  "visible_point_to_point pick gate source target =
     map_option (\<lambda>answer. case answer of
         None \<Rightarrow> Err source
       | Some r \<Rightarrow> Ok (case distances r target of
             Some d \<Rightarrow> (d, True, card (dom (distances r)))
           | None \<Rightarrow> (0x7F7FFFFF, False, card (dom (distances r)))))
       (single_source pick (search_graph (gate_view gate)) source)"

section \<open>What the view keeps\<close>

definition visible_nodes :: "string option \<Rightarrow> graph_document \<Rightarrow> graph_node list" where
  "visible_nodes session g = filter (node_is_visible session) (doc_nodes g)"

text \<open>The ids that only hidden nodes carry.\<close>

definition hidden_ids :: "string option \<Rightarrow> graph_document \<Rightarrow> u32 set" where
  "hidden_ids session g = gn_id ` set (doc_nodes g) - gn_id ` set (visible_nodes session g)"

definition view_names :: "(string \<Rightarrow> string) \<Rightarrow> string option \<Rightarrow> graph_document \<Rightarrow> page_names" where
  "view_names lower session g =
     new_page_names lower g (visible_nodes session g) (gn_metadata_id ` set (visible_nodes session g))"

lemma scrub_node_fields [simp]:
  "gn_id (scrub_node lower names n) = gn_id n" "gn_metadata_id (scrub_node lower names n) = gn_metadata_id n"
  "gn_label (scrub_node lower names n) = gn_label n" "gn_owl_class_iri (scrub_node lower names n) = gn_owl_class_iri n"
  "gn_node_type (scrub_node lower names n) = gn_node_type n" "gn_data (scrub_node lower names n) = gn_data n"
  by (simp_all add: scrub_node_def Let_def)

lemma scrub_list_other: "k \<noteq> key \<Longrightarrow> scrub_list hid key sep m k = m k"
  by (simp add: scrub_list_def Let_def split: option.split)

lemma scrub_node_other:
  "k \<notin> {''definition'', ''is_subclass_of'', ''tags''} \<Longrightarrow> gn_metadata (scrub_node lower names n) k = gn_metadata n k"
  by (simp add: scrub_node_def scrub_list_other Let_def split: option.split)

lemma of_scrub_node [simp]: "of_node (scrub_node lower names n) = of_node n"
  by (simp add: of_node_def visibility_of_node_def scrub_node_other Let_def)

lemma node_is_visible_scrub [simp]: "node_is_visible session (scrub_node lower names n) = node_is_visible session n"
  by (simp add: node_is_visible_def)

lemma population_type_scrub [simp]: "population_type (scrub_node lower names n) = population_type n"
  by (simp add: population_type_def scrub_node_other split: option.split)

lemma all_kept:
  assumes "length (visible_nodes session g) = length (doc_nodes g)"
  shows "visible_nodes session g = doc_nodes g"
  using assms unfolding visible_nodes_def by (metis length_filter_less less_irrefl filter_True)

text \<open>When the graph is returned as it is, nothing in it is hidden.\<close>

lemma untrimmed:
  assumes "trimmed_graph lower g session True = None"
  shows "visible_nodes session g = doc_nodes g" "\<forall>(k, row) \<in> set (doc_metadata g). k \<in> gn_metadata_id ` set (doc_nodes g)"
    "\<forall>(k, m) \<in> set (doc_id_to_metadata g). m \<in> gn_metadata_id ` set (doc_nodes g)" "hidden_names (view_names lower session g) = {}"
proof -
  have len: "length (visible_nodes session g) = length (doc_nodes g)"
    and md: "list_all (\<lambda>(k, _). k \<in> gn_metadata_id ` set (visible_nodes session g)) (doc_metadata g)"
    and im: "list_all (\<lambda>(_, m). m \<in> gn_metadata_id ` set (visible_nodes session g)) (doc_id_to_metadata g)"
    using assms by (auto simp: trimmed_graph_def visible_nodes_def Let_def split: if_splits)
  show eq: "visible_nodes session g = doc_nodes g" by (rule all_kept [OF len])
  show m: "\<forall>(k, row) \<in> set (doc_metadata g). k \<in> gn_metadata_id ` set (doc_nodes g)"
    "\<forall>(k, m) \<in> set (doc_id_to_metadata g). m \<in> gn_metadata_id ` set (doc_nodes g)"
    using md im unfolding eq by (auto simp: list_all_iff)
  have "filter (\<lambda>n. gn_id n \<notin> gn_id ` set (doc_nodes g)) (doc_nodes g) = []" by (simp add: filter_empty_conv)
  moreover have "filter (\<lambda>(k, row). k \<notin> gn_metadata_id ` set (doc_nodes g)) (doc_metadata g) = []"
    using m(1) by (fastforce simp: filter_empty_conv)
  ultimately show "hidden_names (view_names lower session g) = {}"
    by (simp add: view_names_def new_page_names_def eq Let_def del: set_filter)
qed

lemma trimmed:
  assumes "trimmed_graph lower g session True = Some v"
  shows "v = \<lparr>doc_nodes = map (scrub_node lower (view_names lower session g)) (visible_nodes session g),
      doc_edges = filter (\<lambda>e. edge_source e \<in> gn_id ` set (visible_nodes session g) \<and> edge_target e \<in> gn_id ` set (visible_nodes session g)) (doc_edges g),
      doc_metadata = map (\<lambda>(k, row). (k, scrub_row lower (view_names lower session g) row))
        (filter (\<lambda>(k, _). k \<in> gn_metadata_id ` set (visible_nodes session g)) (doc_metadata g)),
      doc_id_to_metadata = filter (\<lambda>(_, m). m \<in> gn_metadata_id ` set (visible_nodes session g)) (doc_id_to_metadata g)\<rparr>"
  using assms by (auto simp: trimmed_graph_def visible_nodes_def view_names_def Let_def split: if_splits)

lemma visible_subgraph_cases:
  obtains (same) "trimmed_graph lower g session True = None" "visible_subgraph lower g session True = g"
  | (cut) v where "trimmed_graph lower g session True = Some v" "visible_subgraph lower g session True = v"
  by (cases "trimmed_graph lower g session True") (auto simp: visible_subgraph_def)

lemma view_nodes:
  "map gn_id (doc_nodes (visible_subgraph lower g session True)) = map gn_id (visible_nodes session g)"
  "map of_node (doc_nodes (visible_subgraph lower g session True)) = map of_node (visible_nodes session g)"
proof -
  have "map gn_id (doc_nodes (visible_subgraph lower g session True)) = map gn_id (visible_nodes session g)
      \<and> map of_node (doc_nodes (visible_subgraph lower g session True)) = map of_node (visible_nodes session g)"
  proof (cases rule: visible_subgraph_cases [of lower g session])
    case same
    then show ?thesis using untrimmed(1) [OF same(1)] by simp
  next
    case (cut v)
    then show ?thesis using trimmed [OF cut(1)] by (simp add: comp_def)
  qed
  then show "map gn_id (doc_nodes (visible_subgraph lower g session True)) = map gn_id (visible_nodes session g)"
    "map of_node (doc_nodes (visible_subgraph lower g session True)) = map of_node (visible_nodes session g)" by simp_all
qed

definition joins_visible :: "string option \<Rightarrow> graph_document \<Rightarrow> document_edge \<Rightarrow> bool" where
  "joins_visible session g e \<longleftrightarrow>
     edge_source e \<in> gn_id ` set (visible_nodes session g) \<and> edge_target e \<in> gn_id ` set (visible_nodes session g)"

lemma view_edges:
  "filter (joins_visible session g) (doc_edges (visible_subgraph lower g session True)) = filter (joins_visible session g) (doc_edges g)"
  "e \<in> set (doc_edges (visible_subgraph lower g session True)) \<Longrightarrow>
     e \<in> set (doc_edges g) \<and> edge_source e \<notin> hidden_ids session g \<and> edge_target e \<notin> hidden_ids session g"
proof -
  have "filter (joins_visible session g) (doc_edges (visible_subgraph lower g session True)) = filter (joins_visible session g) (doc_edges g)
    \<and> (e \<in> set (doc_edges (visible_subgraph lower g session True)) \<longrightarrow>
     e \<in> set (doc_edges g) \<and> edge_source e \<notin> hidden_ids session g \<and> edge_target e \<notin> hidden_ids session g)"
  proof (cases rule: visible_subgraph_cases [of lower g session])
    case same
    then show ?thesis using untrimmed(1) [OF same(1)] by (simp add: hidden_ids_def)
  next
    case (cut v)
    have "doc_edges v = filter (joins_visible session g) (doc_edges g)"
      unfolding trimmed [OF cut(1)] by (simp add: joins_visible_def cong: filter_cong)
    then show ?thesis by (simp add: cut(2)) (auto simp: hidden_ids_def joins_visible_def)
  qed
  then show "filter (joins_visible session g) (doc_edges (visible_subgraph lower g session True)) = filter (joins_visible session g) (doc_edges g)"
    "e \<in> set (doc_edges (visible_subgraph lower g session True)) \<Longrightarrow>
     e \<in> set (doc_edges g) \<and> edge_source e \<notin> hidden_ids session g \<and> edge_target e \<notin> hidden_ids session g" by simp_all
qed

lemma scrub_row_scores [simp]:
  "mr_quality_score (scrub_row lower names row) = mr_quality_score row" "mr_authority_score (scrub_row lower names row) = mr_authority_score row"
  by (simp_all add: scrub_row_def)

lemma view_metadata:
  "map fst (doc_metadata (visible_subgraph lower g session True))
     = filter (\<lambda>k. k \<in> gn_metadata_id ` set (visible_nodes session g)) (map fst (doc_metadata g))"
  "doc_id_to_metadata (visible_subgraph lower g session True)
     = filter (\<lambda>(_, m). m \<in> gn_metadata_id ` set (visible_nodes session g)) (doc_id_to_metadata g)"
proof -
  have "map fst (doc_metadata (visible_subgraph lower g session True))
       = filter (\<lambda>k. k \<in> gn_metadata_id ` set (visible_nodes session g)) (map fst (doc_metadata g))
    \<and> doc_id_to_metadata (visible_subgraph lower g session True)
       = filter (\<lambda>(_, m). m \<in> gn_metadata_id ` set (visible_nodes session g)) (doc_id_to_metadata g)"
  proof (cases rule: visible_subgraph_cases [of lower g session])
    case same
    have "filter (\<lambda>k. k \<in> gn_metadata_id ` set (doc_nodes g)) (map fst (doc_metadata g)) = map fst (doc_metadata g)"
      using untrimmed(2) [OF same(1)] by (intro filter_True) auto
    moreover have "filter (\<lambda>(_, m). m \<in> gn_metadata_id ` set (doc_nodes g)) (doc_id_to_metadata g) = doc_id_to_metadata g"
      using untrimmed(3) [OF same(1)] by (intro filter_True) auto
    ultimately show ?thesis by (simp add: same(2) untrimmed(1) [OF same(1)])
  next
    case (cut v)
    have v: "doc_metadata v = map (\<lambda>(k, row). (k, scrub_row lower (view_names lower session g) row))
        (filter (\<lambda>(k, _). k \<in> gn_metadata_id ` set (visible_nodes session g)) (doc_metadata g))"
      "doc_id_to_metadata v = filter (\<lambda>(_, m). m \<in> gn_metadata_id ` set (visible_nodes session g)) (doc_id_to_metadata g)"
      using trimmed [OF cut(1)] by simp_all
    moreover have "map fst (filter (\<lambda>(k, _). k \<in> A) xs) = filter (\<lambda>k. k \<in> A) (map fst xs)" for A and xs :: "(string \<times> metadata_row) list"
      by (induction xs) auto
    ultimately show ?thesis by (simp add: cut(2) comp_def case_prod_beta)
  qed
  then show "map fst (doc_metadata (visible_subgraph lower g session True))
       = filter (\<lambda>k. k \<in> gn_metadata_id ` set (visible_nodes session g)) (map fst (doc_metadata g))"
    "doc_id_to_metadata (visible_subgraph lower g session True)
       = filter (\<lambda>(_, m). m \<in> gn_metadata_id ` set (visible_nodes session g)) (doc_id_to_metadata g)" by blast+
qed

section \<open>Names in lists\<close>

lemma split_char_ne: "split_char c s \<noteq> []"
  by (induction s) (auto split: list.split)

lemma split_char_free: "p \<in> set (split_char c s) \<Longrightarrow> c \<notin> set p"
proof (induction s arbitrary: p)
  case (Cons a s)
  then show ?case by (cases "split_char c s") (auto split: if_splits)
qed simp

lemma split_char_one: "c \<notin> set p \<Longrightarrow> split_char c p = [p]"
  by (induction p) auto

lemma split_char_append: "c \<notin> set p \<Longrightarrow> split_char c (p @ c # s) = p # split_char c s"
  using split_char_ne [of c s] by (induction p) (auto split: list.split)

lemma split_join:
  assumes "\<forall>p \<in> set ps. c \<notin> set p" and "c \<notin> set w" and "ps \<noteq> []"
  shows "split_char c (join_with (c # w) ps) = hd ps # map (append w) (tl ps)"
proof -
  have "split_char c (w' @ join_with (c # w) ps) = (w' @ hd ps) # map (append w) (tl ps)" if "c \<notin> set w'" for w'
    using assms(1,3) that
  proof (induction ps arbitrary: w' rule: induct_list012)
    case (3 p q ps)
    have "split_char c ((w' @ p) @ c # (w @ join_with (c # w) (q # ps))) = (w' @ p) # split_char c (w @ join_with (c # w) (q # ps))"
      using 3 by (intro split_char_append) simp
    then show ?case using "3.IH"(2) [of w] 3(3) assms(2) by simp
  qed (simp_all add: split_char_one)
  from this [of "[]"] show ?thesis by simp
qed

lemma set_strip_ws: "set (strip_ws at s) \<subseteq> set s"
proof (induction at s rule: strip_ws.induct)
  case (1 at s)
  show ?case
  proof (cases "at s = 0 \<or> s = []")
    case False
    then show ?thesis using 1 set_drop_subset [of "at s" s] by (subst strip_ws.simps) auto
  qed (subst strip_ws.simps, simp)
qed

lemma set_trim: "set (trim s) \<subseteq> set s"
  unfolding trim_def using set_strip_ws by (metis set_rev subset_trans)

lemma trim_blank: "trim (CHR '' '' # s) = trim s"
proof -
  have "ws_at (CHR '' '' # s) = 1"
    by (cases s; cases "tl s") (simp_all add: is_ascii_ws_def)
  then show ?thesis unfolding trim_def by (subst strip_ws.simps) simp
qed

definition list_is_clean :: "(string \<Rightarrow> bool) \<Rightarrow> string option \<Rightarrow> bool" where
  "list_is_clean hid v \<longleftrightarrow> (\<forall>l. v = Some l \<longrightarrow> (\<forall>p \<in> set (split_char (CHR '','') l). \<not> hid p))"

lemma scrub_list_clean:
  assumes "\<And>p. hid (CHR '' '' # p) = hid p" and "sep = '','' \<or> sep = '', ''"
  shows "list_is_clean hid (scrub_list hid key sep m key)"
proof (cases "m key")
  case (Some list)
  define kept where "kept = filter (\<lambda>v. v \<noteq> [] \<and> \<not> hid v) (map trim (split_char (CHR '','') list))"
  have scrub: "scrub_list hid key sep m key = (if kept = [] then None else Some (join_with sep kept))"
    by (simp add: scrub_list_def Some kept_def Let_def del: filter_empty_conv filter_map)
  have free: "\<forall>p \<in> set kept. CHR '','' \<notin> set p" and shown: "\<And>q. q \<in> set kept \<Longrightarrow> \<not> hid q"
    using split_char_free set_trim by (fastforce simp: kept_def)+
  have "\<not> hid p" if ne: "kept \<noteq> []" and p: "p \<in> set (split_char (CHR '','') (join_with sep kept))" for p
  proof -
    obtain w where w: "sep = CHR '','' # w" "w = [] \<or> w = '' ''" using assms(2) by auto
    have "split_char (CHR '','') (join_with sep kept) = hd kept # map (append w) (tl kept)"
      unfolding w(1) using w(2) by (intro split_join free ne) auto
    then have "p = hd kept \<or> p \<in> append w ` set (tl kept)" using p by simp
    moreover have "hd kept \<in> set kept" "set (tl kept) \<subseteq> set kept" using ne list.set_sel(2) [OF ne] by auto
    ultimately have "p \<in> set kept \<union> append w ` set kept" by blast
    then show ?thesis using shown w(2) assms(1) by auto
  qed
  then show ?thesis by (simp add: scrub list_is_clean_def)
qed (simp add: scrub_list_def list_is_clean_def)

lemma not_hidden_without: "hidden_names names = {} \<Longrightarrow> \<not> is_hidden_name lower names p"
  by (simp add: is_hidden_name_def)

lemma is_hidden_name_blank: "is_hidden_name lower names (CHR '' '' # p) = is_hidden_name lower names p"
  by (simp add: is_hidden_name_def norm_name_def trim_blank)

lemma scrub_node_clean:
  "list_is_clean (is_hidden_name lower names) (gn_metadata (scrub_node lower names n) ''is_subclass_of'')"
  "list_is_clean (is_hidden_name lower names) (gn_metadata (scrub_node lower names n) ''tags'')"
proof -
  let ?hid = "is_hidden_name lower names"
  note clean = scrub_list_clean [of ?hid, OF is_hidden_name_blank]
  show "list_is_clean ?hid (gn_metadata (scrub_node lower names n) ''tags'')"
    unfolding scrub_node_def Let_def by (simp add: clean)
  show "list_is_clean ?hid (gn_metadata (scrub_node lower names n) ''is_subclass_of'')"
    unfolding scrub_node_def Let_def by (simp add: clean scrub_list_other)
qed

definition row_is_clean :: "(string \<Rightarrow> bool) \<Rightarrow> metadata_row \<Rightarrow> bool" where
  "row_is_clean hid row \<longleftrightarrow>
     list_all (\<lambda>(k, _). \<not> hid k) (mr_topic_counts row) \<and> list_all (\<lambda>v. \<not> hid v) (mr_is_subclass_of row)
     \<and> list_all (\<lambda>v. \<not> hid v) (mr_belongs_to_domain row)"

lemma scrub_row_clean: "row_is_clean (is_hidden_name lower names) (scrub_row lower names row)"
  by (auto simp: row_is_clean_def scrub_row_def list_all_iff is_hidden_name_def Let_def)

lemma view_is_clean:
  assumes "hid = is_hidden_name lower (view_names lower session g)"
  shows "list_all (\<lambda>n. list_is_clean hid (gn_metadata n ''is_subclass_of'') \<and> list_is_clean hid (gn_metadata n ''tags''))
      (doc_nodes (visible_subgraph lower g session True))"
    and "list_all (\<lambda>(_, row). row_is_clean hid row) (doc_metadata (visible_subgraph lower g session True))"
proof -
  have "list_all (\<lambda>n. list_is_clean hid (gn_metadata n ''is_subclass_of'') \<and> list_is_clean hid (gn_metadata n ''tags''))
      (doc_nodes (visible_subgraph lower g session True))
    \<and> list_all (\<lambda>(_, row). row_is_clean hid row) (doc_metadata (visible_subgraph lower g session True))"
  proof (cases rule: visible_subgraph_cases [of lower g session])
    case same
    then have "\<not> hid p" for p using untrimmed(4) [OF same(1)] assms by (simp add: not_hidden_without)
    then show ?thesis by (auto simp: list_all_iff list_is_clean_def row_is_clean_def)
  next
    case (cut v)
    then show ?thesis
      unfolding cut(2) trimmed [OF cut(1)] assms by (auto simp: list_all_iff scrub_node_clean scrub_row_clean)
  qed
  then show "list_all (\<lambda>n. list_is_clean hid (gn_metadata n ''is_subclass_of'') \<and> list_is_clean hid (gn_metadata n ''tags''))
      (doc_nodes (visible_subgraph lower g session True))"
    "list_all (\<lambda>(_, row). row_is_clean hid row) (doc_metadata (visible_subgraph lower g session True))" by blast+
qed

lemma view_nodes_visible: "list_all (node_is_visible session) (doc_nodes (visible_subgraph lower g session True))"
proof -
  have "list_all (is_visible_to session) (map of_node (visible_nodes session g))"
    by (auto simp: visible_nodes_def node_is_visible_def list_all_iff)
  then show ?thesis unfolding view_nodes(2) [of lower, symmetric] by (simp add: list_all_iff node_is_visible_def)
qed

section \<open>Properties of the view\<close>

text \<open>
  C2. The view has exactly the nodes the caller may see, in order, the rows of the metadata store and
  of the table of ids that belong to them, and all the edges between them; no edge of it ends at a
  node that is hidden, and no list of names in its nodes or rows, split the way the code splits it,
  has the name of a hidden page.
\<close>

theorem view_is_what_the_caller_may_see:
  "let view = visible_subgraph lower g session True; shown = visible_nodes session g;
       hid = is_hidden_name lower (view_names lower session g)
   in map gn_id (doc_nodes view) = map gn_id shown \<and> list_all (node_is_visible session) (doc_nodes view)
    \<and> filter (joins_visible session g) (doc_edges view) = filter (joins_visible session g) (doc_edges g)
    \<and> list_all (\<lambda>e. e \<in> set (doc_edges g) \<and> edge_source e \<notin> hidden_ids session g \<and> edge_target e \<notin> hidden_ids session g) (doc_edges view)
    \<and> map fst (doc_metadata view) = filter (\<lambda>k. k \<in> gn_metadata_id ` set shown) (map fst (doc_metadata g))
    \<and> doc_id_to_metadata view = filter (\<lambda>(_, m). m \<in> gn_metadata_id ` set shown) (doc_id_to_metadata g)
    \<and> list_all (\<lambda>n. list_is_clean hid (gn_metadata n ''is_subclass_of'') \<and> list_is_clean hid (gn_metadata n ''tags'')) (doc_nodes view)
    \<and> list_all (\<lambda>(_, row). row_is_clean hid row) (doc_metadata view)"
  unfolding Let_def
  by (intro conjI view_nodes(1) view_nodes_visible view_edges(1) view_metadata view_is_clean refl)
    (auto simp: list_all_iff dest: view_edges(2))

section \<open>Paths in the view\<close>

lemma truncate_ends [simp]:
  "edge_source (graph_edge.truncate e) = edge_source e" "edge_target (graph_edge.truncate e) = edge_target e"
  by (simp_all add: graph_edge.truncate_def)

text \<open>What of the document the search in the view depends on.\<close>

definition visible_part :: "string option \<Rightarrow> graph_document \<Rightarrow> graph_data" where
  "visible_part session g = \<lparr>graph_node_ids = map gn_id (visible_nodes session g),
     graph_edges = map graph_edge.truncate (filter (joins_visible session g) (doc_edges g))\<rparr>"

lemma search_in_view:
  "single_source pick (search_graph (visible_subgraph lower g session True)) s = single_source pick (visible_part session g) s"
proof (rule search_inner_edges)
  let ?view = "visible_subgraph lower g session True"
  show ids: "graph_node_ids (search_graph ?view) = graph_node_ids (visible_part session g)"
    by (simp add: search_graph_def visible_part_def view_nodes(1))
  have inner: "(\<lambda>e. edge_source e \<in> set (graph_node_ids (search_graph ?view)) \<and> edge_target e \<in> set (graph_node_ids (search_graph ?view)))
      \<circ> graph_edge.truncate = joins_visible session g"
    unfolding ids by (auto simp: visible_part_def joins_visible_def fun_eq_iff)
  show "filter (\<lambda>e. edge_source e \<in> set (graph_node_ids (search_graph ?view)) \<and> edge_target e \<in> set (graph_node_ids (search_graph ?view)))
        (graph_edges (search_graph ?view))
      = filter (\<lambda>e. edge_source e \<in> set (graph_node_ids (search_graph ?view)) \<and> edge_target e \<in> set (graph_node_ids (search_graph ?view)))
        (graph_edges (visible_part session g))"
    by (simp add: search_graph_def visible_part_def filter_map inner [unfolded search_graph_def, simplified] view_edges(1))
qed

section \<open>The gate\<close>

lemma u32_small: "i < 2 ^ 32 \<Longrightarrow> unat (word_of_nat i :: u32) = i"
  by (simp add: unat_of_nat take_bit_nat_eq_self)

lemma gate_is:
  assumes "gate_for_graph_with lower g session True = Some G"
  shows "gate_graph G = g" "gate_view G = visible_subgraph lower g session True"
    "gate_ids G = gn_id ` set (visible_nodes session g)"
    "gate_slots G = (\<lambda>(i, n). word_of_nat i) ` set (filter (\<lambda>(i, n). unat (gn_id n) = i \<and> gn_id n \<in> gate_ids G) (slot_pairs g))"
proof -
  obtain v where v: "trimmed_graph lower g session True = Some v" "visible_subgraph lower g session True = v"
    using assms by (cases rule: visible_subgraph_cases [of lower g session]) (auto simp: gate_for_graph_with_def)
  have "gn_id ` set (doc_nodes v) = gn_id ` set (visible_nodes session g)"
    using view_nodes(1) [of lower g session] v(2) by (metis list.set_map)
  moreover have "G = \<lparr>gate_graph = g, gate_view = v, gate_ids = gn_id ` set (doc_nodes v),
      gate_slots = (\<lambda>(i, n). word_of_nat i) ` set (filter (\<lambda>(i, n). unat (gn_id n) = i \<and> gn_id n \<in> gn_id ` set (doc_nodes v)) (slot_pairs g))\<rparr>"
    using assms unfolding gate_for_graph_with_def v(1) option.case Let_def by (simp only: option.inject)
  ultimately show "gate_graph G = g" "gate_view G = visible_subgraph lower g session True"
    "gate_ids G = gn_id ` set (visible_nodes session g)"
    "gate_slots G = (\<lambda>(i, n). word_of_nat i) ` set (filter (\<lambda>(i, n). unat (gn_id n) = i \<and> gn_id n \<in> gate_ids G) (slot_pairs g))"
    using v(2) by simp_all
qed

lemma u32_bound: "unat (n :: u32) < 2 ^ 32"
  using unsigned_less [of n] by simp

lemma slot_pairs_member: "(i, n) \<in> set (slot_pairs g) \<longleftrightarrow> i < length (doc_nodes g) \<and> n = doc_nodes g ! i"
  by (auto simp: slot_pairs_def in_set_enumerate_eq)

lemma id_at_slot_is:
  assumes "gate_for_graph_with lower g session True = Some G"
  shows "id_at_slot G i = Some n \<longleftrightarrow>
    i < length (doc_nodes g) \<and> n = gn_id (doc_nodes g ! i) \<and> unat n = i \<and> n \<in> gn_id ` set (visible_nodes session g)"
proof -
  note G = gate_is [OF assms]
  have slots: "word_of_nat i \<in> gate_slots G \<longleftrightarrow>
      (i < length (doc_nodes g) \<and> unat (gn_id (doc_nodes g ! i)) = i \<and> gn_id (doc_nodes g ! i) \<in> gn_id ` set (visible_nodes session g))"
    if i: "i < 2 ^ 32"
  proof
    assume "word_of_nat i \<in> gate_slots G"
    then obtain p where p: "(word_of_nat i :: u32) = (case p of (j, n) \<Rightarrow> word_of_nat j)"
      "p \<in> set (filter (\<lambda>(i, n). unat (gn_id n) = i \<and> gn_id n \<in> gate_ids G) (slot_pairs g))"
      unfolding G(4) by (elim imageE)
    obtain j where j: "(word_of_nat i :: u32) = word_of_nat j" "j < length (doc_nodes g)" "unat (gn_id (doc_nodes g ! j)) = j"
      "gn_id (doc_nodes g ! j) \<in> gn_id ` set (visible_nodes session g)"
    proof (cases p)
      case (Pair j n)
      then have "j < length (doc_nodes g) \<and> n = doc_nodes g ! j \<and> unat (gn_id n) = j \<and> gn_id n \<in> gn_id ` set (visible_nodes session g)"
        using p(2) by (simp add: slot_pairs_member G(3)) blast
      then have "j < length (doc_nodes g)" "n = doc_nodes g ! j" "unat (gn_id n) = j" "gn_id n \<in> gn_id ` set (visible_nodes session g)"
        by blast+
      then show ?thesis using that [of j] p(1) Pair by simp
    qed
    have "j < 2 ^ 32" using u32_bound [of "gn_id (doc_nodes g ! j)"] j(3) by simp
    then have "i = j" using j(1) i u32_small by metis
    then show "i < length (doc_nodes g) \<and> unat (gn_id (doc_nodes g ! i)) = i \<and> gn_id (doc_nodes g ! i) \<in> gn_id ` set (visible_nodes session g)"
      using j by simp
  next
    assume "i < length (doc_nodes g) \<and> unat (gn_id (doc_nodes g ! i)) = i \<and> gn_id (doc_nodes g ! i) \<in> gn_id ` set (visible_nodes session g)"
    then have "(i, doc_nodes g ! i) \<in> set (filter (\<lambda>(i, n). unat (gn_id n) = i \<and> gn_id n \<in> gate_ids G) (slot_pairs g))"
      by (simp add: slot_pairs_member G(3))
    then show "word_of_nat i \<in> gate_slots G" unfolding G(4) by (rule rev_image_eqI) simp
  qed
  have small: "unat n = i \<Longrightarrow> i < 2 ^ 32" for n :: u32 using u32_bound [of n] by simp
  show ?thesis using slots small by (auto simp: id_at_slot_def G(1))
qed

text \<open>
  C18. The gate: when there is none, nothing of the document is hidden; else its ids are those of the
  visible nodes, a position of the GPU is answered only when it holds a visible node under its own
  number, and the class of every hidden node is withheld from the ontology routes. Without the
  policy there is no gate.
\<close>

theorem gate_fails_closed:
  "gate_for_graph_with lower g session False = None
   \<and> (case gate_for_graph_with lower g session True of
        None \<Rightarrow> visible_nodes session g = doc_nodes g \<and> visible_subgraph lower g session True = g
          \<and> list_all (\<lambda>(k, _). k \<in> gn_metadata_id ` set (doc_nodes g)) (doc_metadata g)
      | Some G \<Rightarrow> gate_view G = visible_subgraph lower g session True \<and> gate_ids G = gn_id ` set (visible_nodes session g)
          \<and> (\<forall>i n. id_at_slot G i = Some n \<longleftrightarrow> i < length (doc_nodes g) \<and> n = gn_id (doc_nodes g ! i) \<and> unat n = i
              \<and> n \<in> gn_id ` set (visible_nodes session g))
          \<and> hidden_class_iris G = {c. \<exists>n. n \<in> set (doc_nodes g) \<and> gn_id n \<in> hidden_ids session g \<and> gn_owl_class_iri n = Some c})"
proof (cases "gate_for_graph_with lower g session True")
  case None
  then have "trimmed_graph lower g session True = None" by (auto simp: gate_for_graph_with_def Let_def split: option.splits)
  then show ?thesis
    using None untrimmed(1,2) by (auto simp: gate_for_graph_with_def trimmed_graph_def visible_subgraph_def list_all_iff)
next
  case (Some G)
  note G = gate_is [OF Some]
  have "hidden_class_iris G = {c. \<exists>n. n \<in> set (doc_nodes g) \<and> gn_id n \<in> hidden_ids session g \<and> gn_owl_class_iri n = Some c}"
    by (force simp: hidden_class_iris_def G(1,3) hidden_ids_def List.map_filter_def)
  then show ?thesis using Some G(2,3) id_at_slot_is [OF Some] by (simp add: gate_for_graph_with_def trimmed_graph_def)
qed

text \<open>Ids are positions, as \<open>remap_to_compact_ids\<close> leaves them.\<close>

definition compact_ids :: "graph_document \<Rightarrow> bool" where
  "compact_ids g \<longleftrightarrow> length (doc_nodes g) \<le> 2 ^ 32 \<and> map gn_id (doc_nodes g) = map word_of_nat [0..<length (doc_nodes g)]"

lemma id_at_slot_compact:
  assumes "gate_for_graph_with lower g session True = Some G" and "compact_ids g"
  shows "id_at_slot G i = (if i < 2 ^ 32 \<and> word_of_nat i \<in> gn_id ` set (visible_nodes session g) then Some (word_of_nat i) else None)"
proof -
  have nth: "gn_id (doc_nodes g ! j) = word_of_nat j" if "j < length (doc_nodes g)" for j
    using assms(2) that unfolding compact_ids_def by (metis (no_types, lifting) add_0 length_map nth_map nth_map_upt diff_zero)
  have range: "i < length (doc_nodes g)" if "i < 2 ^ 32" "word_of_nat i \<in> gn_id ` set (visible_nodes session g)"
  proof -
    from that(2) obtain n where n: "(word_of_nat i :: u32) = gn_id n" "n \<in> set (doc_nodes g)" by (auto simp: visible_nodes_def)
    then obtain j where j: "j < length (doc_nodes g)" "n = doc_nodes g ! j" by (auto simp: in_set_conv_nth)
    then have "(word_of_nat i :: u32) = word_of_nat j" using n nth by simp
    moreover have "j < 2 ^ 32" using j(1) assms(2) by (simp add: compact_ids_def)
    ultimately have "i = j" using that(1) u32_small by metis
    then show ?thesis using j(1) by simp
  qed
  have len: "length (doc_nodes g) \<le> 2 ^ 32" using assms(2) by (simp add: compact_ids_def)
  have "id_at_slot G i = Some n \<longleftrightarrow> i < 2 ^ 32 \<and> n = word_of_nat i \<and> n \<in> gn_id ` set (visible_nodes session g)" for n
  proof (cases "i < 2 ^ 32")
    case True
    note u = u32_small [OF this]
    show ?thesis
    proof
      assume "id_at_slot G i = Some n"
      then show "i < 2 ^ 32 \<and> n = word_of_nat i \<and> n \<in> gn_id ` set (visible_nodes session g)"
        using True nth unfolding id_at_slot_is [OF assms(1)] by metis
    next
      assume "i < 2 ^ 32 \<and> n = word_of_nat i \<and> n \<in> gn_id ` set (visible_nodes session g)"
      then have n: "n = word_of_nat i" "n \<in> gn_id ` set (visible_nodes session g)" by blast+
      then have "i < length (doc_nodes g)" using range True by simp
      then show "id_at_slot G i = Some n"
        using n nth u unfolding id_at_slot_is [OF assms(1)] by metis
    qed
  next
    case False
    then show ?thesis using len unfolding id_at_slot_is [OF assms(1)] by linarith
  qed
  then show ?thesis by (cases "id_at_slot G i") auto
qed
text \<open>
  C7. Non-interference of the path queries. On compact documents the answers to a caller with a gate
  depend only on the ids of the nodes the caller may see and on the edges between them, whatever
  hidden nodes, edges and metadata the document has; and they name no other node.
\<close>

theorem hidden_nodes_do_not_influence_paths:
  assumes "visible_part session g = visible_part session h" and "compact_ids g" and "compact_ids h"
    and G: "gate_for_graph_with lower g session True = Some G" and H: "gate_for_graph_with lower h session True = Some H"
    and "pops_greatest pick"
  shows "visible_shortest_path pick G i paths = visible_shortest_path pick H i paths
    \<and> visible_point_to_point pick G s t = visible_point_to_point pick H s t
    \<and> (case visible_shortest_path pick G i paths of
        Some (Some r) \<Rightarrow> pr_source_node r \<in> gn_id ` set (visible_nodes session g)
          \<and> dom (pr_distances r) \<subseteq> gn_id ` set (visible_nodes session g)
          \<and> (\<forall>n. case pr_paths r n of Some (Some p) \<Rightarrow> set p \<subseteq> gn_id ` set (visible_nodes session g) | _ \<Rightarrow> True)
      | _ \<Rightarrow> True)"
proof -
  have nodes: "set (graph_node_ids (visible_part session g)) = gn_id ` set (visible_nodes session g)"
    by (simp add: visible_part_def)
  then have ids: "gn_id ` set (visible_nodes session g) = gn_id ` set (visible_nodes session h)"
    using assms(1) by (simp add: visible_part_def) (metis list.set_map)
  have slot: "id_at_slot G i = id_at_slot H i"
    unfolding id_at_slot_compact [OF G assms(2)] id_at_slot_compact [OF H assms(3)] ids by (rule refl)
  have search: "single_source pick (search_graph (gate_view G)) u = single_source pick (visible_part session g) u"
    "single_source pick (search_graph (gate_view H)) u = single_source pick (visible_part session g) u" for u
    unfolding gate_is(2) [OF G] gate_is(2) [OF H] search_in_view assms(1) by (rule refl)+
  have source: "j \<in> gn_id ` set (visible_nodes session g)" if "id_at_slot H i = Some j" for j
    using that unfolding id_at_slot_compact [OF H assms(3)] ids by (auto split: if_splits)
  note inside = search_stays_inside [OF _ assms(6), of "visible_part session g", unfolded nodes]
  have "case visible_shortest_path pick H i paths of
        Some (Some r) \<Rightarrow> pr_source_node r \<in> gn_id ` set (visible_nodes session g)
          \<and> dom (pr_distances r) \<subseteq> gn_id ` set (visible_nodes session g)
          \<and> (\<forall>n. case pr_paths r n of Some (Some p) \<Rightarrow> set p \<subseteq> gn_id ` set (visible_nodes session g) | _ \<Rightarrow> True)
      | _ \<Rightarrow> True"
  proof (cases "\<exists>j r. id_at_slot H i = Some j \<and> single_source pick (visible_part session g) j = Some (Some r)")
    case True
    then obtain j r where r: "id_at_slot H i = Some j" "single_source pick (visible_part session g) j = Some (Some r)" by blast
    then show ?thesis
      using source [OF r(1)] inside [OF r(2)] by (simp add: visible_shortest_path_def search split: option.split)
  next
    case False
    then show ?thesis by (auto simp: visible_shortest_path_def search split: option.split)
  qed
  moreover have "visible_shortest_path pick G i paths = visible_shortest_path pick H i paths"
    unfolding visible_shortest_path_def search slot by (rule refl)
  moreover have "visible_point_to_point pick G s t = visible_point_to_point pick H s t"
    unfolding visible_point_to_point_def search by (rule refl)
  ultimately show ?thesis by simp
qed

text \<open>Two documents that differ in a private node and in the edge to it.\<close>

definition example_page :: "u32 \<Rightarrow> string \<Rightarrow> string option \<Rightarrow> graph_node" where
  "example_page i name owner = \<lparr>gn_id = i, gn_metadata_id = name, gn_label = name,
     gn_data = \<lparr>node_id = i, node_pos = (0, 0, 0), node_vel = (0, 0, 0)\<rparr>, gn_owl_class_iri = None,
     gn_metadata = (case owner of None \<Rightarrow> [''public'' \<mapsto> ''true''] | Some k \<Rightarrow> [''owner_pubkey'' \<mapsto> k]), gn_node_type = None\<rparr>"

definition example_edge :: "u32 \<Rightarrow> u32 \<Rightarrow> document_edge" where
  "example_edge u v = \<lparr>edge_source = u, edge_target = v, edge_weight_f = 0x3F800000, de_id = [], de_edge_type = None,
     de_metadata = None\<rparr>"

definition example_document :: "string \<Rightarrow> document_edge list \<Rightarrow> graph_document" where
  "example_document secret es = \<lparr>doc_nodes = [example_page 0 ''A'' None, example_page 1 ''B'' None, example_page 2 secret (Some ''k'')],
     doc_edges = example_edge 0 1 # es, doc_metadata = [], doc_id_to_metadata = []\<rparr>"

lemma example_visible:
  "visible_nodes None (example_document secret es) = [example_page 0 ''A'' None, example_page 1 ''B'' None]"
  by (simp add: visible_nodes_def example_document_def example_page_def node_is_visible_def of_node_def visibility_of_node_def
      is_visible_to_def is_dropped_for_def to_ascii_lowercase_def ascii_lower_def Let_def)

lemma example_joins:
  "joins_visible None (example_document secret es) = (\<lambda>e. edge_source e \<in> {0, 1} \<and> edge_target e \<in> {0, 1})"
  by (rule ext) (simp add: joins_visible_def example_visible example_page_def)

lemma example_gate: "\<exists>G. gate_for_graph_with lower (example_document secret es) None True = Some G"
proof -
  have "length (visible_nodes None (example_document secret es)) \<noteq> length (doc_nodes (example_document secret es))"
    by (simp add: example_visible) (simp add: example_document_def)
  then show ?thesis by (simp add: gate_for_graph_with_def trimmed_graph_def visible_nodes_def Let_def)
qed

lemma example_compact: "compact_ids (example_document secret es)"
  by (simp add: compact_ids_def example_document_def example_page_def upt_rec)

theorem hidden_nodes_do_not_influence_paths_witness:
  "\<exists>G H. gate_for_graph_with id (example_document ''Secret'' []) None True = Some G
    \<and> gate_for_graph_with id (example_document ''Other'' [example_edge 0 2, example_edge 1 2]) None True = Some H
    \<and> visible_shortest_path pick_least G 0 True = visible_shortest_path pick_least H 0 True"
proof -
  obtain G H where gates: "gate_for_graph_with id (example_document ''Secret'' []) None True = Some G"
    "gate_for_graph_with id (example_document ''Other'' [example_edge 0 2, example_edge 1 2]) None True = Some H"
    using example_gate by blast
  have "visible_part None (example_document ''Secret'' []) = visible_part None (example_document ''Other'' [example_edge 0 2, example_edge 1 2])"
    unfolding visible_part_def example_visible example_joins
    by (simp add: example_document_def example_edge_def)
  from hidden_nodes_do_not_influence_paths [OF this example_compact example_compact gates pick_least_pops]
  show ?thesis using gates by blast
qed

section \<open>Documents and streams\<close>

lemma map_of_kept:
  assumes "P k"
  shows "map_of (map (\<lambda>(k, r). (k, f r)) (filter (\<lambda>(k, _). P k) xs)) k = map_option f (map_of xs k)"
  using assms by (induction xs) auto

lemma view_scores:
  assumes "n \<in> set (visible_nodes session g)"
  shows "Option.bind (map_of (doc_metadata (visible_subgraph lower g session True)) (gn_metadata_id n)) mr_quality_score
      = Option.bind (map_of (doc_metadata g) (gn_metadata_id n)) mr_quality_score"
    and "Option.bind (map_of (doc_metadata (visible_subgraph lower g session True)) (gn_metadata_id n)) mr_authority_score
      = Option.bind (map_of (doc_metadata g) (gn_metadata_id n)) mr_authority_score"
proof -
  have kept: "gn_metadata_id n \<in> gn_metadata_id ` set (visible_nodes session g)" using assms by simp
  have "Option.bind (map_of (doc_metadata (visible_subgraph lower g session True)) (gn_metadata_id n)) score
      = Option.bind (map_of (doc_metadata g) (gn_metadata_id n)) score"
    if "\<And>names row. score (scrub_row lower names row) = score row" for score :: "metadata_row \<Rightarrow> f64 option"
  proof (cases rule: visible_subgraph_cases [of lower g session])
    case (cut v)
    have "map_of (doc_metadata v) (gn_metadata_id n)
        = map_option (scrub_row lower (view_names lower session g)) (map_of (doc_metadata g) (gn_metadata_id n))"
      unfolding trimmed [OF cut(1)] graph_document.simps by (rule map_of_kept [where P = "\<lambda>k. k \<in> gn_metadata_id ` set (visible_nodes session g)", OF kept])
    then show ?thesis by (cases "map_of (doc_metadata g) (gn_metadata_id n)") (simp_all add: cut(2) that)
  qed simp
  then show "Option.bind (map_of (doc_metadata (visible_subgraph lower g session True)) (gn_metadata_id n)) mr_quality_score
      = Option.bind (map_of (doc_metadata g) (gn_metadata_id n)) mr_quality_score"
    "Option.bind (map_of (doc_metadata (visible_subgraph lower g session True)) (gn_metadata_id n)) mr_authority_score
      = Option.bind (map_of (doc_metadata g) (gn_metadata_id n)) mr_authority_score" by simp_all
qed

text \<open>The scores the filter reads are not among the fields the view scrubs.\<close>

lemma keeps_node_scrub [simp]: "keeps_node f g (scrub_node lower names n) = keeps_node f g n"
  by (simp add: keeps_node_def node_quality_def node_authority_def scrub_node_other)

lemma keeps_node_view:
  "n \<in> set (visible_nodes session g) \<Longrightarrow> keeps_node f (visible_subgraph lower g session True) n = keeps_node f g n"
  by (simp add: keeps_node_def node_quality_def node_authority_def view_scores)

lemma kept_in_view:
  "gn_id ` set (filter (keeps_node f (visible_subgraph lower g session True)) (doc_nodes (visible_subgraph lower g session True)))
     = gn_id ` set (filter (keeps_node f g) (visible_nodes session g))"
proof (cases rule: visible_subgraph_cases [of lower g session])
  case same
  then show ?thesis using untrimmed(1) [OF same(1)] by simp
next
  case (cut v)
  have "set (filter (keeps_node f v) (doc_nodes v))
      = scrub_node lower (view_names lower session g) ` {n \<in> set (visible_nodes session g). keeps_node f v n}"
    unfolding trimmed [OF cut(1)] by auto
  moreover have "{n \<in> set (visible_nodes session g). keeps_node f v n} = {n \<in> set (visible_nodes session g). keeps_node f g n}"
    using keeps_node_view [of _ session g f lower] cut(2) by blast
  ultimately show ?thesis by (simp add: cut(2) image_image)
qed

definition entitled_nodes :: "string option \<Rightarrow> bool \<Rightarrow> graph_document \<Rightarrow> graph_node list" where
  "entitled_nodes session policy_on g = (if policy_on then visible_nodes session g else doc_nodes g)"

lemma reply_ids:
  assumes "filter_update_reply lower f g session policy_on = (f', nodes, edges)"
  shows "filtered_node_ids f' = gn_id ` set (filter (keeps_node f g) (entitled_nodes session policy_on g))"
    "in_id ` set nodes = filtered_node_ids f'" "filter_enabled f' = filter_enabled f"
    "list_all (\<lambda>e. ie_source e \<in> filtered_node_ids f' \<and> ie_target e \<in> filtered_node_ids f') edges"
proof -
  let ?view = "visible_subgraph lower g session policy_on"
  have f': "f' = f\<lparr>filtered_node_ids := gn_id ` set (filter (keeps_node f ?view) (doc_nodes ?view))\<rparr>"
    and nodes: "nodes = map initial_node_of (filter (\<lambda>n. gn_id n \<in> filtered_node_ids f') (doc_nodes ?view))"
    and edges: "edges = map initial_edge_of (filter (\<lambda>e. edge_source e \<in> filtered_node_ids f' \<and> edge_target e \<in> filtered_node_ids f') (doc_edges ?view))"
    using assms by (auto simp: filter_update_reply_def recompute_filtered_nodes_def Let_def)
  show "filtered_node_ids f' = gn_id ` set (filter (keeps_node f g) (entitled_nodes session policy_on g))"
  proof (cases policy_on)
    case True
    then show ?thesis using kept_in_view [of f lower g session] by (simp add: f' entitled_nodes_def)
  next
    case False
    then show ?thesis by (simp add: f' entitled_nodes_def visible_subgraph_def trimmed_graph_def)
  qed
  show "in_id ` set nodes = filtered_node_ids f'"
    unfolding nodes by (auto simp: image_image initial_node_of_def f')
  show "filter_enabled f' = filter_enabled f" by (simp add: f')
  show "list_all (\<lambda>e. ie_source e \<in> filtered_node_ids f' \<and> ie_target e \<in> filtered_node_ids f') edges"
    unfolding edges by (simp add: list_all_iff initial_edge_of_def)
qed

lemma not_withheld:
  assumes "distinct (map gn_id (doc_nodes g))" and "n \<in> set (entitled_nodes session policy_on g)"
  shows "case hidden_of (get_node_type_arrays kn ag cs ins ps g) policy_on session of None \<Rightarrow> True | Some h \<Rightarrow> gn_id n \<notin> h"
proof (cases policy_on)
  case True
  then have n: "n \<in> set (doc_nodes g)" "is_visible_to session (of_node n)"
    using assms(2) by (simp_all add: entitled_nodes_def visible_nodes_def node_is_visible_def)
  have "gn_id n \<notin> compute_private_opaque_ids (private_nodes (get_node_type_arrays kn ag cs ins ps g)) session"
  proof
    assume "gn_id n \<in> compute_private_opaque_ids (private_nodes (get_node_type_arrays kn ag cs ins ps g)) session"
    then obtain m where m: "m \<in> set (doc_nodes g)" "vis_wire_id (of_node m) = gn_id n" "is_dropped_for session (of_node m)"
      by (auto simp: compute_private_opaque_ids_def get_node_type_arrays_def)
    then have "m = n" using assms(1) n(1) by (auto simp: of_node_def visibility_of_node_def Let_def distinct_map dest: inj_onD)
    then show False using m(3) n(2) by (simp add: is_visible_to_def)
  qed
  then show ?thesis by (simp add: hidden_of_def)
qed (simp add: hidden_of_def)

lemma not_streamable:
  assumes "i \<in> gn_id ` set (doc_nodes g)" and "i \<notin> gn_id ` set (entitled_nodes session policy_on g)"
  shows "\<exists>h. hidden_of (get_node_type_arrays kn ag cs ins ps g) policy_on session = Some h \<and> i \<in> h"
proof -
  obtain n where n: "n \<in> set (doc_nodes g)" "gn_id n = i" using assms(1) by auto
  then have pol: "policy_on" "is_dropped_for session (of_node n)"
    using assms(2) by (auto simp: entitled_nodes_def visible_nodes_def node_is_visible_def is_visible_to_def split: if_splits)
  then have "\<not> vis_public (of_node n)" by (auto simp: is_dropped_for_def)
  then have v: "of_node n \<in> set (private_nodes (get_node_type_arrays kn ag cs ins ps g))"
    using n(1) by (simp add: get_node_type_arrays_def)
  moreover have "vis_wire_id (of_node n) = i" using n(2) by (simp add: of_node_def visibility_of_node_def Let_def)
  ultimately have "i \<in> compute_private_opaque_ids (private_nodes (get_node_type_arrays kn ag cs ins ps g)) session"
    using pol(2) by (force simp: compute_private_opaque_ids_def)
  then show ?thesis using pol(1) v by (auto simp: hidden_of_def)
qed

text \<open>What the pump counts as visible to a client after a filter update, by the state of the filter.\<close>

lemma pump_visible_after_update:
  assumes "distinct (map gn_id (doc_nodes g))"
    and reply: "filter_update_reply lower f g session policy_on = (client_filter c, nodes, edges)" and "pubkey c = session"
    and "pc_nta cx = get_node_type_arrays kn ag cs ins ps g"
  shows "pump_visible cx policy_on c i \<longleftrightarrow>
    i \<in> (if filter_enabled f then in_id ` set nodes
         else UNIV - (gn_id ` set (doc_nodes g) - gn_id ` set (entitled_nodes session policy_on g)))"
proof -
  note r = reply_ids [OF reply]
  let ?nta = "get_node_type_arrays kn ag cs ins ps g"
  let ?hidden = "hidden_of ?nta policy_on session"
  have hid: "(case ?hidden of None \<Rightarrow> True | Some h \<Rightarrow> i \<notin> h)" if "i \<in> gn_id ` set (entitled_nodes session policy_on g)"
    using not_withheld [OF assms(1)] that by auto
  have outside: "(case ?hidden of None \<Rightarrow> True | Some h \<Rightarrow> i \<notin> h)" if "i \<notin> gn_id ` set (doc_nodes g)"
    using that by (auto simp: hidden_of_def compute_private_opaque_ids_def get_node_type_arrays_def of_node_def
        visibility_of_node_def Let_def)
  have vis: "pump_visible cx policy_on c i \<longleftrightarrow> (\<not> filter_enabled f \<or> i \<in> in_id ` set nodes)
      \<and> (case ?hidden of None \<Rightarrow> True | Some h \<Rightarrow> i \<notin> h)"
    unfolding r(2) by (simp add: pump_visible_def client_sees_def assms(3,4) r(3))
  show ?thesis
  proof (cases "filter_enabled f")
    case True
    have "in_id ` set nodes \<subseteq> gn_id ` set (entitled_nodes session policy_on g)" unfolding r(2) unfolding r(1) by auto
    then show ?thesis using vis True hid by auto
  next
    case False
    have "(case ?hidden of None \<Rightarrow> True | Some h \<Rightarrow> i \<notin> h) \<longleftrightarrow>
        (i \<in> gn_id ` set (doc_nodes g) \<longrightarrow> i \<in> gn_id ` set (entitled_nodes session policy_on g))"
      using hid outside not_streamable [of i g session policy_on kn ag cs ins ps] by fastforce
    then show ?thesis using vis False by simp
  qed
qed

text \<open>Enough rounds make a client hold a position of exactly the visible nodes of the cache.\<close>

lemma pump_settles:
  assumes cache: "compact_cache (pc_cache cx)" "enumerates (pc_keys cx) (pc_cache cx)"
    and s: "in_flight (stream c) = []" "\<forall>n h. acked (stream c) n = Some h \<longrightarrow> held_seq h \<le> sq"
    and k: "unat sq + k < 2 ^ 64" "card (dom (pc_cache cx)) \<le> k * max (chunk_nodes (pc_settings cx)) 1"
  shows "dom (acked (rounds (pc_cache cx) (pc_keys cx) (pump_visible cx policy_on c) (analytics_key_of cx) (pc_settings cx)
      now k sq (retained_stream cx policy_on c))) = {n \<in> dom (pc_cache cx). pump_visible cx policy_on c n}"
proof -
  let ?s = "retained_stream cx policy_on c" and ?v = "pump_visible cx policy_on c"
  have keys: "distinct (pc_keys cx)" "set (pc_keys cx) = dom (pc_cache cx)" "\<forall>i p. pc_cache cx i = Some p \<longrightarrow> node_id p = i"
    using cache by (simp_all add: enumerates_def compact_cache_def)
  have "finite (dom (pc_cache cx))" using keys(2) by (metis finite_set)
  then have "card (behind (pc_cache cx) ?v (analytics_key_of cx) (pc_settings cx) ?s) \<le> card (dom (pc_cache cx))"
    by (rule card_mono) (auto simp: behind_def)
  then have fits: "card (behind (pc_cache cx) ?v (analytics_key_of cx) (pc_settings cx) ?s) \<le> k * max (chunk_nodes (pc_settings cx)) 1"
    using k(2) by simp
  have start: "in_flight ?s = []" "\<forall>n h. acked ?s n = Some h \<longrightarrow> held_seq h \<le> sq"
    and kept: "acked ?s n \<noteq> None \<Longrightarrow> n \<in> dom (pc_cache cx) \<and> ?v n" for n
    using s by (auto simp: retained_stream_def retain_nodes_def split: if_splits)
  let ?final = "rounds (pc_cache cx) (pc_keys cx) ?v (analytics_key_of cx) (pc_settings cx) now k sq ?s"
  note held = rounds_deliver [OF start keys k(1) fits refl]
  have "acked ?final n \<noteq> None \<longleftrightarrow> n \<in> dom (pc_cache cx) \<and> ?v n" for n
  proof (cases "n \<in> dom (pc_cache cx) \<and> ?v n")
    case True
    then show ?thesis using held(2) by blast
  next
    case False
    then have "acked ?final n = acked ?s n" by (intro held(3)) auto
    then show ?thesis using kept [of n] False by auto
  qed
  then show ?thesis by blast
qed

text \<open>
  C17. After a filter update, the document a client is sent and its position stream go together, for a
  graph with distinct ids whose private nodes the graph actor has published. The document has exactly
  the nodes the caller may see that pass the filter, and only edges between them. With the filter
  enabled, every frame any pump hands the client carries positions of nodes of that document only;
  with it disabled, the ids of the filter are not used, and frames carry no node of the graph that is
  hidden from the caller. From any state with nothing in flight, enough rounds of planning, sending
  and acknowledging make the client hold a position of exactly the nodes that may be streamed and
  that the cache has.
\<close>

theorem documents_and_streams_agree:
  assumes "distinct (map gn_id (doc_nodes g))"
    and reply: "filter_update_reply lower f g session policy_on = (client_filter c, nodes, edges)"
    and c: "clients m j = Some c" "pubkey c = session"
    and nta: "pc_nta cx = get_node_type_arrays kn ag cs ins ps g"
    and cache: "compact_cache (pc_cache cx)" "enumerates (pc_keys cx) (pc_cache cx)"
      "chunk_nodes (pc_settings cx) \<le> MAX_NODE_COUNT"
  defines "streamed \<equiv> if filter_enabled f then in_id ` set nodes
      else UNIV - (gn_id ` set (doc_nodes g) - gn_id ` set (entitled_nodes session policy_on g))"
  shows "in_id ` set nodes = gn_id ` set (filter (keeps_node f g) (entitled_nodes session policy_on g))
    \<and> list_all (\<lambda>e. ie_source e \<in> in_id ` set nodes \<and> ie_target e \<in> in_id ` set nodes) edges
    \<and> (\<forall>ts order seq frame. (j, frame) \<in> set (delivered (pm_result (pump_all ts cx policy_on order m seq))) \<longrightarrow>
         (\<exists>ps. decode_node_data frame = Ok ps \<and> ps \<noteq> [] \<and> (\<forall>(n, p) \<in> set ps. n \<in> streamed \<and> pc_cache cx n = Some p)))
    \<and> (\<forall>now k sq. in_flight (stream c) = [] \<longrightarrow> (\<forall>n h. acked (stream c) n = Some h \<longrightarrow> held_seq h \<le> sq) \<longrightarrow>
         unat sq + k < 2 ^ 64 \<longrightarrow> card (dom (pc_cache cx)) \<le> k * max (chunk_nodes (pc_settings cx)) 1 \<longrightarrow>
         dom (acked (rounds (pc_cache cx) (pc_keys cx) (pump_visible cx policy_on c) (analytics_key_of cx) (pc_settings cx)
           now k sq (retained_stream cx policy_on c))) = dom (pc_cache cx) \<inter> streamed)"
proof -
  note r = reply_ids [OF reply]
  have vis: "pump_visible cx policy_on c i \<longleftrightarrow> i \<in> streamed" for i
    unfolding streamed_def using pump_visible_after_update [OF assms(1) reply c(2) nta] by blast
  have ids: "in_id ` set nodes = gn_id ` set (filter (keeps_node f g) (entitled_nodes session policy_on g))"
    unfolding r(2) by (rule r(1))
  have edges: "list_all (\<lambda>e. ie_source e \<in> in_id ` set nodes \<and> ie_target e \<in> in_id ` set nodes) edges"
    unfolding r(2) by (rule r(4))
  have frames: "\<exists>ps. decode_node_data frame = Ok ps \<and> ps \<noteq> [] \<and> (\<forall>(n, p) \<in> set ps. n \<in> streamed \<and> pc_cache cx n = Some p)"
    if "(j, frame) \<in> set (delivered (pm_result (pump_all ts cx policy_on order m seq)))" for ts order seq frame
  proof -
    have "pump_ok cx policy_on m (pump_all ts cx policy_on order m seq)"
      unfolding pump_all_eq using pump_fold_ok [OF cache(1,3) initial_pump_ok] by simp
    then have "shows_only cx policy_on c frame" using that c(1) by (fastforce simp: pump_ok_def)
    then show ?thesis unfolding shows_only_def vis by blast
  qed
  have "dom (acked (rounds (pc_cache cx) (pc_keys cx) (pump_visible cx policy_on c) (analytics_key_of cx) (pc_settings cx)
      now k sq (retained_stream cx policy_on c))) = dom (pc_cache cx) \<inter> streamed"
    if "in_flight (stream c) = []" "\<forall>n h. acked (stream c) n = Some h \<longrightarrow> held_seq h \<le> sq"
      "unat sq + k < 2 ^ 64" "card (dom (pc_cache cx)) \<le> k * max (chunk_nodes (pc_settings cx)) 1" for now k sq
    using pump_settles [OF cache(1,2) that, where policy_on = policy_on and now = now] by (simp add: vis Int_def)
  then show ?thesis using ids edges frames by blast
qed

definition example_update_context :: pump_context where
  "example_update_context =
     \<lparr>pc_cache = [1 \<mapsto> \<lparr>node_id = 1, node_pos = (7, 8, 9), node_vel = (0, 0, 0)\<rparr>, 2 \<mapsto> \<lparr>node_id = 2, node_pos = (1, 1, 1), node_vel = (0, 0, 0)\<rparr>],
      pc_keys = [1, 2], pc_nta = get_node_type_arrays [] [] [] [] [] (example_document ''Secret'' []),
      pc_settings = \<lparr>chunk_nodes = 1, move_threshold = 0, ack_timeout = 10\<rparr>, pc_analytics = None, pc_now = 0\<rparr>"

lemma example_update:
  "pc_nta example_update_context = get_node_type_arrays [] [] [] [] [] (example_document ''Secret'' [])"
  "compact_cache (pc_cache example_update_context)" "enumerates (pc_keys example_update_context) (pc_cache example_update_context)"
  "chunk_nodes (pc_settings example_update_context) \<le> MAX_NODE_COUNT" "dom (pc_cache example_update_context) = {1, 2}"
  "chunk_nodes (pc_settings example_update_context) = 1"
  by (auto simp: example_update_context_def compact_cache_def enumerates_def NODE_ID_MASK_def limit_consts split: if_splits)

theorem documents_and_streams_agree_witness:
  "\<exists>c nodes edges. filter_update_reply id (default_filter\<lparr>filter_enabled := True\<rparr>) (example_document ''Secret'' []) None True
      = (client_filter c, nodes, edges) \<and> in_id ` set nodes = {0, 1}
    \<and> dom (acked (rounds (pc_cache example_update_context) (pc_keys example_update_context) (pump_visible example_update_context True c)
        (analytics_key_of example_update_context) (pc_settings example_update_context) 0 2 0
        (retained_stream example_update_context True c))) = {1}"
proof -
  let ?f = "default_filter\<lparr>filter_enabled := True\<rparr>" and ?g = "example_document ''Secret'' []"
  obtain f' nodes edges where r: "filter_update_reply id ?f ?g None True = (f', nodes, edges)" by (metis prod_cases3)
  obtain c0 :: client_state where c0: "stream c0 = new_stream" using example_client by blast
  define c where "c = c0\<lparr>client_filter := f', pubkey := None\<rparr>"
  define m where "m = example_manager\<lparr>clients := [1 \<mapsto> c]\<rparr>"
  have c: "clients m 1 = Some c" "pubkey c = None" "client_filter c = f'" "stream c = new_stream"
    by (simp_all add: m_def c_def c0)
  have reply: "filter_update_reply id ?f ?g None True = (client_filter c, nodes, edges)" using r c(3) by simp
  have "distinct (map gn_id (doc_nodes ?g))" by (simp add: example_document_def example_page_def)
  note agree = documents_and_streams_agree [OF this reply c(1,2) example_update(1-4)]
  have "filter (keeps_node ?f ?g) (entitled_nodes None True ?g) = [example_page 0 ''A'' None, example_page 1 ''B'' None]"
    by (simp add: entitled_nodes_def example_visible keeps_node_def population_type_def example_page_def default_filter_def)
  then have shown: "in_id ` set nodes = {0, 1}" using agree by (simp add: example_page_def)
  have "in_flight (stream c) = []" "\<forall>n h. acked (stream c) n = Some h \<longrightarrow> held_seq h \<le> 0" "unat (0 :: u64) + 2 < 2 ^ 64"
    "card (dom (pc_cache example_update_context)) \<le> 2 * max (chunk_nodes (pc_settings example_update_context)) 1"
    by (simp_all add: c(4) new_stream_def example_update(5,6))
  then have "dom (acked (rounds (pc_cache example_update_context) (pc_keys example_update_context) (pump_visible example_update_context True c)
        (analytics_key_of example_update_context) (pc_settings example_update_context) 0 2 0
        (retained_stream example_update_context True c))) = dom (pc_cache example_update_context) \<inter> in_id ` set nodes"
    using agree [THEN conjunct2, THEN conjunct2, THEN conjunct2] by simp
  also have "\<dots> = {1}" by (auto simp: shown example_update(5))
  finally show ?thesis using reply shown by blast
qed

text \<open>
  Scope removal is said always to apply. The reply applies it whether the filter is enabled or not;
  the pump looks at the ids of the filter only when it is enabled, so with the default filter it
  sends positions of \<open>linked_page\<close> stubs the reply has left out.
\<close>

definition stub_document :: graph_document where
  "stub_document = \<lparr>doc_nodes = [(example_page 0 ''A'' None)\<lparr>gn_node_type := Some ''linked_page''\<rparr>], doc_edges = [],
     doc_metadata = [], doc_id_to_metadata = []\<rparr>"

lemma stubs_are_streamed_while_disabled:
  "case filter_update_reply lower default_filter stub_document None False of (f', nodes, edges) \<Rightarrow>
     nodes = [] \<and> client_sees f' (hidden_of (get_node_type_arrays [] [] [] [] [] stub_document) False None) 0"
  by (simp add: filter_update_reply_def visible_subgraph_def trimmed_graph_def recompute_filtered_nodes_def keeps_node_def
      population_type_def stub_document_def example_page_def default_filter_def client_sees_def hidden_of_def
      Let_def del: set_filter)

text \<open>
  The lists of a node are stored as one string, joined with commas, and split at commas again, so the
  name of a hidden page that has a comma in it is taken for two names and stays.
\<close>

lemma a_name_with_a_comma_stays:
  "scrub_list (\<lambda>n. n = ''Smith, John'') ''is_subclass_of'' '','' [''is_subclass_of'' \<mapsto> ''Thing,Smith, John''] ''is_subclass_of''
     = Some ''Thing,Smith,John''"
  by code_simp

end
