(* ===== verification/Hold_Registry.thy ===== *)
theory Hold_Registry
  imports Float32
begin

text \<open>
  \<open>src/actors/gpu/hold_registry.rs\<close>: which connection holds which node, and which nodes
  are pinned on purpose. The four hash tables of the registry are finite maps and a set. An
  operation that iterates over the \<open>held\<close> table takes the order in which the table
  yields its keys as the argument \<open>ks\<close>; theorems assume only that \<open>ks\<close> enumerates the
  keys, so they hold for every iteration order.
\<close>

section \<open>State and operations\<close>

datatype release_kind = Ignored | Rejoined | KeptPinned

record hold_registry =
  held :: "u32 \<rightharpoonup> u64"
  explicit :: "u32 set"
  positions :: "u32 \<rightharpoonup> vec3"
  touched :: "u32 \<rightharpoonup> instant"

definition new_registry :: hold_registry where
  "new_registry = \<lparr>held = Map.empty, explicit = {}, positions = Map.empty, touched = Map.empty\<rparr>"

definition moved_to :: "vec3 option \<Rightarrow> vec3 \<Rightarrow> bool" where
  "moved_to old v = (case old of None \<Rightarrow> True | Some u \<Rightarrow> \<not> vec3_eq u v)"

definition hold :: "u64 \<Rightarrow> u32 \<Rightarrow> vec3 \<Rightarrow> instant \<Rightarrow> hold_registry \<Rightarrow> bool \<times> hold_registry" where
  "hold holder node v now r =
     (let owner_changed = (held r node \<noteq> Some holder);
          moved = moved_to (positions r node) v
      in (owner_changed \<or> moved,
          r\<lparr>touched := (touched r)(node \<mapsto> now),
            held := (held r)(node \<mapsto> holder),
            positions := (positions r)(node \<mapsto> v)\<rparr>))"

definition release :: "u64 \<Rightarrow> u32 \<Rightarrow> hold_registry \<Rightarrow> release_kind \<times> hold_registry" where
  "release holder node r =
     (if held r node \<noteq> Some holder then (Ignored, r)
      else let r1 = r\<lparr>held := (held r)(node := None), touched := (touched r)(node := None)\<rparr>
           in if node \<in> explicit r1 then (KeptPinned, r1)
              else (Rejoined, r1\<lparr>positions := (positions r1)(node := None)\<rparr>))"

fun release_each :: "(u32 \<times> u64) list \<Rightarrow> hold_registry \<Rightarrow> (u32 \<times> release_kind) list \<times> hold_registry" where
  "release_each [] r = ([], r)"
| "release_each ((n, h) # nhs) r =
     (let (o1, r1) = release h n r; (os, r2) = release_each nhs r1 in ((n, o1) # os, r2))"

definition release_holder ::
  "u64 \<Rightarrow> u32 list \<Rightarrow> hold_registry \<Rightarrow> (u32 \<times> release_kind) list \<times> hold_registry" where
  "release_holder holder ks r =
     (let owned = filter (\<lambda>n. held r n = Some holder) ks
      in release_each (map (\<lambda>n. (n, holder)) owned) r)"

definition saturating_duration_since :: "instant \<Rightarrow> instant \<Rightarrow> duration" where
  "saturating_duration_since now t = nat (now - t)"

definition is_stale :: "instant \<Rightarrow> duration \<Rightarrow> hold_registry \<Rightarrow> u32 \<Rightarrow> bool" where
  "is_stale now max_age r n =
     (case touched r n of None \<Rightarrow> True | Some t \<Rightarrow> saturating_duration_since now t > max_age)"

definition expire ::
  "instant \<Rightarrow> duration \<Rightarrow> u32 list \<Rightarrow> hold_registry \<Rightarrow> (u32 \<times> release_kind) list \<times> hold_registry" where
  "expire now max_age ks r =
     (let stale = concat (map (\<lambda>n. case held r n of
                                  Some h \<Rightarrow> if is_stale now max_age r n then [(n, h)] else []
                                | None \<Rightarrow> []) ks)
      in release_each stale r)"

definition pin :: "u32 \<Rightarrow> vec3 \<Rightarrow> hold_registry \<Rightarrow> bool \<times> hold_registry" where
  "pin node v r =
     (let newly = (node \<notin> explicit r); moved = moved_to (positions r node) v
      in (newly \<or> moved,
          r\<lparr>explicit := insert node (explicit r), positions := (positions r)(node \<mapsto> v)\<rparr>))"

definition unpin :: "u32 \<Rightarrow> hold_registry \<Rightarrow> bool \<times> hold_registry" where
  "unpin node r =
     (let had = (node \<in> explicit r); r1 = r\<lparr>explicit := explicit r - {node}\<rparr>
      in if had \<and> held r1 node = None
         then (True, r1\<lparr>positions := (positions r1)(node := None)\<rparr>)
         else (False, r1))"

definition any_held :: "hold_registry \<Rightarrow> bool" where
  "any_held r = (dom (held r) \<noteq> {})"

definition held_count :: "hold_registry \<Rightarrow> nat" where
  "held_count r = card (dom (held r))"

definition holder_of :: "u32 \<Rightarrow> hold_registry \<Rightarrow> u64 option" where
  "holder_of node r = held r node"

definition is_explicit :: "u32 \<Rightarrow> hold_registry \<Rightarrow> bool" where
  "is_explicit node r = (node \<in> explicit r)"

text \<open>One call of the registry, for histories of calls.\<close>

datatype hold_op =
    Hold u64 u32 vec3 instant
  | Release u64 u32
  | ReleaseHolder u64 "u32 list"
  | Expire instant duration "u32 list"
  | Pin u32 vec3
  | Unpin u32

fun hold_step :: "hold_op \<Rightarrow> hold_registry \<Rightarrow> hold_registry" where
  "hold_step (Hold h n v t) r = snd (hold h n v t r)"
| "hold_step (Release h n) r = snd (release h n r)"
| "hold_step (ReleaseHolder h ks) r = snd (release_holder h ks r)"
| "hold_step (Expire t d ks) r = snd (expire t d ks r)"
| "hold_step (Pin n v) r = snd (pin n v r)"
| "hold_step (Unpin n) r = snd (unpin n r)"

text \<open>
  The invariant: a node has a pinned position exactly while it is held or explicitly pinned,
  and a last-write time exactly while it is held.
\<close>

definition hold_inv :: "hold_registry \<Rightarrow> bool" where
  "hold_inv r \<longleftrightarrow> dom (positions r) = dom (held r) \<union> explicit r \<and> dom (touched r) = dom (held r)"

section \<open>One operation\<close>

lemma release_Ignored: "held r n \<noteq> Some h \<Longrightarrow> release h n r = (Ignored, r)"
  by (simp add: release_def)

lemma release_frame:
  "held (snd (release h n r)) = (if held r n = Some h then (held r)(n := None) else held r)"
  "explicit (snd (release h n r)) = explicit r"
  "positions (snd (release h n r)) =
     (if held r n = Some h \<and> n \<notin> explicit r then (positions r)(n := None) else positions r)"
  "touched (snd (release h n r)) = (if held r n = Some h then (touched r)(n := None) else touched r)"
  by (auto simp: release_def Let_def)

lemma fst_release:
  "fst (release h n r) =
     (if held r n \<noteq> Some h then Ignored else if n \<in> explicit r then KeptPinned else Rejoined)"
  by (auto simp: release_def Let_def)

lemma release_inv [inv_intros]: "hold_inv r \<Longrightarrow> hold_inv (snd (release h n r))"
  by (auto simp: hold_inv_def release_frame)

lemma release_each_Cons:
  "release_each (p # nhs) r =
     (let r1 = snd (release (snd p) (fst p) r)
      in ((fst p, fst (release (snd p) (fst p) r)) # fst (release_each nhs r1), snd (release_each nhs r1)))"
  by (cases p) (simp add: split_beta Let_def)

lemma release_each_inv [inv_intros]: "hold_inv r \<Longrightarrow> hold_inv (snd (release_each nhs r))"
  by (induction nhs arbitrary: r) (auto simp: release_each_Cons Let_def release_inv)

lemma explicit_release_each: "explicit (snd (release_each nhs r)) = explicit r"
  by (induction nhs arbitrary: r) (simp_all add: release_each_Cons Let_def release_frame)

lemma hold_step_inv [inv_intros]: "hold_inv r \<Longrightarrow> hold_inv (hold_step x r)"
proof (induction x r rule: hold_step.induct)
  case (1 h n v t r)
  then show ?case by (auto simp: hold_inv_def hold_def)
next
  case (5 n v r)
  then show ?case by (auto simp: hold_inv_def pin_def)
next
  case (6 n r)
  then show ?case by (auto simp: hold_inv_def unpin_def Let_def)
qed (auto simp: release_holder_def expire_def intro: inv_intros)

interpretation holds: guarded_component hold_step new_registry hold_inv
  by unfold_locales (simp_all add: hold_step_inv, simp add: hold_inv_def new_registry_def)

section \<open>Releasing a batch of holds\<close>

text \<open>
  The loops of \<open>release_holder\<close> and \<open>expire\<close> release pairs read from the table itself, each
  node once. Their joint effect is described pointwise.
\<close>

definition owned_pairs :: "(u32 \<times> u64) list \<Rightarrow> hold_registry \<Rightarrow> bool" where
  "owned_pairs nhs r \<longleftrightarrow> distinct (map fst nhs) \<and> (\<forall>(n, h) \<in> set nhs. held r n = Some h)"

lemma owned_pairs_Cons:
  "owned_pairs ((n, h) # nhs) r \<Longrightarrow>
     held r n = Some h \<and> n \<notin> fst ` set nhs \<and> owned_pairs nhs (snd (release h n r))"
  by (force simp: owned_pairs_def release_frame)

lemma release_each_effect:
  assumes "owned_pairs nhs r"
  shows "held (snd (release_each nhs r)) = (held r) |` (- fst ` set nhs)
       \<and> touched (snd (release_each nhs r)) = (touched r) |` (- fst ` set nhs)
       \<and> explicit (snd (release_each nhs r)) = explicit r
       \<and> positions (snd (release_each nhs r)) = (positions r) |` (- (fst ` set nhs - explicit r))
       \<and> fst (release_each nhs r)
           = map (\<lambda>(n, h). (n, if n \<in> explicit r then KeptPinned else Rejoined)) nhs"
  using assms
proof (induction nhs arbitrary: r)
  case Nil
  then show ?case by (simp add: restrict_map_def)
next
  case (Cons p nhs)
  obtain n h where p: "p = (n, h)" by (cases p)
  let ?r1 = "snd (release h n r)"
  note own = owned_pairs_Cons [OF Cons.prems [unfolded p]]
  have IH: "held (snd (release_each nhs ?r1)) = (held ?r1) |` (- fst ` set nhs)"
    "touched (snd (release_each nhs ?r1)) = (touched ?r1) |` (- fst ` set nhs)"
    "explicit (snd (release_each nhs ?r1)) = explicit ?r1"
    "positions (snd (release_each nhs ?r1)) = (positions ?r1) |` (- (fst ` set nhs - explicit ?r1))"
    "fst (release_each nhs ?r1)
       = map (\<lambda>(n, h). (n, if n \<in> explicit ?r1 then KeptPinned else Rejoined)) nhs"
    using Cons.IH own by blast+
  show ?case
    unfolding p release_each_Cons Let_def fst_conv snd_conv IH
    using own by (auto simp: release_frame fst_release restrict_map_def fun_eq_iff)
qed

lemma owned_pairs_holder:
  "distinct ks \<Longrightarrow> owned_pairs (map (\<lambda>n. (n, h)) (filter (\<lambda>n. held r n = Some h) ks)) r"
  by (auto simp: owned_pairs_def comp_def)

lemma expire_pairs:
  "distinct ks \<Longrightarrow>
   owned_pairs (concat (map (\<lambda>n. case held r n of
                          Some h \<Rightarrow> if is_stale now d r n then [(n, h)] else []
                        | None \<Rightarrow> []) ks)) r"
  by (induction ks) (auto simp: owned_pairs_def split: option.splits)

lemma expire_nodes:
  "fst ` set (concat (map (\<lambda>n. case held r n of
                          Some h \<Rightarrow> if is_stale now d r n then [(n, h)] else []
                        | None \<Rightarrow> []) ks))
     = {n \<in> set ks \<inter> dom (held r). is_stale now d r n}"
  by (induction ks) (auto simp: image_Un split: option.splits)

lemma explicit_hold_step:
  "n \<in> explicit r \<Longrightarrow> x \<noteq> Unpin n \<Longrightarrow> n \<in> explicit (hold_step x r)"
proof (induction x r rule: hold_step.induct)
  case (3 h ks r)
  then show ?case
    by (simp add: release_holder_def explicit_release_each)
next
  case (4 t d ks r)
  then show ?case by (simp add: expire_def explicit_release_each)
qed (auto simp: hold_def pin_def unpin_def release_frame Let_def)

section \<open>Properties\<close>

text \<open>
  C13. After any history of calls (grabs, releases, disconnects, expiries, pins and unpins in
  any order, from an empty registry) a node has an effective pinned position exactly while it
  is held or explicitly pinned, and a last-write time exactly while it is held. A released
  node therefore never stays anchored by accident.
\<close>
theorem hold_registry_pins_exact:
  "dom (positions (fold hold_step ops new_registry))
     = dom (held (fold hold_step ops new_registry)) \<union> explicit (fold hold_step ops new_registry)
   \<and> dom (touched (fold hold_step ops new_registry)) = dom (held (fold hold_step ops new_registry))"
  using holds.history_inv [of ops] by (simp add: hold_inv_def)

text \<open>
  A disconnect releases exactly what the connection owned. Whatever the iteration order
  \<open>ks\<close> of the table, afterwards the departed holder owns nothing, every other hold keeps its
  holder and write time, explicit pins are untouched, a position is dropped exactly for the
  owned nodes without an explicit pin, and the reported outcomes say so.
\<close>
theorem release_holder_exact:
  assumes "distinct ks" and "set ks = dom (held r)"
  shows "held (snd (release_holder h ks r)) = (\<lambda>n. if held r n = Some h then None else held r n)
    \<and> touched (snd (release_holder h ks r)) = (\<lambda>n. if held r n = Some h then None else touched r n)
    \<and> explicit (snd (release_holder h ks r)) = explicit r
    \<and> positions (snd (release_holder h ks r))
           = (\<lambda>n. if held r n = Some h \<and> n \<notin> explicit r then None else positions r n)
    \<and> set (fst (release_holder h ks r))
           = (\<lambda>n. (n, if n \<in> explicit r then KeptPinned else Rejoined)) ` {n. held r n = Some h}"
proof -
  let ?p = "map (\<lambda>n. (n, h)) (filter (\<lambda>n. held r n = Some h) ks)"
  have owned: "{n \<in> set ks. held r n = Some h} = {n. held r n = Some h}"
    using assms(2) by auto
  have nodes: "fst ` set ?p = {n. held r n = Some h}"
    using owned by (simp add: image_image)
  note eff = release_each_effect [OF owned_pairs_holder [OF assms(1), of h r], unfolded nodes]
  have "set (fst (release_holder h ks r))
          = (\<lambda>n. (n, if n \<in> explicit r then KeptPinned else Rejoined)) ` {n. held r n = Some h}"
    using eff owned by (simp add: release_holder_def image_image)
  then show ?thesis
    using eff by (simp add: release_holder_def restrict_map_def fun_eq_iff)
qed

theorem release_holder_exact_witness:
  "let r = snd (hold 2 5 (0, 0, 0) 8 (snd (hold 1 4 (0, 0, 0) 7 (snd (pin 3 (0, 0, 0)
             (snd (hold 1 3 (0, 0, 0) 6 new_registry)))))))
   in set [3, 4, 5] = dom (held r)
      \<and> held (snd (release_holder 1 [3, 4, 5] r)) 5 = Some 2
      \<and> positions (snd (release_holder 1 [3, 4, 5] r)) 4 = None
      \<and> set (fst (release_holder 1 [3, 4, 5] r)) = {(3, KeptPinned), (4, Rejoined)}"
proof -
  let ?r = "snd (hold 2 5 (0, 0, 0) 8 (snd (hold 1 4 (0, 0, 0) 7 (snd (pin 3 (0, 0, 0)
             (snd (hold 1 3 (0, 0, 0) 6 new_registry)))))))"
  have held: "held ?r = [3 \<mapsto> 1, 4 \<mapsto> 1, 5 \<mapsto> 2]"
    by (simp add: hold_def pin_def new_registry_def Let_def)
  have explicit: "explicit ?r = {3}"
    by (simp add: hold_def pin_def new_registry_def Let_def)
  have dom: "set [3, 4, 5] = dom (held ?r)" unfolding held by auto
  have owned: "{n. held ?r n = Some 1} = {3, 4}" unfolding held by auto
  have "distinct [3, 4, 5 :: u32]" by simp
  note release_holder_exact [OF this dom, of 1, unfolded owned explicit]
  then show ?thesis
    unfolding Let_def using dom by (simp add: held)
qed

text \<open>
  Expiry is exact in the same way: after \<open>expire now max_age\<close> no hold remains that was
  not refreshed within \<open>max_age\<close>, every fresher hold keeps its holder, position and write
  time, and explicit pins stay.
\<close>
theorem expire_exact:
  assumes "distinct ks" and "set ks = dom (held r)"
  shows "held (snd (expire now d ks r)) = (\<lambda>n. if is_stale now d r n then None else held r n)
    \<and> explicit (snd (expire now d ks r)) = explicit r
    \<and> (\<forall>n. n \<in> dom (held r) \<and> \<not> is_stale now d r n \<longrightarrow>
          positions (snd (expire now d ks r)) n = positions r n
        \<and> touched (snd (expire now d ks r)) n = touched r n)
    \<and> (\<forall>n. n \<in> dom (held r) \<and> is_stale now d r n \<longrightarrow>
          positions (snd (expire now d ks r)) n = (if n \<in> explicit r then positions r n else None))"
proof -
  note eff = release_each_effect [OF expire_pairs [OF assms(1), where r = r and now = now and d = d], unfolded expire_nodes assms(2)]
  then show ?thesis
    by (auto simp: expire_def restrict_map_def fun_eq_iff)
qed

theorem expire_exact_witness:
  "let r = snd (hold 2 5 (0, 0, 0) 8 (snd (hold 1 4 (0, 0, 0) 1 new_registry)))
   in set [4, 5] = dom (held r)
      \<and> held (snd (expire 10 5 [4, 5] r)) = [5 \<mapsto> 2]
      \<and> positions (snd (expire 10 5 [4, 5] r)) 5 = Some (0, 0, 0)"
proof -
  let ?r = "snd (hold 2 5 (0, 0, 0) 8 (snd (hold 1 4 (0, 0, 0) 1 new_registry)))"
  have held: "held ?r = [4 \<mapsto> 1, 5 \<mapsto> 2]" and pos: "positions ?r 5 = Some (0, 0, 0)"
    by (simp_all add: hold_def new_registry_def Let_def)
  have stale: "is_stale 10 5 ?r 4" "\<not> is_stale 10 5 ?r 5"
    by (simp_all add: is_stale_def saturating_duration_since_def hold_def new_registry_def Let_def)
  have dom: "set [4, 5] = dom (held ?r)" unfolding held by auto
  have "distinct [4, 5 :: u32]" by simp
  note ex = expire_exact [OF this dom, of 10 5]
  then have "held (snd (expire 10 5 [4, 5] ?r)) = [5 \<mapsto> 2]"
    using stale by (auto simp: held fun_eq_iff)
  moreover have "positions (snd (expire 10 5 [4, 5] ?r)) 5 = Some (0, 0, 0)"
    using ex stale pos held by auto
  ultimately show ?thesis using dom by (simp add: Let_def)
qed

text \<open>
  An explicit pin survives any number of grabs, releases, disconnects and expiries, by any
  connections: while no \<open>unpin\<close> of that node is called, it stays pinned and keeps a position.
\<close>
theorem explicit_pin_survives:
  assumes "hold_inv r" and "n \<in> explicit r" and "Unpin n \<notin> set ops"
  shows "n \<in> explicit (fold hold_step ops r) \<and> n \<in> dom (positions (fold hold_step ops r))"
proof -
  have "n \<in> explicit (fold hold_step ops r)"
    using assms(2,3) by (induction ops arbitrary: r) (auto simp: explicit_hold_step)
  moreover have "hold_inv (fold hold_step ops r)"
    using assms(1) by (rule holds.fold_inv)
  ultimately show ?thesis by (auto simp: hold_inv_def)
qed

theorem explicit_pin_survives_witness:
  "3 \<in> explicit (fold hold_step [Hold 1 3 (0, 0, 0) 7, Release 1 3] (snd (pin 3 (0, 0, 0) new_registry)))"
proof -
  have "hold_inv (snd (pin 3 (0, 0, 0) new_registry))"
    using holds.history_inv [of "[Pin 3 (0, 0, 0)]"] by simp
  then show ?thesis
    using explicit_pin_survives [of _ 3 "[Hold 1 3 (0, 0, 0) 7, Release 1 3]"]
    by (simp add: pin_def Let_def)
qed

end
