(* ===== verification/Circuit_Breaker.thy ===== *)
theory Circuit_Breaker
  imports Prelude Complex_Main
begin

text \<open>
  \<open>src/utils/network/circuit_breaker.rs\<close>: a circuit breaker in front of a fallible
  operation. Each method is a function of the breaker's state and of the instants its clock
  reads return; \<open>execute\<close> composes them as the source does. The request counters are
  64-bit words, so they wrap where the atomics wrap. Failure rates are rational numbers: a
  quotient of two counts compared with one of the decimal thresholds of the configurations has
  the same outcome in \<open>f64\<close> for every history shorter than \<open>2 ^ 49\<close>, because two such
  fractions that differ do so by far more than one unit in the last place and rounding is
  monotone.
\<close>

section \<open>State and operations\<close>

datatype circuit_breaker_state = Closed | Open | HalfOpen

record circuit_breaker_config =
  failure_threshold :: nat
  failure_rate_threshold :: rat
  time_window :: duration
  recovery_timeout :: duration
  success_threshold :: nat
  half_open_max_requests :: nat
  minimum_request_threshold :: nat

definition default_config :: circuit_breaker_config where
  "default_config = \<lparr>failure_threshold = 5, failure_rate_threshold = 1 / 2, time_window = seconds 60,
     recovery_timeout = seconds 30, success_threshold = 3, half_open_max_requests = 5,
     minimum_request_threshold = 10\<rparr>"

definition network_config :: circuit_breaker_config where
  "network_config = \<lparr>failure_threshold = 3, failure_rate_threshold = 6 / 10, time_window = seconds 30,
     recovery_timeout = seconds 15, success_threshold = 2, half_open_max_requests = 3,
     minimum_request_threshold = 5\<rparr>"

definition tcp_connection_config :: circuit_breaker_config where
  "tcp_connection_config = \<lparr>failure_threshold = 5, failure_rate_threshold = 7 / 10,
     time_window = seconds 60, recovery_timeout = seconds 30, success_threshold = 3,
     half_open_max_requests = 5, minimum_request_threshold = 8\<rparr>"

definition websocket_config :: circuit_breaker_config where
  "websocket_config = \<lparr>failure_threshold = 4, failure_rate_threshold = 5 / 10, time_window = seconds 45,
     recovery_timeout = seconds 20, success_threshold = 2, half_open_max_requests = 4,
     minimum_request_threshold = 6\<rparr>"

definition mcp_operations_config :: circuit_breaker_config where
  "mcp_operations_config = \<lparr>failure_threshold = 3, failure_rate_threshold = 4 / 10,
     time_window = seconds 30, recovery_timeout = seconds 10, success_threshold = 2,
     half_open_max_requests = 3, minimum_request_threshold = 5\<rparr>"

datatype request_outcome = Success | Failure | Timeout | Rejected

record request_record =
  rec_timestamp :: instant
  rec_success :: bool

record circuit_breaker =
  cfg :: circuit_breaker_config
  cb_state :: circuit_breaker_state
  consecutive_failures :: nat
  total_requests :: u64
  successful_requests :: u64
  failed_requests :: u64
  rejected_requests :: u64
  half_open_requests :: nat
  half_open_successes :: nat
  last_failure_time :: "instant option"
  state_changed_at :: instant
  request_history :: "request_record list"

definition new_breaker :: "circuit_breaker_config \<Rightarrow> instant \<Rightarrow> circuit_breaker" where
  "new_breaker c now = \<lparr>cfg = c, cb_state = Closed, consecutive_failures = 0, total_requests = 0,
     successful_requests = 0, failed_requests = 0, rejected_requests = 0, half_open_requests = 0,
     half_open_successes = 0, last_failure_time = None, state_changed_at = now, request_history = []\<rparr>"

definition transition_to_open :: "instant \<Rightarrow> circuit_breaker \<Rightarrow> circuit_breaker" where
  "transition_to_open now b =
     (if cb_state b \<noteq> Open then b\<lparr>cb_state := Open, state_changed_at := now\<rparr> else b)"

definition transition_to_half_open :: "instant \<Rightarrow> circuit_breaker \<Rightarrow> circuit_breaker" where
  "transition_to_half_open now b =
     (if cb_state b = Open
      then b\<lparr>cb_state := HalfOpen, half_open_requests := 0, half_open_successes := 0,
             state_changed_at := now\<rparr>
      else b)"

definition transition_to_closed :: "instant \<Rightarrow> circuit_breaker \<Rightarrow> circuit_breaker" where
  "transition_to_closed now b =
     (if cb_state b \<noteq> Closed
      then b\<lparr>cb_state := Closed, consecutive_failures := 0, half_open_requests := 0,
             half_open_successes := 0, state_changed_at := now\<rparr>
      else b)"

definition add_to_history :: "instant \<Rightarrow> bool \<Rightarrow> circuit_breaker \<Rightarrow> circuit_breaker" where
  "add_to_history t ok b =
     (let history = request_history b @ [\<lparr>rec_timestamp = t, rec_success = ok\<rparr>];
          cutoff = t - int (time_window (cfg b))
      in b\<lparr>request_history := filter (\<lambda>r. rec_timestamp r > cutoff) history\<rparr>)"

definition calculate_current_failure_rate :: "circuit_breaker \<Rightarrow> rat" where
  "calculate_current_failure_rate b =
     (if request_history b = [] then 0
      else of_nat (length (filter (\<lambda>r. \<not> rec_success r) (request_history b)))
             / of_nat (length (request_history b)))"

definition count_requests_in_window :: "circuit_breaker \<Rightarrow> nat" where
  "count_requests_in_window b = length (request_history b)"

definition should_open_circuit :: "circuit_breaker \<Rightarrow> bool" where
  "should_open_circuit b =
     (if consecutive_failures b \<ge> failure_threshold (cfg b) then True
      else calculate_current_failure_rate b \<ge> failure_rate_threshold (cfg b)
           \<and> count_requests_in_window b \<ge> minimum_request_threshold (cfg b))"

definition can_execute :: "instant \<Rightarrow> circuit_breaker \<Rightarrow> bool \<times> circuit_breaker" where
  "can_execute now b =
     (case cb_state b of
        Closed \<Rightarrow> (True, b)
      | Open \<Rightarrow> (case last_failure_time b of
                   Some last_failure \<Rightarrow>
                     (if nat (now - last_failure) \<ge> recovery_timeout (cfg b)
                      then (True, transition_to_half_open now b) else (False, b))
                 | None \<Rightarrow> (False, b))
      | HalfOpen \<Rightarrow> (half_open_requests b < half_open_max_requests (cfg b), b))"

definition record_success :: "instant \<Rightarrow> circuit_breaker \<Rightarrow> circuit_breaker" where
  "record_success now b =
     (let b1 = add_to_history now True
                 (b\<lparr>successful_requests := successful_requests b + 1, consecutive_failures := 0\<rparr>)
      in if cb_state b = HalfOpen
         then let b2 = b1\<lparr>half_open_successes := half_open_successes b1 + 1\<rparr>
              in if half_open_successes b2 \<ge> success_threshold (cfg b2)
                 then transition_to_closed now b2 else b2
         else b1)"

definition record_failure :: "instant \<Rightarrow> circuit_breaker \<Rightarrow> circuit_breaker" where
  "record_failure now b =
     (let b1 = add_to_history now False
                 (b\<lparr>failed_requests := failed_requests b + 1,
                    consecutive_failures := consecutive_failures b + 1,
                    last_failure_time := Some now\<rparr>)
      in if cb_state b \<noteq> Open \<and> should_open_circuit b1 then transition_to_open now b1 else b1)"

definition record_request :: "request_outcome \<Rightarrow> instant \<Rightarrow> circuit_breaker \<Rightarrow> circuit_breaker" where
  "record_request outcome now b0 =
     (let b = b0\<lparr>total_requests := total_requests b0 + 1\<rparr>
      in case outcome of
           Success \<Rightarrow> record_success now b
         | Failure \<Rightarrow> record_failure now b
         | Timeout \<Rightarrow> record_failure now b
         | Rejected \<Rightarrow> b\<lparr>rejected_requests := rejected_requests b + 1\<rparr>)"

definition enter :: "circuit_breaker \<Rightarrow> circuit_breaker" where
  "enter b = (if cb_state b = HalfOpen then b\<lparr>half_open_requests := half_open_requests b + 1\<rparr> else b)"

datatype 'e circuit_breaker_error = CircuitOpen | OperationFailed 'e

text \<open>
  \<open>execute\<close> with the operation's result given: \<open>t0\<close> is the instant of the admission
  check, \<open>t1\<close> that of recording the outcome.
\<close>

definition execute ::
  "'e + 'a \<Rightarrow> instant \<Rightarrow> instant \<Rightarrow> circuit_breaker \<Rightarrow> ('e circuit_breaker_error + 'a) \<times> circuit_breaker" where
  "execute operation t0 t1 b =
     (let (ok, b1) = can_execute t0 b
      in if \<not> ok then (Err CircuitOpen, record_request Rejected t1 b1)
         else let b2 = enter b1
              in case operation of
                   Inr x \<Rightarrow> (Ok x, record_request Success t1 b2)
                 | Inl e \<Rightarrow> (Err (OperationFailed e), record_request Failure t1 b2))"

definition reset :: "instant \<Rightarrow> circuit_breaker \<Rightarrow> circuit_breaker" where
  "reset now b = b\<lparr>cb_state := Closed, consecutive_failures := 0, half_open_requests := 0,
     half_open_successes := 0, last_failure_time := None, state_changed_at := now,
     request_history := []\<rparr>"

text \<open>
  The registry: breakers by name, each created once and shared by handle.
\<close>

type_synonym breaker_registry = "string \<rightharpoonup> circuit_breaker"

definition get_or_create ::
  "string \<Rightarrow> circuit_breaker_config \<Rightarrow> instant \<Rightarrow> breaker_registry \<Rightarrow> circuit_breaker \<times> breaker_registry" where
  "get_or_create name config now breakers =
     (case breakers name of
        Some breaker \<Rightarrow> (breaker, breakers)
      | None \<Rightarrow> (let breaker = new_breaker config now in (breaker, breakers(name \<mapsto> breaker))))"

definition reset_all :: "instant \<Rightarrow> breaker_registry \<Rightarrow> breaker_registry" where
  "reset_all now breakers = (\<lambda>name. map_option (reset now) (breakers name))"

text \<open>The public calls of a breaker, for histories.\<close>

datatype breaker_op =
    CanExecute instant
  | RecordRequest request_outcome instant
  | Execute bool instant instant
  | Reset instant

definition op_result :: "bool \<Rightarrow> unit + unit" where
  "op_result ok = (if ok then Ok () else Err ())"

fun breaker_step :: "breaker_op \<Rightarrow> circuit_breaker \<Rightarrow> circuit_breaker" where
  "breaker_step (CanExecute t) b = snd (can_execute t b)"
| "breaker_step (RecordRequest r t) b = record_request r t b"
| "breaker_step (Execute ok t0 t1) b = snd (execute (op_result ok) t0 t1 b)"
| "breaker_step (Reset t) b = reset t b"

text \<open>
  The invariant of a breaker with configuration \<open>c\<close>. The counters balance; a closed breaker
  has clean trial counters and fewer consecutive failures than the threshold; a half-open
  one has not yet seen enough successes; an open one knows when its last failure was.
\<close>

definition breaker_inv :: "circuit_breaker_config \<Rightarrow> circuit_breaker \<Rightarrow> bool" where
  "breaker_inv c b \<longleftrightarrow> cfg b = c
     \<and> total_requests b = successful_requests b + failed_requests b + rejected_requests b
     \<and> (case cb_state b of
          Closed \<Rightarrow> half_open_requests b = 0 \<and> half_open_successes b = 0
                    \<and> (0 < failure_threshold c \<longrightarrow> consecutive_failures b < failure_threshold c)
        | HalfOpen \<Rightarrow> 0 < success_threshold c \<longrightarrow> half_open_successes b < success_threshold c
        | Open \<Rightarrow> last_failure_time b \<noteq> None)"

section \<open>One call\<close>

lemmas transition_defs = transition_to_open_def transition_to_half_open_def transition_to_closed_def

lemma add_to_history_frame [simp]:
  "cfg (add_to_history t ok b) = cfg b"
  "cb_state (add_to_history t ok b) = cb_state b"
  "consecutive_failures (add_to_history t ok b) = consecutive_failures b"
  "total_requests (add_to_history t ok b) = total_requests b"
  "successful_requests (add_to_history t ok b) = successful_requests b"
  "failed_requests (add_to_history t ok b) = failed_requests b"
  "rejected_requests (add_to_history t ok b) = rejected_requests b"
  "half_open_requests (add_to_history t ok b) = half_open_requests b"
  "half_open_successes (add_to_history t ok b) = half_open_successes b"
  "last_failure_time (add_to_history t ok b) = last_failure_time b"
  by (simp_all add: add_to_history_def Let_def)

lemma can_execute_inv [inv_intros]: "breaker_inv c b \<Longrightarrow> breaker_inv c (snd (can_execute t b))"
  by (auto simp: can_execute_def breaker_inv_def transition_to_half_open_def
      split: circuit_breaker_state.splits option.splits)

lemma enter_inv [inv_intros]: "breaker_inv c b \<Longrightarrow> breaker_inv c (enter b)"
  by (auto simp: enter_def breaker_inv_def split: circuit_breaker_state.splits)

lemma reset_inv [inv_intros]: "breaker_inv c b \<Longrightarrow> breaker_inv c (reset t b)"
  by (auto simp: reset_def breaker_inv_def)

lemma record_success_balance:
  "breaker_inv c b \<Longrightarrow> breaker_inv c (record_success t (b\<lparr>total_requests := total_requests b + 1\<rparr>))"
  by (auto simp: record_success_def breaker_inv_def transition_to_closed_def Let_def
      split: circuit_breaker_state.splits)

lemma record_failure_balance:
  "breaker_inv c b \<Longrightarrow> breaker_inv c (record_failure t (b\<lparr>total_requests := total_requests b + 1\<rparr>))"
  by (auto simp: record_failure_def breaker_inv_def transition_to_open_def should_open_circuit_def Let_def
      split: circuit_breaker_state.splits)

lemma record_request_inv [inv_intros]: "breaker_inv c b \<Longrightarrow> breaker_inv c (record_request r t b)"
  using record_success_balance [of c b t] record_failure_balance [of c b t]
  by (cases r) (auto simp: record_request_def breaker_inv_def split: circuit_breaker_state.splits)

lemma snd_execute:
  "snd (execute operation t0 t1 b) =
     (if fst (can_execute t0 b)
      then record_request (case operation of Inr _ \<Rightarrow> Success | Inl _ \<Rightarrow> Failure) t1
             (enter (snd (can_execute t0 b)))
      else record_request Rejected t1 (snd (can_execute t0 b)))"
  by (auto simp: execute_def Let_def split: prod.splits sum.splits)

lemma fst_execute:
  "fst (execute operation t0 t1 b) =
     (if fst (can_execute t0 b)
      then (case operation of Inr x \<Rightarrow> Ok x | Inl e \<Rightarrow> Err (OperationFailed e))
      else Err CircuitOpen)"
  by (auto simp: execute_def Let_def split: prod.splits sum.splits)

lemma breaker_step_inv [inv_intros]: "breaker_inv c b \<Longrightarrow> breaker_inv c (breaker_step x b)"
  by (cases x) (auto simp: snd_execute intro: inv_intros)

interpretation breaker: guarded_component breaker_step "new_breaker c now" "breaker_inv c" for c now
proof unfold_locales
  show "breaker_inv c (new_breaker c now)"
    by (simp add: breaker_inv_def new_breaker_def)
qed (rule breaker_step_inv)

section \<open>Runs of calls\<close>

lemma record_failure_effect:
  assumes "cfg b = c"
  shows "consecutive_failures (record_request Failure t b) = Suc (consecutive_failures b)
       \<and> cfg (record_request Failure t b) = c
       \<and> last_failure_time (record_request Failure t b) = Some t
       \<and> (cb_state b = Open \<or> failure_threshold c \<le> Suc (consecutive_failures b)
            \<longrightarrow> cb_state (record_request Failure t b) = Open)"
  using assms
  by (auto simp: record_request_def record_failure_def transition_to_open_def should_open_circuit_def Let_def)

lemma failures_run:
  assumes "cfg b = c" and "ts \<noteq> []"
  shows "consecutive_failures (fold (record_request Failure) ts b) = consecutive_failures b + length ts
       \<and> cfg (fold (record_request Failure) ts b) = c
       \<and> last_failure_time (fold (record_request Failure) ts b) = Some (last ts)
       \<and> (failure_threshold c \<le> consecutive_failures b + length ts
            \<longrightarrow> cb_state (fold (record_request Failure) ts b) = Open)"
  using assms(2)
proof (induction ts rule: rev_induct)
  case Nil
  then show ?case by simp
next
  case (snoc t ts)
  let ?b = "fold (record_request Failure) ts b"
  have "cfg ?b = c \<and> consecutive_failures ?b = consecutive_failures b + length ts"
    using snoc.IH assms(1) by (cases "ts = []") auto
  then show ?case
    using record_failure_effect [of ?b c t] by auto
qed

lemma success_in_trial:
  assumes "cb_state b = HalfOpen" and "half_open_requests b < half_open_max_requests (cfg b)"
  shows "fst (execute (Ok x) t0 t1 b) = Ok x
    \<and> cfg (snd (execute (Ok x) t0 t1 b)) = cfg b
    \<and> (if success_threshold (cfg b) \<le> Suc (half_open_successes b)
       then cb_state (snd (execute (Ok x) t0 t1 b)) = Closed
       else cb_state (snd (execute (Ok x) t0 t1 b)) = HalfOpen
          \<and> half_open_requests (snd (execute (Ok x) t0 t1 b)) = Suc (half_open_requests b)
          \<and> half_open_successes (snd (execute (Ok x) t0 t1 b)) = Suc (half_open_successes b))"
  using assms
  by (auto simp: fst_execute snd_execute can_execute_def enter_def record_request_def record_success_def
      transition_to_closed_def Let_def)

text \<open>A run of calls whose operations all succeed, with the results returned.\<close>

fun run_executes :: "('e + 'a) list \<Rightarrow> (instant \<times> instant) list \<Rightarrow> circuit_breaker
    \<Rightarrow> ('e circuit_breaker_error + 'a) list \<times> circuit_breaker" where
  "run_executes (r # rs) ((t0, t1) # ts) b =
     (let (y, b1) = execute r t0 t1 b; (ys, b2) = run_executes rs ts b1 in (y # ys, b2))"
| "run_executes _ _ b = ([], b)"

lemma run_executes_Cons:
  "run_executes (r # rs) (t # ts) b =
     (fst (execute r (fst t) (snd t) b) # fst (run_executes rs ts (snd (execute r (fst t) (snd t) b))),
      snd (run_executes rs ts (snd (execute r (fst t) (snd t) b))))"
  by (cases t) (simp add: split_beta)

lemma trial_run:
  fixes xs :: "'a list"
  assumes "cb_state b = HalfOpen" and "half_open_requests b = half_open_successes b"
    and "half_open_successes b + length xs = success_threshold (cfg b)" and "xs \<noteq> []"
    and "success_threshold (cfg b) \<le> half_open_max_requests (cfg b)" and "length ts = length xs"
  shows "fst (run_executes (map Ok xs :: ('e + 'a) list) ts b) = map Ok xs
    \<and> cb_state (snd (run_executes (map Ok xs :: ('e + 'a) list) ts b)) = Closed"
  using assms
proof (induction xs arbitrary: ts b)
  case Nil
  then show ?case by simp
next
  case (Cons x xs)
  then obtain t ts' where ts: "ts = t # ts'" by (cases ts) auto
  have "half_open_requests b < half_open_max_requests (cfg b)" using Cons.prems by simp
  let ?r = "Ok x :: 'e + 'a" and ?s = "success_threshold (cfg b)"
  let ?b1 = "snd (execute ?r (fst t) (snd t) b)"
  have one: "fst (execute ?r (fst t) (snd t) b) = Ok x" "cfg ?b1 = cfg b"
    "?s \<le> Suc (half_open_successes b) \<Longrightarrow> cb_state ?b1 = Closed"
    "\<not> ?s \<le> Suc (half_open_successes b) \<Longrightarrow> cb_state ?b1 = HalfOpen
       \<and> half_open_requests ?b1 = Suc (half_open_requests b)
       \<and> half_open_successes ?b1 = Suc (half_open_successes b)"
    using success_in_trial [OF Cons.prems(1) \<open>half_open_requests b < _\<close>, of x "fst t" "snd t"]
    by (auto split: if_splits)
  show ?case
  proof (cases "xs = []")
    case True
    then show ?thesis using one Cons.prems unfolding ts by (simp add: run_executes_Cons)
  next
    case False
    then have "\<not> success_threshold (cfg b) \<le> Suc (half_open_successes b)"
      using Cons.prems by (cases xs) auto
    with one Cons.prems Cons.IH [of ?b1 ts'] False
    show ?thesis unfolding ts by (simp add: run_executes_Cons)
  qed
qed

lemma exhausted_trial:
  assumes "cb_state b = HalfOpen" and "half_open_max_requests (cfg b) \<le> half_open_requests b"
  shows "fst (execute r t0 t1 b) = Err CircuitOpen
    \<and> cb_state (snd (execute r t0 t1 b)) = HalfOpen
    \<and> cfg (snd (execute r t0 t1 b)) = cfg b
    \<and> half_open_requests (snd (execute r t0 t1 b)) = half_open_requests b"
  using assms by (simp add: fst_execute snd_execute can_execute_def record_request_def)

lemma exhausted_run:
  assumes "cb_state b = HalfOpen" and "half_open_max_requests (cfg b) \<le> half_open_requests b"
  shows "set (fst (run_executes rs ts b)) \<subseteq> {Err CircuitOpen}
    \<and> cb_state (snd (run_executes rs ts b)) = HalfOpen"
  using assms
proof (induction rs ts b rule: run_executes.induct)
  case (1 r rs t0 t1 ts b)
  let ?b1 = "snd (execute r t0 t1 b)"
  have ex: "fst (execute r t0 t1 b) = Err CircuitOpen" "cb_state ?b1 = HalfOpen"
    "half_open_max_requests (cfg ?b1) \<le> half_open_requests ?b1"
    using exhausted_trial [OF "1.prems", of r t0 t1] "1.prems" by auto
  then show ?case
    using "1.IH" by (cases "execute r t0 t1 b") (simp add: split_beta)
qed simp_all

lemmas breaker_eval = new_breaker_def network_config_def seconds_def op_result_def execute_def
  can_execute_def enter_def record_request_def record_success_def record_failure_def
  add_to_history_def should_open_circuit_def calculate_current_failure_rate_def
  count_requests_in_window_def transition_defs

section \<open>Properties\<close>

text \<open>
  C37. After any history of calls (admission checks, recorded outcomes, guarded executions and
  resets, at any instants) the request counters balance, a closed breaker has clean trial
  counters and is below its failure threshold, a half-open one is below its success threshold,
  and an open one remembers a failure from which the recovery timeout runs, so an admission
  check after that timeout succeeds and makes it half-open.
\<close>
theorem breaker_history_invariant:
  "breaker_inv c (fold breaker_step ops (new_breaker c now))
   \<and> (cb_state (fold breaker_step ops (new_breaker c now)) = Open \<longrightarrow>
        (\<exists>l. last_failure_time (fold breaker_step ops (new_breaker c now)) = Some l
           \<and> (\<forall>t \<ge> l + int (recovery_timeout c).
                fst (can_execute t (fold breaker_step ops (new_breaker c now)))
              \<and> cb_state (snd (can_execute t (fold breaker_step ops (new_breaker c now)))) = HalfOpen)))"
proof -
  let ?b = "fold breaker_step ops (new_breaker c now)"
  have inv: "breaker_inv c ?b" by (rule breaker.history_inv)
  show ?thesis
  proof (intro conjI impI)
    assume "cb_state ?b = Open"
    with inv show "\<exists>l. last_failure_time ?b = Some l \<and> (\<forall>t \<ge> l + int (recovery_timeout c).
        fst (can_execute t ?b) \<and> cb_state (snd (can_execute t ?b)) = HalfOpen)"
      by (auto simp: breaker_inv_def can_execute_def transition_to_half_open_def le_nat_iff)
  qed (rule inv)
qed

theorem breaker_history_invariant_witness:
  "let b = fold breaker_step [Execute False 0 1, Execute False 2 3, Execute False 4 5]
             (new_breaker network_config 0)
   in cb_state b = Open \<and> fst (can_execute (5 + int (seconds 15)) b)"
proof -
  let ?b = "fold breaker_step [Execute False 0 1, Execute False 2 3, Execute False 4 5]
             (new_breaker network_config 0)"
  have "cb_state ?b = Open \<and> last_failure_time ?b = Some 5" by (simp add: breaker_eval)
  moreover have "recovery_timeout network_config = seconds 15" by (simp add: network_config_def)
  ultimately show ?thesis
    using breaker_history_invariant [of network_config
        "[Execute False 0 1, Execute False 2 3, Execute False 4 5]" 0] by (simp add: Let_def)
qed

text \<open>
  Failures open the circuit: from any state, once the recorded failures in a row reach the
  threshold the breaker is open, and every call made before the recovery timeout has passed
  since the last of them is refused without running its operation, changing nothing but the
  counters of requests and rejections.
\<close>
theorem failures_open_the_circuit:
  assumes "ts \<noteq> []" and "failure_threshold (cfg b) \<le> length ts"
    and "last ts \<le> t0" and "t0 < last ts + int (recovery_timeout (cfg b))"
  shows "cb_state (fold (record_request Failure) ts b) = Open
    \<and> execute r t0 t1 (fold (record_request Failure) ts b) =
        (let b' = fold (record_request Failure) ts b
         in (Err CircuitOpen, b'\<lparr>total_requests := total_requests b' + 1,
                                 rejected_requests := rejected_requests b' + 1\<rparr>))"
proof -
  let ?b = "fold (record_request Failure) ts b"
  have run: "cb_state ?b = Open" "last_failure_time ?b = Some (last ts)" "cfg ?b = cfg b"
    using failures_run [OF refl assms(1), of b] assms(2) by auto
  have "\<not> recovery_timeout (cfg b) \<le> nat (t0 - last ts)" using assms(3,4) by linarith
  with run have "can_execute t0 ?b = (False, ?b)" by (simp add: can_execute_def)
  with run(1) show ?thesis by (simp add: execute_def record_request_def Let_def)
qed

theorem failures_open_the_circuit_witness:
  "cb_state (fold (record_request Failure) [1, 2, 3] (new_breaker network_config 0)) = Open
   \<and> fst (execute (Ok () :: unit + unit) 4 4
            (fold (record_request Failure) [1, 2, 3] (new_breaker network_config 0))) = Err CircuitOpen"
  using failures_open_the_circuit [of "[1, 2, 3]" "new_breaker network_config 0" 4 "Ok () :: unit + unit" 4]
  by (simp add: new_breaker_def network_config_def seconds_def Let_def)

text \<open>
  Recovery: when the recovery timeout has passed, a run of as many successful calls as the
  success threshold (which the trial quota admits) is executed in full and closes the circuit.
\<close>
theorem recovery_closes_the_circuit:
  fixes xs :: "'a list" and oks :: "('e + 'a) list"
  assumes "cb_state b = Open" and "last_failure_time b = Some l"
    and "l + int (recovery_timeout (cfg b)) \<le> fst (hd ts)"
    and "0 < success_threshold (cfg b)" and "success_threshold (cfg b) \<le> half_open_max_requests (cfg b)"
    and "length xs = success_threshold (cfg b)" and "length ts = length xs" and "oks = map Ok xs"
  shows "fst (run_executes oks ts b) = map Ok xs \<and> cb_state (snd (run_executes oks ts b)) = Closed"
proof -
  let ?b = "snd (can_execute (fst (hd ts)) b)"
  obtain x xs' t ts' where xs: "xs = x # xs'" and ts: "ts = t # ts'"
    using assms(4,6,7) by (cases xs; cases ts) auto
  have half: "cb_state ?b = HalfOpen" "half_open_requests ?b = 0" "half_open_successes ?b = 0"
    "cfg ?b = cfg b" "fst (can_execute (fst (hd ts)) b)"
    using assms(1-3) by (auto simp: can_execute_def transition_to_half_open_def le_nat_iff)
  have "can_execute (fst t) ?b = (True, ?b)"
    using half assms(4,5) by (simp add: can_execute_def)
  then have "execute r (fst t) (snd t) b = execute r (fst t) (snd t) ?b" for r :: "'e + 'a"
    using half(5) ts by (simp add: execute_def split_beta)
  then have "run_executes oks ts b = run_executes oks ts ?b"
    unfolding assms(8) xs ts by (simp add: run_executes_Cons)
  then show ?thesis
    using trial_run [of ?b xs ts] half assms(4-8) xs by simp
qed

theorem recovery_closes_the_circuit_witness:
  "cb_state (snd (run_executes (map Ok [(), ()] :: (unit + unit) list) [(20000000000, 0), (0, 0)]
      (fold (record_request Failure) [1, 2, 3] (new_breaker network_config 0)))) = Closed"
proof -
  let ?b = "fold (record_request Failure) [1, 2, 3] (new_breaker network_config 0)"
  have "cb_state ?b = Open \<and> last_failure_time ?b = Some 3 \<and> cfg ?b = network_config"
    using failures_run [OF refl, of "[1, 2, 3]" "new_breaker network_config 0"]
    by (simp add: new_breaker_def network_config_def)
  moreover have "int (recovery_timeout network_config) = 15000000000"
    "success_threshold network_config = 2" "half_open_max_requests network_config = 3"
    by (simp_all add: network_config_def seconds_def)
  ultimately show ?thesis
    using recovery_closes_the_circuit [of ?b 3 "[(20000000000, 0), (0, 0)]" "[(), ()]"
        "map Ok [(), ()] :: (unit + unit) list"]
    by simp
qed

text \<open>
  A trial that ends undecided never ends: with the network configuration, three failures,
  a pause of forty seconds and then one success and two failures leave the breaker half-open
  with its trial quota used up and neither threshold reached. Every later call, whatever its
  operation and however long after, is refused, and the breaker stays half-open: no timeout
  leads out of this state.
\<close>
theorem half_open_can_lock_out:
  "let b = fold breaker_step
             [Execute False 0 0, Execute False 0 0, Execute False 0 0,
              Execute True 40000000000 40000000000, Execute False 40000000001 40000000001,
              Execute False 40000000002 40000000002]
             (new_breaker network_config 0)
   in set (fst (run_executes rs ts b)) \<subseteq> {Err CircuitOpen} \<and> cb_state (snd (run_executes rs ts b)) = HalfOpen"
proof -
  let ?b = "fold breaker_step
             [Execute False 0 0, Execute False 0 0, Execute False 0 0,
              Execute True 40000000000 40000000000, Execute False 40000000001 40000000001,
              Execute False 40000000002 40000000002]
             (new_breaker network_config 0)"
  have "cb_state ?b = HalfOpen \<and> half_open_max_requests (cfg ?b) \<le> half_open_requests ?b"
    by (simp add: breaker_eval)
  then show ?thesis unfolding Let_def by (intro exhausted_run) simp_all
qed

end
