(* ===== verification/Rate_Limit.thy ===== *)
theory Rate_Limit
  imports Prelude
begin

text \<open>
  \<open>src/middleware/rate_limit.rs\<close>: the sliding-window request limiter in front of the HTTP
  services. The request history per identifier is a list, oldest first, in a finite map. The
  clock reads are arguments: one for the clean-up and one for the check of each request.
\<close>

section \<open>Configuration, state and operations\<close>

record rate_limit_config =
  max_requests :: nat
  window :: duration
  use_user_id :: bool
  error_message :: "string option"

definition new_config :: "nat \<Rightarrow> duration \<Rightarrow> rate_limit_config" where
  "new_config n w = \<lparr>max_requests = n, window = w, use_user_id = False, error_message = None\<rparr>"

definition with_user_id :: "rate_limit_config \<Rightarrow> rate_limit_config" where
  "with_user_id c = c\<lparr>use_user_id := True\<rparr>"

definition with_message :: "string \<Rightarrow> rate_limit_config \<Rightarrow> rate_limit_config" where
  "with_message m c = c\<lparr>error_message := Some m\<rparr>"

definition per_minute :: "nat \<Rightarrow> rate_limit_config" where
  "per_minute n = new_config n (seconds 60)"

definition per_hour :: "nat \<Rightarrow> rate_limit_config" where
  "per_hour n = new_config n (seconds 3600)"

definition per_second :: "nat \<Rightarrow> rate_limit_config" where
  "per_second n = new_config n (seconds 1)"

record rate_limit_state =
  requests :: "string \<rightharpoonup> instant list"
  last_cleanup :: instant

definition new_state :: "instant \<Rightarrow> rate_limit_state" where
  "new_state now = \<lparr>requests = Map.empty, last_cleanup = now\<rparr>"

definition check_and_record ::
  "string \<Rightarrow> rate_limit_config \<Rightarrow> instant \<Rightarrow> rate_limit_state \<Rightarrow> bool \<times> rate_limit_state" where
  "check_and_record ident config now st =
     (let window_start = now - int (window config);
          history = (case requests st ident of None \<Rightarrow> [] | Some h \<Rightarrow> h);
          history = dropWhile (\<lambda>front. front \<le> window_start) history
      in if length history < max_requests config
         then (True, st\<lparr>requests := (requests st)(ident \<mapsto> history @ [now])\<rparr>)
         else (False, st\<lparr>requests := (requests st)(ident \<mapsto> history)\<rparr>))"

definition cleanup :: "rate_limit_config \<Rightarrow> instant \<Rightarrow> rate_limit_state \<Rightarrow> rate_limit_state" where
  "cleanup config now st =
     (if nat (now - last_cleanup st) < seconds 60 then st
      else let window_start = now - int (window config) - int (seconds 60)
           in \<lparr>requests = (\<lambda>i. case requests st i of
                             None \<Rightarrow> None
                           | Some h \<Rightarrow> (let h' = filter (\<lambda>t. t > window_start) h
                                        in if h' = [] then None else Some h')),
              last_cleanup = now\<rparr>)"

text \<open>
  The service call: the identifier is the authenticated key where the configuration asks for
  it and the request has one, else the remote address. \<open>Ok\<close> forwards the request to the
  wrapped service; the error carries the configured message.
\<close>

datatype limit_error = TooManyRequests "string option"

definition request_identifier :: "rate_limit_config \<Rightarrow> string option \<Rightarrow> string option \<Rightarrow> string" where
  "request_identifier config user remote =
     (case (if use_user_id config then user else None) of
        Some pubkey \<Rightarrow> pubkey
      | None \<Rightarrow> (case remote of Some addr \<Rightarrow> addr | None \<Rightarrow> ''unknown''))"

definition call_limited ::
  "rate_limit_config \<Rightarrow> string option \<Rightarrow> string option \<Rightarrow> instant \<Rightarrow> instant \<Rightarrow> rate_limit_state
     \<Rightarrow> (limit_error + unit) \<times> rate_limit_state" where
  "call_limited config user remote t1 t2 st =
     (let ident = request_identifier config user remote;
          (allowed, st') = check_and_record ident config t2 (cleanup config t1 st)
      in if allowed then (Ok (), st') else (Err (TooManyRequests (error_message config)), st'))"

text \<open>
  A history of requests: each has its user, its remote address and its two clock reads. The log
  records the identifier and the instant of every admitted request, in order.
\<close>

type_synonym request = "string option \<times> string option \<times> instant \<times> instant"
type_synonym admitted = "(string \<times> instant) list"

fun serve :: "rate_limit_config \<Rightarrow> request \<Rightarrow> admitted \<times> rate_limit_state \<Rightarrow> admitted \<times> rate_limit_state" where
  "serve c (user, remote, t1, t2) (log, st) =
     (case call_limited c user remote t1 t2 st of
        (Inr _, st') \<Rightarrow> (log @ [(request_identifier c user remote, t2)], st')
      | (Inl _, st') \<Rightarrow> (log, st'))"

definition admitted_times :: "string \<Rightarrow> admitted \<Rightarrow> instant list" where
  "admitted_times i log = map snd (filter (\<lambda>p. fst p = i) log)"

definition clock_reads :: "request list \<Rightarrow> instant list" where
  "clock_reads rs = concat (map (\<lambda>(user, remote, t1, t2). [t1, t2]) rs)"

section \<open>The history of one identifier\<close>

abbreviation hist :: "rate_limit_state \<Rightarrow> string \<Rightarrow> instant list" where
  "hist st i \<equiv> (case requests st i of None \<Rightarrow> [] | Some h \<Rightarrow> h)"

abbreviation recent :: "duration \<Rightarrow> instant \<Rightarrow> instant list \<Rightarrow> instant list" where
  "recent w now \<equiv> filter (\<lambda>t. now - int w < t)"

text \<open>
  What holds of a log of admissions and a stored history at an instant: the history is sorted,
  not in the future and within the bound, it agrees with the log on the current window, and
  the log never exceeds the limit in any window.
\<close>

definition log_ok :: "rate_limit_config \<Rightarrow> instant \<Rightarrow> instant list \<Rightarrow> instant list \<Rightarrow> bool" where
  "log_ok c now ts h \<longleftrightarrow> sorted h \<and> (\<forall>t \<in> set h. t \<le> now) \<and> (\<forall>t \<in> set ts. t \<le> now)
     \<and> length h \<le> max_requests c
     \<and> recent (window c) now ts = recent (window c) now h
     \<and> (\<forall>T. length (filter (\<lambda>t. T - int (window c) < t \<and> t \<le> T) ts) \<le> max_requests c)"

definition limiter_ok :: "rate_limit_config \<Rightarrow> instant \<Rightarrow> admitted \<times> rate_limit_state \<Rightarrow> bool" where
  "limiter_ok c now s \<longleftrightarrow> (\<forall>i. log_ok c now (admitted_times i (fst s)) (hist (snd s) i))"

lemma admitted_times_append: "admitted_times i (log @ [(j, t)]) = admitted_times i log @ (if i = j then [t] else [])"
  by (simp add: admitted_times_def)

lemma recent_recent: "now \<le> now' \<Longrightarrow> recent w now' (recent w now ts) = recent w now' ts"
  by (rule filter_filter [THEN trans], rule filter_cong) auto

lemma recent_later:
  assumes "recent w now ts = recent w now h" and "now \<le> now'"
  shows "recent w now' ts = recent w now' h"
  using arg_cong [OF assms(1), of "recent w now'"] by (simp only: recent_recent [OF assms(2)])

lemma log_ok_later: "log_ok c now ts h \<Longrightarrow> now \<le> now' \<Longrightarrow> log_ok c now' ts h"
  by (auto simp: log_ok_def intro: recent_later)

lemma dropWhile_sorted:
  "sorted h \<Longrightarrow> dropWhile (\<lambda>t. t \<le> (a :: int)) h = filter (\<lambda>t. a < t) h"
proof (induction h)
  case (Cons x xs)
  then have "\<not> x \<le> a \<Longrightarrow> filter (\<lambda>t. a < t) xs = xs" by (auto simp: filter_id_conv)
  with Cons show ?case by auto
qed simp

lemma log_ok_trim:
  assumes "log_ok c now ts h" and "a \<le> now - int (window c)"
  shows "log_ok c now ts (filter (\<lambda>t. a < t) h)"
proof -
  have "recent (window c) now (filter (\<lambda>t. a < t) h) = recent (window c) now h"
    unfolding filter_filter using assms(2) by (intro filter_cong) auto
  moreover have "length (filter (\<lambda>t. a < t) h) \<le> max_requests c"
    using assms(1) length_filter_le [of "\<lambda>t. a < t" h] unfolding log_ok_def by linarith
  ultimately show ?thesis
    using assms(1) by (simp add: log_ok_def sorted_wrt_filter)
qed

lemma log_ok_push:
  assumes ok: "log_ok c now ts h" and "recent (window c) now h = h" and "length h < max_requests c"
  shows "log_ok c now (ts @ [now]) (h @ [now])"
proof -
  let ?w = "int (window c)"
  have "length (filter (\<lambda>t. T - ?w < t \<and> t \<le> T) (ts @ [now])) \<le> max_requests c" for T
  proof (cases "now \<le> T")
    case True
    have "length (filter (\<lambda>t. T - ?w < t \<and> t \<le> T) ts) \<le> length (recent (window c) now ts)"
      using True by (induction ts) auto
    also have "\<dots> = length h" using ok assms(2) by (simp add: log_ok_def)
    finally show ?thesis using assms(3) by simp
  next
    case False
    then show ?thesis using ok by (simp add: log_ok_def)
  qed
  then show ?thesis
    using ok assms(3) by (auto simp: log_ok_def sorted_append)
qed

lemma cleanup_ok:
  assumes "limiter_ok c now (log, st)"
  shows "limiter_ok c now (log, cleanup c now st)"
proof (cases "nat (now - last_cleanup st) < seconds 60")
  case True
  then show ?thesis using assms by (simp add: cleanup_def)
next
  case False
  have "hist (cleanup c now st) i = filter (\<lambda>t. now - int (window c) - int (seconds 60) < t) (hist st i)" for i
    using False by (auto simp: cleanup_def Let_def split: option.splits)
  then show ?thesis
    using assms log_ok_trim by (simp add: limiter_ok_def)
qed

lemma check_hist:
  assumes "limiter_ok c now (log, st)"
  shows "check_and_record i c now st =
     (let h = recent (window c) now (hist st i)
      in (length h < max_requests c,
          st\<lparr>requests := (requests st)(i \<mapsto> if length h < max_requests c then h @ [now] else h)\<rparr>))"
  using assms dropWhile_sorted
  by (simp add: check_and_record_def limiter_ok_def log_ok_def Let_def)

lemma check_ok:
  assumes "limiter_ok c now (log, st)"
  shows "limiter_ok c now
           (if fst (check_and_record i c now st) then log @ [(i, now)] else log,
            snd (check_and_record i c now st))"
proof -
  have trim: "log_ok c now (admitted_times i log) (recent (window c) now (hist st i))"
    using assms log_ok_trim [of c now _ _ "now - int (window c)"] by (simp add: limiter_ok_def)
  from log_ok_push [OF this] trim assms show ?thesis
    by (auto simp: check_hist [OF assms] Let_def limiter_ok_def admitted_times_append)
qed

lemma limiter_ok_later: "limiter_ok c now s \<Longrightarrow> now \<le> now' \<Longrightarrow> limiter_ok c now' s"
  unfolding limiter_ok_def by (blast intro: log_ok_later)

lemma serve_eq:
  "serve c (user, remote, t1, t2) (log, st) =
     (let i = request_identifier c user remote; r = check_and_record i c t2 (cleanup c t1 st)
      in (if fst r then log @ [(i, t2)] else log, snd r))"
  by (simp add: call_limited_def Let_def split: prod.splits)

lemma serve_ok:
  assumes "limiter_ok c now (log, st)" and "now \<le> t1" and "t1 \<le> t2"
  shows "limiter_ok c t2 (serve c (user, remote, t1, t2) (log, st))"
  unfolding serve_eq Let_def
  using assms by (intro check_ok) (meson cleanup_ok limiter_ok_later)

lemma fold_serve_ok:
  assumes "limiter_ok c now s" and "sorted (now # clock_reads rs)"
  shows "limiter_ok c (last (now # clock_reads rs)) (fold (serve c) rs s)"
  using assms
proof (induction rs arbitrary: now s)
  case (Cons r rs)
  obtain user remote t1 t2 where r: "r = (user, remote, t1, t2)" by (cases r)
  obtain log st where s: "s = (log, st)" by (cases s)
  have "limiter_ok c t2 (serve c r s)" "sorted (t2 # clock_reads rs)"
    using serve_ok Cons.prems unfolding r s by (simp_all add: clock_reads_def)
  from Cons.IH [OF this] show ?case by (simp add: r clock_reads_def)
qed (simp add: clock_reads_def)

lemma new_state_ok: "limiter_ok c now ([], new_state now)"
  by (simp add: limiter_ok_def log_ok_def admitted_times_def new_state_def)

section \<open>Properties\<close>

text \<open>
  C11. The limiter enforces its budget exactly. Over any sequence of requests with a clock that
  does not run backwards, (1) no window of the configured length contains more than
  \<open>max_requests\<close> admitted requests of one identifier, wherever the window is placed and
  whatever clean-ups happened; (2) the stored history of an identifier never exceeds
  \<open>max_requests\<close> entries; (3) the next request is admitted exactly when fewer than
  \<open>max_requests\<close> requests of its identifier were admitted in the window that ends with it,
  so no one is refused early and other identifiers never count.
\<close>
theorem rate_limit_exact:
  assumes "sorted (now # clock_reads rs)" and "fold (serve c) rs ([], new_state now) = (log, st)"
    and "last (now # clock_reads rs) \<le> t1" and "t1 \<le> t2" and "i = request_identifier c user remote"
  shows "(\<forall>j T. length (filter (\<lambda>t. T - int (window c) < t \<and> t \<le> T) (admitted_times j log)) \<le> max_requests c)
    \<and> (\<forall>j. length (hist st j) \<le> max_requests c)
    \<and> (is_ok (fst (call_limited c user remote t1 t2 st)) \<longleftrightarrow>
         length (filter (\<lambda>t. t2 - int (window c) < t) (admitted_times i log)) < max_requests c)"
proof -
  have ok: "limiter_ok c (last (now # clock_reads rs)) (log, st)"
    using fold_serve_ok [OF new_state_ok assms(1), of c] assms(2) by simp
  let ?st = "cleanup c t1 st"
  have "limiter_ok c t2 (log, ?st)"
    by (rule limiter_ok_later [OF cleanup_ok [OF limiter_ok_later [OF ok assms(3)]] assms(4)])
  then have "is_ok (fst (call_limited c user remote t1 t2 st)) \<longleftrightarrow>
      length (recent (window c) t2 (hist ?st i)) < max_requests c"
    and "recent (window c) t2 (admitted_times i log) = recent (window c) t2 (hist ?st i)"
    using check_hist [of c t2 log ?st i] assms(5)
    by (auto simp: call_limited_def is_ok_def Let_def limiter_ok_def log_ok_def)
  then show ?thesis
    using ok by (simp add: limiter_ok_def log_ok_def)
qed

theorem rate_limit_exact_witness:
  "let c = per_second 1; rs = [(None, Some ''a'', 1, 2), (None, Some ''a'', 3, 4)];
       st = snd (fold (serve c) rs ([], new_state 0))
   in \<not> is_ok (fst (call_limited c None (Some ''a'') 5 6 st))
      \<and> is_ok (fst (call_limited c None (Some ''b'') 5 6 st))"
proof -
  let ?c = "per_second 1" and ?rs = "[(None, Some ''a'', 1, 2), (None, Some ''a'', 3, 4)]"
  have run: "fold (serve ?c) ?rs ([], new_state 0)
       = ([(''a'', 2)], snd (fold (serve ?c) ?rs ([], new_state 0)))"
    by (simp add: call_limited_def check_and_record_def cleanup_def request_identifier_def new_state_def
        per_second_def new_config_def seconds_def)
  have "sorted (0 # clock_reads ?rs)" "last (0 # clock_reads ?rs) \<le> 5" "(5 :: int) \<le> 6"
    by (simp_all add: clock_reads_def)
  note ex = rate_limit_exact [OF this(1) run this(2,3)]
  from ex [OF refl, of None "Some ''a''"] ex [OF refl, of None "Some ''b''"] show ?thesis
    by (simp add: Let_def request_identifier_def per_second_def new_config_def seconds_def admitted_times_def)
qed

end
