(* ===== verification/Message_Tracker.thy ===== *)
theory Message_Tracker
  imports Prelude
begin

text \<open>
  \<open>src/actors/messaging\<close>: acknowledgement deadlines of critical actor messages
  (\<open>message_tracker.rs\<close>, \<open>message_ack.rs\<close>) and the counters that report them
  (\<open>metrics.rs\<close>). A message id is its 128-bit UUID. The metrics tasks that the source
  spawns only increment counters, so their order does not matter and each increment is applied
  where it is spawned. The deadline check takes the iteration order of the pending table and
  one instant for all its clock reads.
\<close>

section \<open>Acknowledgements\<close>

type_synonym message_id = "128 word"

datatype ack_status = Success | PartialSuccess string | Failed string

definition is_success :: "ack_status \<Rightarrow> bool" where
  "is_success s = (case s of Success \<Rightarrow> True | _ \<Rightarrow> False)"

definition is_failure :: "ack_status \<Rightarrow> bool" where
  "is_failure s = (case s of Failed _ \<Rightarrow> True | _ \<Rightarrow> False)"

definition ack_error :: "ack_status \<Rightarrow> string option" where
  "ack_error s = (case s of Failed e \<Rightarrow> Some e | _ \<Rightarrow> None)"

record message_ack =
  correlation_id :: message_id
  status :: ack_status
  ack_timestamp :: instant
  metadata :: "string \<rightharpoonup> string"

definition ack_success :: "message_id \<Rightarrow> instant \<Rightarrow> message_ack" where
  "ack_success i now = \<lparr>correlation_id = i, status = Success, ack_timestamp = now, metadata = Map.empty\<rparr>"

definition ack_failure :: "message_id \<Rightarrow> string \<Rightarrow> instant \<Rightarrow> message_ack" where
  "ack_failure i e now = \<lparr>correlation_id = i, status = Failed e, ack_timestamp = now, metadata = Map.empty\<rparr>"

definition ack_partial_success :: "message_id \<Rightarrow> string \<Rightarrow> instant \<Rightarrow> message_ack" where
  "ack_partial_success i r now =
     \<lparr>correlation_id = i, status = PartialSuccess r, ack_timestamp = now, metadata = Map.empty\<rparr>"

definition with_metadata :: "string \<Rightarrow> string \<Rightarrow> message_ack \<Rightarrow> message_ack" where
  "with_metadata k v a = a\<lparr>metadata := (metadata a)(k \<mapsto> v)\<rparr>"

section \<open>Metrics\<close>

datatype message_kind = UpdateGPUGraphData | UploadConstraintsToGPU | InitializeGPU

fun default_timeout :: "message_kind \<Rightarrow> duration" where
  "default_timeout UpdateGPUGraphData = seconds 2"
| "default_timeout UploadConstraintsToGPU = seconds 3"
| "default_timeout InitializeGPU = seconds 10"

record kind_metrics =
  sent_count :: u64
  success_count :: u64
  failure_count :: u64
  timeout_count :: u64
  late_ack_count :: u64
  total_latency_ms :: u64

definition default_kind_metrics :: kind_metrics where
  "default_kind_metrics = \<lparr>sent_count = 0, success_count = 0, failure_count = 0, timeout_count = 0,
     late_ack_count = 0, total_latency_ms = 0\<rparr>"

record message_metrics =
  total_sent :: u64
  total_acked :: u64
  total_failed :: u64
  total_timed_out :: u64
  total_late_acked :: u64
  by_kind :: "message_kind \<rightharpoonup> kind_metrics"

definition new_metrics :: message_metrics where
  "new_metrics = \<lparr>total_sent = 0, total_acked = 0, total_failed = 0, total_timed_out = 0,
     total_late_acked = 0, by_kind = Map.empty\<rparr>"

definition kind_of :: "message_kind \<Rightarrow> message_metrics \<Rightarrow> kind_metrics" where
  "kind_of k mm = (case by_kind mm k of None \<Rightarrow> default_kind_metrics | Some km \<Rightarrow> km)"

definition upd_kind ::
  "message_kind \<Rightarrow> (kind_metrics \<Rightarrow> kind_metrics) \<Rightarrow> message_metrics \<Rightarrow> message_metrics" where
  "upd_kind k f mm = mm\<lparr>by_kind := (by_kind mm)(k \<mapsto> f (kind_of k mm))\<rparr>"

definition record_sent :: "message_kind \<Rightarrow> message_metrics \<Rightarrow> message_metrics" where
  "record_sent k mm = upd_kind k (\<lambda>m. m\<lparr>sent_count := sent_count m + 1\<rparr>)
     (mm\<lparr>total_sent := total_sent mm + 1\<rparr>)"

definition record_success :: "message_kind \<Rightarrow> duration \<Rightarrow> message_metrics \<Rightarrow> message_metrics" where
  "record_success k latency mm =
     upd_kind k (\<lambda>m. m\<lparr>success_count := success_count m + 1,
                       total_latency_ms := total_latency_ms m + word_of_nat (latency div 1000000)\<rparr>)
       (mm\<lparr>total_acked := total_acked mm + 1\<rparr>)"

definition record_failure :: "message_kind \<Rightarrow> message_metrics \<Rightarrow> message_metrics" where
  "record_failure k mm = upd_kind k (\<lambda>m. m\<lparr>failure_count := failure_count m + 1\<rparr>)
     (mm\<lparr>total_failed := total_failed mm + 1\<rparr>)"

definition record_timeout :: "message_kind \<Rightarrow> message_metrics \<Rightarrow> message_metrics" where
  "record_timeout k mm = upd_kind k (\<lambda>m. m\<lparr>timeout_count := timeout_count m + 1\<rparr>)
     (mm\<lparr>total_timed_out := total_timed_out mm + 1\<rparr>)"

definition record_late_ack :: "message_kind \<Rightarrow> message_metrics \<Rightarrow> message_metrics" where
  "record_late_ack k mm = upd_kind k (\<lambda>m. m\<lparr>late_ack_count := late_ack_count m + 1\<rparr>)
     (mm\<lparr>total_late_acked := total_late_acked mm + 1\<rparr>)"

section \<open>The tracker\<close>

definition LATE_ACK_MEMORY :: duration where
  "LATE_ACK_MEMORY = seconds 600"

record pending_message =
  pm_id :: message_id
  pm_kind :: message_kind
  sent_at :: instant
  timeout :: duration

definition age :: "instant \<Rightarrow> pending_message \<Rightarrow> duration" where
  "age now m = nat (now - sent_at m)"

definition is_timed_out :: "instant \<Rightarrow> pending_message \<Rightarrow> bool" where
  "is_timed_out now m = (age now m > timeout m)"

record message_tracker =
  pending :: "message_id \<rightharpoonup> pending_message"
  timed_out :: "message_id \<rightharpoonup> pending_message"
  metrics :: message_metrics
  shutdown :: bool

definition new_tracker :: message_tracker where
  "new_tracker = \<lparr>pending = Map.empty, timed_out = Map.empty, metrics = new_metrics, shutdown = False\<rparr>"

definition track ::
  "message_id \<Rightarrow> message_kind \<Rightarrow> duration \<Rightarrow> instant \<Rightarrow> message_tracker \<Rightarrow> message_tracker" where
  "track i k d now tr =
     tr\<lparr>pending := (pending tr)(i \<mapsto> \<lparr>pm_id = i, pm_kind = k, sent_at = now, timeout = d\<rparr>),
        metrics := record_sent k (metrics tr)\<rparr>"

definition track_default ::
  "message_id \<Rightarrow> message_kind \<Rightarrow> instant \<Rightarrow> message_tracker \<Rightarrow> message_tracker" where
  "track_default i k now tr = track i k (default_timeout k) now tr"

definition acknowledge :: "message_ack \<Rightarrow> instant \<Rightarrow> message_tracker \<Rightarrow> message_tracker" where
  "acknowledge ack now tr =
     (let msg_id = correlation_id ack
      in case pending tr msg_id of
           Some msg \<Rightarrow>
             (let tr1 = tr\<lparr>pending := (pending tr)(msg_id := None)\<rparr>; latency = age now msg
              in case status ack of
                   Success \<Rightarrow> tr1\<lparr>metrics := record_success (pm_kind msg) latency (metrics tr1)\<rparr>
                 | PartialSuccess reason \<Rightarrow>
                     tr1\<lparr>metrics := record_success (pm_kind msg) latency (metrics tr1)\<rparr>
                 | Failed error \<Rightarrow> tr1\<lparr>metrics := record_failure (pm_kind msg) (metrics tr1)\<rparr>)
         | None \<Rightarrow>
             (case timed_out tr msg_id of
                Some msg \<Rightarrow> tr\<lparr>timed_out := (timed_out tr)(msg_id := None),
                               metrics := record_late_ack (pm_kind msg) (metrics tr)\<rparr>
              | None \<Rightarrow> tr))"

definition report_timeout :: "pending_message \<Rightarrow> message_tracker \<Rightarrow> message_tracker" where
  "report_timeout msg tr =
     tr\<lparr>metrics := record_timeout (pm_kind msg) (metrics tr), timed_out := (timed_out tr)(pm_id msg \<mapsto> msg)\<rparr>"

definition check_timeouts :: "instant \<Rightarrow> message_id list \<Rightarrow> message_tracker \<Rightarrow> message_tracker" where
  "check_timeouts now ks tr =
     (let ids = filter (\<lambda>i. case pending tr i of Some m \<Rightarrow> is_timed_out now m | None \<Rightarrow> False) ks;
          expired = List.map_filter (pending tr) ids;
          tr1 = tr\<lparr>pending := (\<lambda>i. if i \<in> set ids then None else pending tr i),
                   timed_out := (\<lambda>i. case timed_out tr i of
                                   Some m \<Rightarrow> if age now m < LATE_ACK_MEMORY then Some m else None
                                 | None \<Rightarrow> None)\<rparr>
      in fold report_timeout expired tr1)"

definition stop_checker :: "message_tracker \<Rightarrow> message_tracker" where
  "stop_checker tr = tr\<lparr>shutdown := True\<rparr>"

text \<open>One tick of the background checker: nothing more happens after a shutdown.\<close>

definition checker_tick :: "instant \<Rightarrow> message_id list \<Rightarrow> message_tracker \<Rightarrow> message_tracker" where
  "checker_tick now ks tr = (if shutdown tr then tr else check_timeouts now ks tr)"

definition is_pending :: "message_id \<Rightarrow> message_tracker \<Rightarrow> bool" where
  "is_pending i tr = (pending tr i \<noteq> None)"

definition pending_count :: "message_tracker \<Rightarrow> nat" where
  "pending_count tr = card (dom (pending tr))"

datatype tracker_op =
    Track message_id message_kind duration instant
  | Acknowledge message_ack instant
  | CheckerTick instant "message_id list"
  | Shutdown

fun tracker_step :: "tracker_op \<Rightarrow> message_tracker \<Rightarrow> message_tracker" where
  "tracker_step (Track i k d now) tr = track i k d now tr"
| "tracker_step (Acknowledge ack now) tr = acknowledge ack now tr"
| "tracker_step (CheckerTick now ks) tr = checker_tick now ks tr"
| "tracker_step Shutdown tr = stop_checker tr"

fun tracked_ids :: "tracker_op list \<Rightarrow> message_id list" where
  "tracked_ids [] = []"
| "tracked_ids (Track i k d now # ops) = i # tracked_ids ops"
| "tracked_ids (_ # ops) = tracked_ids ops"

fun enumerates_once :: "tracker_op \<Rightarrow> bool" where
  "enumerates_once (CheckerTick now ks) = distinct ks"
| "enumerates_once _ = True"

section \<open>Accounting\<close>

definition pending_of :: "message_kind \<Rightarrow> message_tracker \<Rightarrow> message_id set" where
  "pending_of k tr = {i. \<exists>m. pending tr i = Some m \<and> pm_kind m = k}"

text \<open>
  Every sent message of a kind is acknowledged, failed, reported as timed out or still
  pending, each exactly once; the totals are the sums over the kinds.
\<close>

definition balanced :: "message_tracker \<Rightarrow> bool" where
  "balanced tr \<longleftrightarrow>
     (\<forall>k. sent_count (kind_of k (metrics tr))
        = success_count (kind_of k (metrics tr)) + failure_count (kind_of k (metrics tr))
          + timeout_count (kind_of k (metrics tr)) + word_of_nat (card (pending_of k tr)))
   \<and> total_sent (metrics tr)
        = total_acked (metrics tr) + total_failed (metrics tr) + total_timed_out (metrics tr)
          + word_of_nat (pending_count tr)"

definition tracker_inv :: "message_id set \<Rightarrow> message_tracker \<Rightarrow> bool" where
  "tracker_inv ids tr \<longleftrightarrow> finite (dom (pending tr))
     \<and> dom (pending tr) \<union> dom (timed_out tr) \<subseteq> ids
     \<and> dom (pending tr) \<inter> dom (timed_out tr) = {}
     \<and> (\<forall>i m. pending tr i = Some m \<longrightarrow> pm_id m = i)
     \<and> balanced tr"

lemmas record_defs = record_sent_def record_success_def record_failure_def record_timeout_def
  record_late_ack_def

lemma kind_of_upd_kind: "kind_of k (upd_kind k' f mm) = (if k = k' then f (kind_of k mm) else kind_of k mm)"
  by (simp add: kind_of_def upd_kind_def)

lemma totals_upd_kind [simp]:
  "total_sent (upd_kind k f mm) = total_sent mm" "total_acked (upd_kind k f mm) = total_acked mm"
  "total_failed (upd_kind k f mm) = total_failed mm"
  "total_timed_out (upd_kind k f mm) = total_timed_out mm"
  by (simp_all add: upd_kind_def)

lemma kind_of_totals [simp]:
  "kind_of k (mm\<lparr>total_sent := n\<rparr>) = kind_of k mm" "kind_of k (mm\<lparr>total_acked := n\<rparr>) = kind_of k mm"
  "kind_of k (mm\<lparr>total_failed := n\<rparr>) = kind_of k mm"
  "kind_of k (mm\<lparr>total_timed_out := n\<rparr>) = kind_of k mm"
  "kind_of k (mm\<lparr>total_late_acked := n\<rparr>) = kind_of k mm"
  by (simp_all add: kind_of_def)

lemma finite_pending_of: "finite (dom (pending tr)) \<Longrightarrow> finite (pending_of k tr)"
  by (erule finite_subset [rotated]) (auto simp: pending_of_def)

text \<open>Removing one pending message of kind \<open>k\<close> lowers the two cardinalities by one.\<close>

lemma pending_remove:
  assumes "pending tr i = Some m" and "finite (dom (pending tr))"
    and "pending tr' = (pending tr)(i := None)"
  shows "card (pending_of k tr) = card (pending_of k tr') + (if k = pm_kind m then 1 else 0)"
    and "pending_count tr = Suc (pending_count tr')"
proof -
  have "pending_of k tr = (if k = pm_kind m then insert i (pending_of k tr') else pending_of k tr')"
    and "i \<notin> pending_of k tr'"
    using assms(1,3) by (auto simp: pending_of_def split: if_splits)
  moreover have "finite (pending_of k tr')"
    using assms(2,3) by (intro finite_pending_of) simp
  ultimately show "card (pending_of k tr) = card (pending_of k tr') + (if k = pm_kind m then 1 else 0)"
    by auto
  have "dom (pending tr) = insert i (dom (pending tr'))" "i \<notin> dom (pending tr')"
    using assms(1,3) by auto
  then show "pending_count tr = Suc (pending_count tr')"
    unfolding pending_count_def by (metis card_insert_disjoint finite)
qed

lemma track_inv:
  assumes "tracker_inv ids tr" and "i \<notin> ids"
  shows "tracker_inv (insert i ids) (track i k d now tr)"
proof -
  let ?m = "\<lparr>pm_id = i, pm_kind = k, sent_at = now, timeout = d\<rparr>" and ?tr = "track i k d now tr"
  have fresh: "pending tr i = None" "timed_out tr i = None"
    using assms by (auto simp: tracker_inv_def)
  have fin: "finite (dom (pending ?tr))" and new: "pending ?tr i = Some ?m"
    and old: "pending tr = (pending ?tr)(i := None)"
    using assms(1) fresh by (auto simp: track_def tracker_inv_def fun_eq_iff)
  have "balanced ?tr"
    using assms(1) pending_remove [OF new fin old]
    by (auto simp: balanced_def tracker_inv_def track_def record_sent_def kind_of_upd_kind)
  then show ?thesis
    using assms(1) fresh fin by (auto simp: tracker_inv_def track_def)
qed

lemma acknowledge_inv:
  assumes "tracker_inv ids tr"
  shows "tracker_inv ids (acknowledge ack now tr)"
proof (cases "pending tr (correlation_id ack)")
  case None
  then show ?thesis
    using assms by (cases "timed_out tr (correlation_id ack)")
      (auto simp: acknowledge_def tracker_inv_def balanced_def record_late_ack_def kind_of_upd_kind
        pending_of_def pending_count_def)
next
  case (Some m)
  let ?tr = "acknowledge ack now tr"
  have fin: "finite (dom (pending tr))" using assms by (simp add: tracker_inv_def)
  have rem: "pending ?tr = (pending tr)(correlation_id ack := None)"
    using Some by (simp add: acknowledge_def Let_def split: ack_status.split)
  have "balanced ?tr"
    using assms pending_remove [OF Some fin rem] Some
    by (auto simp: balanced_def tracker_inv_def acknowledge_def Let_def record_success_def
        record_failure_def kind_of_upd_kind split: ack_status.split)
  moreover have "timed_out ?tr = timed_out tr"
    using Some by (simp add: acknowledge_def Let_def split: ack_status.split)
  ultimately show ?thesis
    using assms rem by (auto simp: tracker_inv_def)
qed

text \<open>Reporting a batch: each message of the batch leaves the pending table once.\<close>

lemma report_frame [simp]:
  "pending (report_timeout m tr) = pending tr"
  "timed_out (report_timeout m tr) = (timed_out tr)(pm_id m \<mapsto> m)"
  "shutdown (report_timeout m tr) = shutdown tr"
  by (simp_all add: report_timeout_def)

lemma fold_report_pending [simp]:
  "pending (fold report_timeout ms tr) = pending tr"
  "shutdown (fold report_timeout ms tr) = shutdown tr"
  by (induction ms arbitrary: tr) simp_all

lemma fold_report_other:
  "i \<notin> pm_id ` set ms \<Longrightarrow> timed_out (fold report_timeout ms tr) i = timed_out tr i"
  by (induction ms arbitrary: tr) auto

lemma fold_report_timed_out:
  "distinct (map pm_id ms) \<Longrightarrow> m \<in> set ms \<Longrightarrow>
     timed_out (fold report_timeout ms tr) (pm_id m) = Some m"
  by (induction ms arbitrary: tr) (auto simp: fold_report_other)

lemma dom_fold_report: "dom (timed_out (fold report_timeout ms tr)) = pm_id ` set ms \<union> dom (timed_out tr)"
  by (induction ms arbitrary: tr) auto

text \<open>Moving one message from the pending table to the reported ones keeps the balance.\<close>

lemma expire_one_balanced:
  assumes "balanced tr" and "pending tr i = Some m" and "finite (dom (pending tr))"
  shows "balanced (report_timeout m (tr\<lparr>pending := (pending tr)(i := None)\<rparr>))"
proof -
  let ?tr = "report_timeout m (tr\<lparr>pending := (pending tr)(i := None)\<rparr>)"
  have "pending ?tr = (pending tr)(i := None)" by simp
  from pending_remove [OF assms(2,3) this] assms(1) show ?thesis
    by (auto simp: balanced_def report_timeout_def record_timeout_def kind_of_upd_kind)
qed

lemma balanced_cong:
  "metrics tr = metrics tr' \<Longrightarrow> pending tr = pending tr' \<Longrightarrow> balanced tr = balanced tr'"
  by (simp add: balanced_def pending_of_def pending_count_def)

lemma expire_balanced:
  assumes "balanced tr" and "finite (dom (pending tr))" and "distinct ids"
    and "\<forall>i \<in> set ids. pending tr i \<noteq> None"
  shows "balanced (fold report_timeout (List.map_filter (pending tr) ids)
           (tr\<lparr>pending := (\<lambda>i. if i \<in> set ids then None else pending tr i)\<rparr>))"
  using assms
proof (induction ids arbitrary: tr)
  case Nil
  then show ?case by (simp add: List.map_filter_simps)
next
  case (Cons i ids)
  obtain m where m: "pending tr i = Some m" using Cons.prems(4) by auto
  let ?tr = "report_timeout m (tr\<lparr>pending := (pending tr)(i := None)\<rparr>)"
  have "balanced ?tr" by (rule expire_one_balanced [OF Cons.prems(1) m Cons.prems(2)])
  moreover have "\<forall>j \<in> set ids. pending ?tr j = pending tr j" using Cons.prems(3) by auto
  ultimately have "balanced (fold report_timeout (List.map_filter (pending ?tr) ids)
      (?tr\<lparr>pending := (\<lambda>j. if j \<in> set ids then None else pending ?tr j)\<rparr>))"
    using Cons.prems by (intro Cons.IH) auto
  moreover have "List.map_filter (pending ?tr) ids = List.map_filter (pending tr) ids"
    using \<open>\<forall>j \<in> set ids. _ j\<close> by (induction ids) (simp_all add: List.map_filter_simps split: option.split)
  moreover have "?tr\<lparr>pending := (\<lambda>j. if j \<in> set ids then None else pending ?tr j)\<rparr>
      = report_timeout m (tr\<lparr>pending := (\<lambda>j. if j \<in> set (i # ids) then None else pending tr j)\<rparr>)"
    by (auto simp: report_timeout_def fun_eq_iff)
  ultimately show ?case using m by (simp add: List.map_filter_simps)
qed

lemma metrics_fold_report:
  "metrics tr = metrics tr' \<Longrightarrow> metrics (fold report_timeout ms tr) = metrics (fold report_timeout ms tr')"
  by (induction ms arbitrary: tr tr') (simp_all add: report_timeout_def)

definition expired_ids :: "instant \<Rightarrow> message_id list \<Rightarrow> message_tracker \<Rightarrow> message_id list" where
  "expired_ids now ks tr =
     filter (\<lambda>i. case pending tr i of Some m \<Rightarrow> is_timed_out now m | None \<Rightarrow> False) ks"

lemma pending_check: "pending (check_timeouts now ks tr) = (pending tr) |` (- set (expired_ids now ks tr))"
  by (auto simp: check_timeouts_def expired_ids_def Let_def restrict_map_def fun_eq_iff)

lemma pm_ids_expired:
  assumes "\<forall>i m. pending tr i = Some m \<longrightarrow> pm_id m = i"
  shows "map pm_id (List.map_filter (pending tr) (expired_ids now ks tr)) = expired_ids now ks tr"
  using assms by (induction ks) (auto simp: expired_ids_def List.map_filter_simps split: option.splits)

lemma balanced_check:
  assumes "tracker_inv ids tr" and "distinct ks"
  shows "balanced (check_timeouts now ks tr)"
proof -
  let ?e = "expired_ids now ks tr"
  have some: "\<forall>i \<in> set ?e. pending tr i \<noteq> None"
    by (auto simp: expired_ids_def split: option.splits)
  have "balanced (fold report_timeout (List.map_filter (pending tr) ?e)
           (tr\<lparr>pending := (\<lambda>i. if i \<in> set ?e then None else pending tr i)\<rparr>))"
    using assms some by (intro expire_balanced) (auto simp: tracker_inv_def expired_ids_def)
  also have "balanced (fold report_timeout (List.map_filter (pending tr) ?e)
           (tr\<lparr>pending := (\<lambda>i. if i \<in> set ?e then None else pending tr i)\<rparr>))
        = balanced (check_timeouts now ks tr)"
    by (rule balanced_cong) (auto simp: check_timeouts_def expired_ids_def Let_def
        intro: metrics_fold_report)
  finally show ?thesis .
qed

lemma moved_disjoint:
  "e \<subseteq> p \<Longrightarrow> q \<subseteq> e \<union> t \<Longrightarrow> p \<union> t \<subseteq> ids \<Longrightarrow> p \<inter> t = {} \<Longrightarrow>
     (p - e) \<union> q \<subseteq> ids \<and> (p - e) \<inter> q = {}"
  by blast

lemma check_timeouts_inv:
  assumes "tracker_inv ids tr" and "distinct ks"
  shows "tracker_inv ids (check_timeouts now ks tr)"
proof -
  let ?e = "expired_ids now ks tr" and ?tr = "check_timeouts now ks tr"
  have ids: "pm_id ` set (List.map_filter (pending tr) ?e) = set ?e"
    using pm_ids_expired [of tr now ks] assms(1) by (metis list.set_map tracker_inv_def)
  have e: "set ?e \<subseteq> dom (pending tr)"
    by (auto simp: expired_ids_def split: option.splits)
  have out: "dom (timed_out ?tr) \<subseteq> set ?e \<union> dom (timed_out tr)"
    using ids by (auto simp: check_timeouts_def Let_def expired_ids_def [symmetric] dom_fold_report
        split: option.splits if_splits)
  have pend: "dom (pending ?tr) = dom (pending tr) - set ?e"
    by (auto simp: pending_check)
  have old: "dom (pending tr) \<union> dom (timed_out tr) \<subseteq> ids" "dom (pending tr) \<inter> dom (timed_out tr) = {}"
    using assms(1) by (simp_all add: tracker_inv_def)
  have "\<forall>i m. pending ?tr i = Some m \<longrightarrow> pm_id m = i"
    using assms(1) by (simp add: pending_check restrict_map_def tracker_inv_def)
  moreover have "dom (pending ?tr) \<union> dom (timed_out ?tr) \<subseteq> ids"
    "dom (pending ?tr) \<inter> dom (timed_out ?tr) = {}"
    using moved_disjoint [OF e out old] by (simp_all only: pend)
  ultimately show ?thesis
    using balanced_check [OF assms, of now] by (simp add: tracker_inv_def)
qed

lemma tracker_step_inv:
  assumes "tracker_inv ids tr" and "enumerates_once x"
    and "set (tracked_ids [x]) \<inter> ids = {}"
  shows "tracker_inv (ids \<union> set (tracked_ids [x])) (tracker_step x tr)"
proof (cases x)
  case (CheckerTick now ks)
  then show ?thesis using assms check_timeouts_inv by (simp add: checker_tick_def)
next
  case Shutdown
  then show ?thesis
    using assms by (auto simp: stop_checker_def tracker_inv_def balanced_def pending_of_def pending_count_def)
qed (use assms track_inv acknowledge_inv in auto)

lemma tracked_ids_Cons: "tracked_ids (x # xs) = tracked_ids [x] @ tracked_ids xs"
  by (cases x) simp_all

lemma tracker_history_inv:
  assumes "tracker_inv ids tr" and "\<forall>x \<in> set ops. enumerates_once x"
    and "distinct (tracked_ids ops)" and "set (tracked_ids ops) \<inter> ids = {}"
  shows "tracker_inv (ids \<union> set (tracked_ids ops)) (fold tracker_step ops tr)"
  using assms
proof (induction ops arbitrary: ids tr)
  case (Cons x ops)
  have "tracker_inv (ids \<union> set (tracked_ids [x])) (tracker_step x tr)"
    using Cons.prems by (intro tracker_step_inv) (auto simp: tracked_ids_Cons [of x ops])
  from Cons.IH [OF this] Cons.prems show ?case
    by (auto simp: tracked_ids_Cons [of x ops] Un_assoc)
qed simp

lemma new_tracker_inv: "tracker_inv {} new_tracker"
  by (simp add: tracker_inv_def new_tracker_def balanced_def pending_of_def pending_count_def
      new_metrics_def kind_of_def default_kind_metrics_def)

section \<open>Properties\<close>

text \<open>
  C36. Every tracked message is accounted for exactly once: after any history of sends (with
  distinct ids), acknowledgements, checker ticks and shutdowns, for every kind the sent counter
  is the number acknowledged, failed, timed out or still pending, the same holds of the totals,
  and no message is both pending and reported as timed out.
\<close>
theorem every_message_accounted_for:
  assumes "distinct (tracked_ids ops)" and "\<forall>x \<in> set ops. enumerates_once x"
    and "tr = fold tracker_step ops new_tracker"
  shows "sent_count (kind_of k (metrics tr))
      = success_count (kind_of k (metrics tr)) + failure_count (kind_of k (metrics tr))
        + timeout_count (kind_of k (metrics tr)) + word_of_nat (card (pending_of k tr))
    \<and> total_sent (metrics tr) = total_acked (metrics tr) + total_failed (metrics tr)
        + total_timed_out (metrics tr) + word_of_nat (pending_count tr)
    \<and> dom (pending tr) \<inter> dom (timed_out tr) = {}"
  using tracker_history_inv [OF new_tracker_inv assms(2,1)] assms(3)
  by (simp add: tracker_inv_def balanced_def)

theorem every_message_accounted_for_witness:
  "let tr = fold tracker_step [Track 7 InitializeGPU 5 0, Track 8 InitializeGPU 5 0,
              CheckerTick 3 [7, 8], Acknowledge (ack_success 8 4) 4, CheckerTick 9 [7]] new_tracker
   in total_sent (metrics tr) = 2
      \<and> total_sent (metrics tr) = total_acked (metrics tr) + total_failed (metrics tr)
            + total_timed_out (metrics tr) + word_of_nat (pending_count tr)"
proof -
  let ?ops = "[Track 7 InitializeGPU 5 0, Track 8 InitializeGPU 5 0, CheckerTick 3 [7, 8],
               Acknowledge (ack_success 8 4) 4, CheckerTick 9 [7]]"
  have "total_sent (metrics (fold tracker_step ?ops new_tracker)) = 2"
    by (simp add: track_def checker_tick_def check_timeouts_def acknowledge_def ack_success_def
        new_tracker_def new_metrics_def record_defs is_timed_out_def age_def List.map_filter_simps
        report_timeout_def Let_def)
  then show ?thesis
    using every_message_accounted_for [of ?ops, OF _ _ refl] by (simp add: Let_def)
qed

text \<open>
  A missed deadline is reported once and a late acknowledgement is recognised. When a
  checker tick finds a pending message past its deadline it stops being pending and is
  remembered; the next tick reports nothing more for it (its kind's timeout counter changes
  only for other messages), and an acknowledgement that comes before it is forgotten counts
  as late and neither as a success nor as a failure.
\<close>
theorem missed_deadline_reported_once:
  assumes "tracker_inv ids tr" and "distinct ks" and "set ks = dom (pending tr)"
    and "pending tr i = Some m" and "is_timed_out now m"
    and "correlation_id ack = i" and "tr' = check_timeouts now ks tr"
  shows "pending tr' i = None \<and> timed_out tr' i = Some m
    \<and> i \<notin> set (expired_ids now' ks' tr')
    \<and> acknowledge ack now'' tr'
        = tr'\<lparr>timed_out := (timed_out tr')(i := None), metrics := record_late_ack (pm_kind m) (metrics tr')\<rparr>
    \<and> total_acked (metrics (acknowledge ack now'' tr')) = total_acked (metrics tr')
    \<and> total_failed (metrics (acknowledge ack now'' tr')) = total_failed (metrics tr')"
proof -
  let ?e = "expired_ids now ks tr" and ?ms = "List.map_filter (pending tr) (expired_ids now ks tr)"
  have i: "i \<in> set ?e" using assms(3-5) by (auto simp: expired_ids_def)
  have pmid: "\<forall>i m. pending tr i = Some m \<longrightarrow> pm_id m = i" using assms(1) by (simp add: tracker_inv_def)
  have dist: "distinct (map pm_id ?ms)"
    unfolding pm_ids_expired [OF pmid] using assms(2) by (simp add: expired_ids_def)
  have "m \<in> set ?ms" using i assms(4) by (auto simp: List.map_filter_def image_iff intro!: bexI [of _ i])
  moreover have "pm_id m = i" using pmid assms(4) by simp
  ultimately have out: "timed_out tr' i = Some m"
    using fold_report_timed_out [OF dist, of m]
    unfolding assms(7) check_timeouts_def Let_def expired_ids_def [symmetric] by simp
  have gone: "pending tr' i = None" using i by (simp add: assms(7) pending_check restrict_map_def)
  then have "i \<notin> set (expired_ids now' ks' tr')" by (simp add: expired_ids_def)
  moreover have "acknowledge ack now'' tr'
        = tr'\<lparr>timed_out := (timed_out tr')(i := None), metrics := record_late_ack (pm_kind m) (metrics tr')\<rparr>"
    using gone out assms(6) by (simp add: acknowledge_def)
  ultimately show ?thesis
    using gone out by (simp add: record_late_ack_def)
qed

theorem missed_deadline_reported_once_witness:
  "let tr = check_timeouts 9 [7] (track 7 InitializeGPU 5 0 new_tracker)
   in pending tr 7 = None \<and> timed_out tr 7 \<noteq> None
      \<and> total_acked (metrics (acknowledge (ack_success 7 10) 10 tr)) = total_acked (metrics tr)"
proof -
  let ?tr = "track 7 InitializeGPU 5 0 new_tracker"
    and ?m = "\<lparr>pm_id = 7, pm_kind = InitializeGPU, sent_at = 0, timeout = 5\<rparr>"
  have "tracker_inv {7} ?tr" using track_inv [OF new_tracker_inv] by simp
  moreover have "pending ?tr = [7 \<mapsto> ?m]" by (simp add: track_def new_tracker_def)
  moreover have "is_timed_out 9 ?m" by (simp add: is_timed_out_def age_def)
  moreover have "correlation_id (ack_success 7 10) = 7" by (simp add: ack_success_def)
  ultimately show ?thesis
    using missed_deadline_reported_once [of "{7}" ?tr "[7]" 7 ?m 9 "ack_success 7 10" _ 0 "[]" 10, OF _ _ _ _ _ _ refl]
    by (simp add: Let_def record_late_ack_def)
qed

end
