(* ===== verification/Coordinator.thy ===== *)
theory Coordinator
  imports Client_Manager
begin

text \<open>
  The actor of \<open>src/actors/client_coordinator_actor.rs\<close>: the reconnect queue and one handler per
  message, each over the client manager. What the actor runtime and the hash tables decide for
  one message is an \<open>env\<close>: the outcome of sends, the iteration orders, the clock and whether
  the visibility filter is on. Frames handed to clients are recorded in \<open>outbox\<close>, buffered
  messages replayed to a client in \<open>replayed\<close>. A poisoned lock (another thread panicked) is
  not modelled; telemetry and logging are left out. A filter recomputed from the graph arrives
  later, as the separate step \<open>filter_recomputed\<close> with the new set of ids.
\<close>

section \<open>The reconnect queue\<close>

record disconnected_queue =
  buffers :: "nat \<rightharpoonup> bytes list"
  disconnected_at :: "nat \<rightharpoonup> instant"
  max_buffer_per_client :: nat
  ttl :: duration

definition new_queue :: "nat \<Rightarrow> duration \<Rightarrow> disconnected_queue" where
  "new_queue mx t = \<lparr>buffers = Map.empty, disconnected_at = Map.empty, max_buffer_per_client = mx, ttl = t\<rparr>"

definition track_disconnect :: "nat \<Rightarrow> instant \<Rightarrow> disconnected_queue \<Rightarrow> disconnected_queue" where
  "track_disconnect i now q =
     q\<lparr>buffers := (case buffers q i of None \<Rightarrow> (buffers q)(i \<mapsto> []) | Some _ \<Rightarrow> buffers q),
       disconnected_at := (disconnected_at q)(i \<mapsto> now)\<rparr>"

definition push_message :: "nat \<Rightarrow> bytes \<Rightarrow> disconnected_queue \<Rightarrow> disconnected_queue" where
  "push_message i data q =
     (case buffers q i of
        None \<Rightarrow> q
      | Some buf \<Rightarrow>
          (let buf1 = (if length buf \<ge> max_buffer_per_client q then tl buf else buf)
           in q\<lparr>buffers := (buffers q)(i \<mapsto> buf1 @ [data])\<rparr>))"

definition drain_for_reconnect :: "nat \<Rightarrow> instant \<Rightarrow> disconnected_queue \<Rightarrow> bytes list \<times> disconnected_queue" where
  "drain_for_reconnect i now q =
     (let q1 = q\<lparr>buffers := (buffers q)(i := None), disconnected_at := (disconnected_at q)(i := None)\<rparr>;
          expired = (case disconnected_at q i of None \<Rightarrow> False | Some t \<Rightarrow> nat (now - t) > ttl q)
      in if expired then ([], q1)
         else (case buffers q i of None \<Rightarrow> [] | Some buf \<Rightarrow> buf, q1))"

definition is_stale_entry :: "instant \<Rightarrow> disconnected_queue \<Rightarrow> nat \<Rightarrow> bool" where
  "is_stale_entry now q i =
     (case disconnected_at q i of None \<Rightarrow> False | Some t \<Rightarrow> nat (now - t) > ttl q)"

definition evict_stale :: "instant \<Rightarrow> disconnected_queue \<Rightarrow> disconnected_queue" where
  "evict_stale now q =
     q\<lparr>buffers := (\<lambda>i. if is_stale_entry now q i then None else buffers q i),
       disconnected_at := (\<lambda>i. if is_stale_entry now q i then None else disconnected_at q i)\<rparr>"

section \<open>The actor\<close>

record connection_stats =
  total_registrations :: nat
  total_unregistrations :: nat
  current_clients :: nat
  peak_clients :: nat

record env =
  ev_try_send :: try_send
  ev_clients :: "nat set \<Rightarrow> nat list"
  ev_nodes :: "u32 set \<Rightarrow> u32 list"
  ev_policy :: bool
  ev_now :: instant
  ev_settle_now :: instant

record coordinator =
  manager :: client_manager
  broadcast_sequence :: u64
  co_settings :: stream_settings
  position_cache :: "u32 \<rightharpoonup> binary_node_data"
  broadcast_count :: u64
  bytes_sent :: u64
  connection_stats :: connection_stats
  pending_voice_data :: "bytes list"
  voice_data_queued_bytes :: nat
  co_arrays :: node_type_arrays
  co_analytics :: "u32 \<rightharpoonup> node_analytics"
  co_queue :: disconnected_queue
  outbox :: "(nat \<times> bytes) list"
  replayed :: "(nat \<times> bytes) list"

text \<open>Defaults: chunks of 2500 nodes, threshold 0.05, 500 ms; 64 messages for 30 seconds.\<close>

definition new_coordinator :: coordinator where
  "new_coordinator = \<lparr>manager = new_manager, broadcast_sequence = 0,
     co_settings = \<lparr>chunk_nodes = 2500, move_threshold = 0x3D4CCCCD, ack_timeout = 500000000\<rparr>,
     position_cache = Map.empty, broadcast_count = 0, bytes_sent = 0,
     connection_stats = \<lparr>total_registrations = 0, total_unregistrations = 0, current_clients = 0, peak_clients = 0\<rparr>,
     pending_voice_data = [], voice_data_queued_bytes = 0, co_arrays = default_arrays,
     co_analytics = Map.empty, co_queue = new_queue 64 (seconds 30), outbox = [], replayed = []\<rparr>"

definition client_order :: "env \<Rightarrow> client_manager \<Rightarrow> nat list" where
  "client_order ev m = ev_clients ev (dom (clients m))"

definition update_connection_stats :: "coordinator \<Rightarrow> coordinator" where
  "update_connection_stats co =
     (let n = client_count (manager co); s = connection_stats co
      in co\<lparr>connection_stats := s\<lparr>current_clients := n, peak_clients := max n (peak_clients s)\<rparr>\<rparr>)"

definition settle_result :: "env \<Rightarrow> broadcast_result \<Rightarrow> coordinator \<Rightarrow> coordinator" where
  "settle_result ev r co =
     co\<lparr>manager := settle_broadcast_result r (ev_settle_now ev) (client_order ev (manager co)) (manager co)\<rparr>"

definition pump_context_of :: "env \<Rightarrow> coordinator \<Rightarrow> pump_context" where
  "pump_context_of ev co =
     \<lparr>pc_cache = position_cache co, pc_keys = ev_nodes ev (dom (position_cache co)), pc_nta = co_arrays co,
      pc_settings = co_settings co, pc_analytics = Some (co_analytics co), pc_now = ev_now ev\<rparr>"

definition pump :: "env \<Rightarrow> nat option \<Rightarrow> coordinator \<Rightarrow> coordinator" where
  "pump ev only co =
     (let cx = pump_context_of ev co
      in if pc_keys cx = [] then co
         else let st = (case only of
                          Some i \<Rightarrow> pump_client (ev_try_send ev) cx (ev_policy ev) i (manager co) (broadcast_sequence co)
                        | None \<Rightarrow> pump_all (ev_try_send ev) cx (ev_policy ev) (client_order ev (manager co))
                                    (manager co) (broadcast_sequence co));
                  r = pm_result st
              in settle_result ev r
                   (co\<lparr>manager := pm_manager st, broadcast_sequence := pm_seq st,
                       broadcast_count := broadcast_count co + word_of_nat (sent r),
                       bytes_sent := bytes_sent co + word_of_nat (sent_bytes r),
                       outbox := outbox co @ delivered r\<rparr>))"

section \<open>Message handlers\<close>

definition replay_buffered_messages :: "env \<Rightarrow> nat \<Rightarrow> coordinator \<Rightarrow> coordinator" where
  "replay_buffered_messages ev i co =
     (let (msgs, q) = drain_for_reconnect i (ev_settle_now ev) (co_queue co)
      in co\<lparr>co_queue := q, replayed := replayed co @ map (\<lambda>m. (i, m)) msgs\<rparr>)"

definition handle_register :: "env \<Rightarrow> duration \<Rightarrow> coordinator \<Rightarrow> nat \<times> coordinator" where
  "handle_register ev stall co =
     (let (i, m) = register_client stall (ev_now ev) (manager co);
          s = connection_stats co;
          co1 = update_connection_stats
                  (co\<lparr>manager := m, connection_stats := s\<lparr>total_registrations := total_registrations s + 1\<rparr>\<rparr>);
          co2 = pump ev (Some i) co1
      in (i, if i \<in> dom (buffers (co_queue co2)) \<and> clients (manager co2) i \<noteq> None
             then replay_buffered_messages ev i co2 else co2))"

datatype coordinator_error = ClientNotFound nat | InvalidFilterMode string

definition handle_unregister :: "env \<Rightarrow> nat \<Rightarrow> coordinator \<Rightarrow> (coordinator_error + unit) \<times> coordinator" where
  "handle_unregister ev i co =
     (let (success, m) = unregister_client i (manager co); s = connection_stats co
      in if success
         then (Ok (), update_connection_stats
                 (co\<lparr>manager := m, co_queue := track_disconnect i (ev_now ev) (co_queue co),
                     connection_stats := s\<lparr>total_unregistrations := total_unregistrations s + 1\<rparr>\<rparr>))
         else (Err (ClientNotFound i), co\<lparr>manager := m\<rparr>))"

definition handle_agent_actions :: "env \<Rightarrow> action_event list \<Rightarrow> coordinator \<Rightarrow> coordinator" where
  "handle_agent_actions ev events co =
     (let r = broadcast_agent_actions (ev_try_send ev) events (co_arrays co) (ev_policy ev)
                (client_order ev (manager co)) (manager co);
          co1 = settle_result ev r (co\<lparr>outbox := outbox co @ delivered r\<rparr>)
      in if sent r > 0
         then co1\<lparr>broadcast_count := broadcast_count co1 + 1,
                  bytes_sent := bytes_sent co1 + word_of_nat (sent_bytes r)\<rparr>
         else co1)"

definition buffer_to_disconnected :: "nat list \<Rightarrow> bytes \<Rightarrow> coordinator \<Rightarrow> coordinator" where
  "buffer_to_disconnected ids data co = co\<lparr>co_queue := fold (\<lambda>i. push_message i data) ids (co_queue co)\<rparr>"

text \<open>A text broadcast only buffers for the clients that went away; texts do not change a client.\<close>

definition handle_broadcast_message :: "env \<Rightarrow> string \<Rightarrow> coordinator \<Rightarrow> coordinator" where
  "handle_broadcast_message ev msg co =
     buffer_to_disconnected (ev_clients ev (dom (buffers (co_queue co)))) (as_bytes msg) co"

definition handle_publish_positions :: "env \<Rightarrow> binary_node_data list \<Rightarrow> coordinator \<Rightarrow> coordinator" where
  "handle_publish_positions ev ps co =
     pump ev None (co\<lparr>position_cache := fold (\<lambda>p c. c(node_id p \<mapsto> p)) ps (position_cache co)\<rparr>)"

definition handle_configure_stream :: "env \<Rightarrow> u32 \<Rightarrow> f32 \<Rightarrow> u32 \<Rightarrow> coordinator \<Rightarrow> coordinator" where
  "handle_configure_stream ev chunk threshold timeout_ms co =
     pump ev None (co\<lparr>co_settings := \<lparr>chunk_nodes = unat (max chunk 1), move_threshold = threshold,
                       ack_timeout = unat timeout_ms * 1000000\<rparr>\<rparr>)"

definition handle_node_type_arrays :: "node_type_arrays \<Rightarrow> coordinator \<Rightarrow> coordinator" where
  "handle_node_type_arrays arrays co = co\<lparr>co_arrays := arrays\<rparr>"

definition handle_ack :: "env \<Rightarrow> nat option \<Rightarrow> u64 \<Rightarrow> coordinator \<Rightarrow> coordinator" where
  "handle_ack ev cid sq co =
     (case cid of
        None \<Rightarrow> co
      | Some i \<Rightarrow>
          (let (n, m) = manager_acknowledge i sq (manager co); co1 = co\<lparr>manager := m\<rparr>
           in case n of None \<Rightarrow> co1 | Some _ \<Rightarrow> pump ev (Some i) co1))"

definition queue_voice_data :: "bytes \<Rightarrow> coordinator \<Rightarrow> coordinator" where
  "queue_voice_data audio co =
     co\<lparr>voice_data_queued_bytes := voice_data_queued_bytes co + length audio,
        pending_voice_data := pending_voice_data co @ [audio]\<rparr>"

definition send_voice :: "env \<Rightarrow> bytes \<Rightarrow> coordinator \<Rightarrow> coordinator" where
  "send_voice ev voice co =
     (let r = broadcast_to_all (ev_try_send ev) (encode_voice_data voice) (client_order ev (manager co)) (manager co);
          co1 = settle_result ev r (co\<lparr>outbox := outbox co @ delivered r\<rparr>)
      in co1\<lparr>bytes_sent := bytes_sent co1 + word_of_nat (sent_bytes r),
             voice_data_queued_bytes := voice_data_queued_bytes co1 - length voice,
             pending_voice_data := tl (pending_voice_data co1)\<rparr>)"

definition flush_voice :: "env \<Rightarrow> coordinator \<Rightarrow> coordinator" where
  "flush_voice ev co = fold (send_voice ev) (pending_voice_data co) co"

definition handle_voice :: "env \<Rightarrow> bytes \<Rightarrow> coordinator \<Rightarrow> coordinator" where
  "handle_voice ev audio co = flush_voice ev (queue_voice_data audio co)"

definition handle_authenticate ::
  "nat \<Rightarrow> string \<Rightarrow> bool \<Rightarrow> bool \<Rightarrow> coordinator \<Rightarrow> (coordinator_error + unit) \<times> coordinator" where
  "handle_authenticate i key power_user ephemeral co =
     (case clients (manager co) i of
        None \<Rightarrow> (Err (ClientNotFound i), co)
      | Some _ \<Rightarrow> (Ok (), co\<lparr>manager := with_client i
          (\<lambda>c. c\<lparr>pubkey := Some key, is_power_user := power_user, ephemeral_session := ephemeral\<rparr>) (manager co)\<rparr>))"

record filter_update =
  fu_enabled :: bool
  fu_quality_threshold :: f64
  fu_authority_threshold :: f64
  fu_filter_by_quality :: bool
  fu_filter_by_authority :: bool
  fu_filter_mode :: string
  fu_include_linked_pages :: bool
  fu_server_remove :: bool

text \<open>\<open>has_graph\<close> says whether the graph service is connected; without it the ids are cleared.\<close>

definition handle_update_filter ::
  "bool \<Rightarrow> nat \<Rightarrow> filter_update \<Rightarrow> coordinator \<Rightarrow> (coordinator_error + unit) \<times> coordinator" where
  "handle_update_filter has_graph i fu co =
     (case clients (manager co) i of
        None \<Rightarrow> (Err (ClientNotFound i), co)
      | Some _ \<Rightarrow>
          (case filter_mode_from_str (fu_filter_mode fu) of
             Inl e \<Rightarrow> (Err (InvalidFilterMode e), co)
           | Inr mode \<Rightarrow>
               (let upd = (\<lambda>f. f\<lparr>filter_enabled := fu_enabled fu, quality_threshold := fu_quality_threshold fu,
                              authority_threshold := fu_authority_threshold fu,
                              filter_by_quality := fu_filter_by_quality fu,
                              filter_by_authority := fu_filter_by_authority fu, filter_mode := mode,
                              include_linked_pages := fu_include_linked_pages fu,
                              server_remove := fu_server_remove fu,
                              filtered_node_ids := (if has_graph then filtered_node_ids f else {})\<rparr>)
                in (Ok (), co\<lparr>manager := with_client i (client_filter_update upd) (manager co)\<rparr>))))"

definition filter_recomputed :: "nat \<Rightarrow> u32 set \<Rightarrow> coordinator \<Rightarrow> coordinator" where
  "filter_recomputed i ids co =
     co\<lparr>manager := with_client i (client_filter_update (filtered_node_ids_update (\<lambda>_. ids))) (manager co)\<rparr>"

text \<open>The three timers of the actor.\<close>

definition stall_sweep :: "env \<Rightarrow> coordinator \<Rightarrow> coordinator" where
  "stall_sweep ev co =
     co\<lparr>manager := snd (evict_stalled (ev_now ev) (client_order ev (manager co)) (manager co))\<rparr>"

definition stream_tick :: "env \<Rightarrow> coordinator \<Rightarrow> coordinator" where
  "stream_tick ev co = pump ev None co"

definition queue_sweep :: "env \<Rightarrow> coordinator \<Rightarrow> coordinator" where
  "queue_sweep ev co = co\<lparr>co_queue := evict_stale (ev_now ev) (co_queue co)\<rparr>"

section \<open>Histories\<close>

datatype coordinator_op =
    Register env duration
  | Unregister env nat
  | PublishPositions env "binary_node_data list"
  | ConfigureStream env u32 f32 u32
  | UpdateNodeTypeArrays node_type_arrays
  | ClientBroadcastAck env "nat option" u64
  | AgentActions env "action_event list"
  | BroadcastText env string
  | QueueVoice env bytes
  | Authenticate nat string bool bool
  | UpdateFilter bool nat filter_update
  | FilterRecomputed nat "u32 set"
  | StallSweep env
  | StreamTick env
  | QueueSweep env

fun coordinator_step :: "coordinator_op \<Rightarrow> coordinator \<Rightarrow> coordinator" where
  "coordinator_step (Register ev stall) co = snd (handle_register ev stall co)"
| "coordinator_step (Unregister ev i) co = snd (handle_unregister ev i co)"
| "coordinator_step (PublishPositions ev ps) co = handle_publish_positions ev ps co"
| "coordinator_step (ConfigureStream ev k t ms) co = handle_configure_stream ev k t ms co"
| "coordinator_step (UpdateNodeTypeArrays nta) co = handle_node_type_arrays nta co"
| "coordinator_step (ClientBroadcastAck ev i sq) co = handle_ack ev i sq co"
| "coordinator_step (AgentActions ev es) co = handle_agent_actions ev es co"
| "coordinator_step (BroadcastText ev msg) co = handle_broadcast_message ev msg co"
| "coordinator_step (QueueVoice ev audio) co = handle_voice ev audio co"
| "coordinator_step (Authenticate i key pw eph) co = snd (handle_authenticate i key pw eph co)"
| "coordinator_step (UpdateFilter g i fu) co = snd (handle_update_filter g i fu co)"
| "coordinator_step (FilterRecomputed i ids) co = filter_recomputed i ids co"
| "coordinator_step (StallSweep ev) co = stall_sweep ev co"
| "coordinator_step (StreamTick ev) co = stream_tick ev co"
| "coordinator_step (QueueSweep ev) co = queue_sweep ev co"

definition manager_inv :: "client_manager \<Rightarrow> bool" where
  "manager_inv m \<longleftrightarrow>
     (\<forall>i c. clients m i = Some c \<longrightarrow> 1 \<le> i \<and> i < next_id m \<and> client_id c = i \<and> stream_inv (stream c))
     \<and> active_connections m = card (dom (clients m)) \<and> next_id m = total_connections m + 1"

text \<open>
  What every operation but a registration does to the manager: it keeps the invariant and adds
  no client. The relation composes.
\<close>

definition evolves :: "client_manager \<Rightarrow> client_manager \<Rightarrow> bool" where
  "evolves m m' \<longleftrightarrow> (manager_inv m \<longrightarrow> manager_inv m' \<and> dom (clients m') \<subseteq> dom (clients m) \<and> next_id m' = next_id m
     \<and> total_connections m' = total_connections m)"

lemma evolves_refl [simp, intro!]: "evolves m m"
  by (simp add: evolves_def)

lemma evolves_trans [trans]: "evolves a b \<Longrightarrow> evolves b c \<Longrightarrow> evolves a c"
  by (fastforce simp: evolves_def)

lemma evolves_fold: "(\<And>x m. evolves m (f x m)) \<Longrightarrow> evolves m (fold f xs m)"
  by (induction xs arbitrary: m) (auto intro: evolves_trans)

lemma evolves_update:
  assumes "clients m i = Some c" and "client_id c' = client_id c"
    and "stream_inv (stream c) \<Longrightarrow> stream_inv (stream c')"
  shows "evolves m (m\<lparr>clients := (clients m)(i \<mapsto> c')\<rparr>)"
proof -
  have "dom ((clients m)(i \<mapsto> c')) = dom (clients m)" using assms(1) by auto
  then show ?thesis
    unfolding evolves_def manager_inv_def using assms by (auto split: if_splits)
qed

lemma evolves_with_client:
  assumes "\<And>c. client_id (f c) = client_id c" and "\<And>c. stream_inv (stream c) \<Longrightarrow> stream_inv (stream (f c))"
  shows "evolves m (with_client i f m)"
  using assms by (auto simp: with_client_def intro: evolves_update split: option.split)

lemma evolves_unregister: "evolves m (snd (unregister_client i m))"
  by (auto simp: evolves_def manager_inv_def unregister_client_def client_count_def Let_def split: option.splits if_splits)

lemma evolves_congestion: "evolves m (record_congestion r now m)"
proof -
  have "dom (clients (record_congestion r now m)) = dom (clients m)" by (auto simp: record_congestion_def)
  then show ?thesis
    unfolding evolves_def manager_inv_def by (auto simp: record_congestion_def)
qed

lemma evolves_evict: "evolves m (snd (evict_stalled now order m))"
  by (auto simp: evolves_def manager_inv_def evict_stalled_def client_count_def Let_def split: if_splits)

lemma evolves_settle: "evolves m (settle_broadcast_result r now order m)"
proof -
  have "evolves m (snd (evict_stalled now order (record_congestion r now m)))"
    by (rule evolves_trans [OF evolves_congestion evolves_evict])
  also have "evolves \<dots> (settle_broadcast_result r now order m)"
    unfolding settle_broadcast_result_def by (rule evolves_fold) (rule evolves_unregister)
  finally show ?thesis .
qed

lemma stream_inv_retain: "stream_inv s \<Longrightarrow> stream_inv (retain_nodes keep s)"
  by (simp add: stream_inv_def retain_nodes_def)

lemma stream_inv_sent: "stream_inv s \<Longrightarrow> stream_inv (record_sent sq now ps ak s)"
  using stream_step_inv [of s "Sent sq now ps ak"] by simp

lemma stream_inv_acknowledge: "stream_inv s \<Longrightarrow> stream_inv (snd (acknowledge sq s))"
  using stream_step_inv [of s "Acked sq"] by simp

lemma stream_inv_pumped: "stream_inv (stream c) \<Longrightarrow> stream_inv (pumped_stream cx policy_on acc sq c)"
  by (simp add: pumped_stream_def retained_stream_def stream_inv_retain stream_inv_sent)

lemma evolves_pump_one:
  assumes "memo_ok (pc_nta cx) (pm_drop_sets st)"
  shows "evolves (pm_manager st) (pm_manager (pump_one ts cx policy_on i st))
    \<and> memo_ok (pc_nta cx) (pm_drop_sets (pump_one ts cx policy_on i st))"
proof (cases "clients (pm_manager st) i")
  case (Some c)
  note spec = pump_one_spec [OF assms Some refl refl, of ts policy_on]
  have "evolves m (with_client i (\<lambda>c'. c'\<lparr>stream := pumped_stream cx policy_on acc sq c\<rparr>) m)"
    if "clients m i = Some c" for m acc sq
    using that stream_inv_pumped [of c] evolves_update [of m i c] by (simp add: with_client_def)
  then show ?thesis using spec Some by simp
qed (use assms in \<open>simp add: pump_one_none\<close>)

lemma evolves_pump_fold:
  "memo_ok (pc_nta cx) (pm_drop_sets st) \<Longrightarrow>
     evolves (pm_manager st) (pm_manager (fold (pump_one ts cx policy_on) order st))"
proof (induction order arbitrary: st)
  case (Cons i order)
  then show ?case using evolves_pump_one [OF Cons.prems, of ts policy_on i] evolves_trans by fastforce
qed simp

lemma evolves_pump:
  "evolves m (pm_manager (pump_all ts cx policy_on order m seq))"
  "evolves m (pm_manager (pump_client ts cx policy_on i m seq))"
  using evolves_pump_fold [of cx "initial_pump m seq" ts policy_on order]
    evolves_pump_one [of cx "initial_pump m seq" ts policy_on i]
  by (simp_all add: pump_all_eq pump_client_eq initial_pump_def memo_ok_def)

lemma evolves_acknowledge: "evolves m (snd (manager_acknowledge i sq m))"
proof (cases "clients m i")
  case (Some c)
  obtain n s' where a: "acknowledge sq (stream c) = (n, s')" by (cases "acknowledge sq (stream c)")
  then have "stream_inv (stream c) \<Longrightarrow> stream_inv s'" using stream_inv_acknowledge [of "stream c" sq] by simp
  then show ?thesis using Some a by (auto simp: manager_acknowledge_def intro: evolves_update)
qed (simp add: manager_acknowledge_def)

text \<open>What the pump and the settling of a broadcast do to the actor.\<close>

definition co_evolves :: "coordinator \<Rightarrow> coordinator \<Rightarrow> bool" where
  "co_evolves co co' \<longleftrightarrow> evolves (manager co) (manager co') \<and> co_queue co' = co_queue co
     \<and> replayed co' = replayed co \<and> connection_stats co' = connection_stats co
     \<and> pending_voice_data co' = pending_voice_data co
     \<and> voice_data_queued_bytes co' = voice_data_queued_bytes co"

lemma co_evolves_settle: "co_evolves co (settle_result ev r co)"
  by (simp add: co_evolves_def settle_result_def evolves_settle)

lemma co_evolves_after:
  assumes "evolves (manager co) m"
  shows "co_evolves co (settle_result ev r (co\<lparr>manager := m, broadcast_sequence := q, broadcast_count := n,
           bytes_sent := b, outbox := ob\<rparr>))"
  using evolves_trans [OF assms evolves_settle] by (simp add: co_evolves_def settle_result_def)

lemma co_evolves_pump: "co_evolves co (pump ev only co)"
proof -
  have "co_evolves co co" by (simp add: co_evolves_def)
  then show ?thesis
    unfolding pump_def Let_def
    by (cases only) (simp_all add: co_evolves_after evolves_pump)
qed

definition queue_inv :: "nat \<Rightarrow> disconnected_queue \<Rightarrow> bool" where
  "queue_inv nxt q \<longleftrightarrow> dom (disconnected_at q) = dom (buffers q) \<and> max_buffer_per_client q = 64
     \<and> (\<forall>i b. buffers q i = Some b \<longrightarrow> i < nxt \<and> length b \<le> 64)"

lemma queue_inv_track: "queue_inv nxt q \<Longrightarrow> i < nxt \<Longrightarrow> queue_inv nxt (track_disconnect i now q)"
  by (auto simp: queue_inv_def track_disconnect_def insert_absorb split: option.splits if_splits)

lemma queue_inv_push: "queue_inv nxt q \<Longrightarrow> queue_inv nxt (push_message i d q)"
  by (fastforce simp: queue_inv_def push_message_def insert_absorb Let_def split: option.splits if_splits)

lemma dom_push: "dom (buffers (push_message i d q)) = dom (buffers q)"
  by (auto simp: push_message_def Let_def split: option.splits)

lemma queue_inv_buffer:
  "queue_inv nxt q \<Longrightarrow> queue_inv nxt (fold (\<lambda>i. push_message i d) ids q)
     \<and> dom (buffers (fold (\<lambda>i. push_message i d) ids q)) = dom (buffers q)"
  by (induction ids arbitrary: q) (simp_all add: queue_inv_push dom_push)

lemma queue_inv_evict: "queue_inv nxt q \<Longrightarrow> queue_inv nxt (evict_stale now q)"
  by (auto simp: queue_inv_def evict_stale_def dom_def split: if_splits)

definition coordinator_inv :: "coordinator \<Rightarrow> bool" where
  "coordinator_inv co \<longleftrightarrow> manager_inv (manager co) \<and> queue_inv (next_id (manager co)) (co_queue co)
     \<and> dom (buffers (co_queue co)) \<inter> dom (clients (manager co)) = {}
     \<and> total_registrations (connection_stats co) = total_connections (manager co)
     \<and> replayed co = [] \<and> pending_voice_data co = [] \<and> voice_data_queued_bytes co = 0"

lemma co_evolves_inv: "co_evolves co co' \<Longrightarrow> coordinator_inv co \<Longrightarrow> coordinator_inv co'"
  by (auto simp: co_evolves_def coordinator_inv_def evolves_def)

lemma manager_inv_register:
  assumes "manager_inv m"
  shows "manager_inv (snd (register_client stall now m))"
proof -
  have "stream_inv new_stream" by (simp add: stream_inv_def new_stream_def)
  then show ?thesis
    using assms
    by (auto simp: manager_inv_def register_client_def client_count_def Let_def less_SucI split: if_splits)
qed

lemma register_dom:
  "clients (snd (register_client stall now m)) = (clients m)(next_id m \<mapsto> the (clients (snd (register_client stall now m)) (next_id m)))"
  "fst (register_client stall now m) = next_id m"
  "next_id (snd (register_client stall now m)) = next_id m + 1"
  "total_connections (snd (register_client stall now m)) = total_connections m + 1"
  by (simp_all add: register_client_def Let_def)

lemma queue_inv_mono: "queue_inv n q \<Longrightarrow> n \<le> n' \<Longrightarrow> queue_inv n' q"
  by (fastforce simp: queue_inv_def)

lemma register_inv:
  assumes inv: "coordinator_inv co"
  shows "coordinator_inv (snd (handle_register ev stall co))"
proof -
  let ?m = "snd (register_client stall (ev_now ev) (manager co))" and ?i = "next_id (manager co)"
  let ?s = "connection_stats co"
  let ?co1 = "update_connection_stats
    (co\<lparr>manager := ?m, connection_stats := ?s\<lparr>total_registrations := total_registrations ?s + 1\<rparr>\<rparr>)"
  let ?co2 = "pump ev (Some ?i) ?co1"
  have b: "?i \<notin> dom (buffers (co_queue co))" using inv by (auto simp: coordinator_inv_def queue_inv_def)
  have d: "dom (clients ?m) = insert ?i (dom (clients (manager co)))" by (subst register_dom(1)) simp
  have "coordinator_inv ?co1"
    using inv b d manager_inv_register [of "manager co" stall "ev_now ev"]
      queue_inv_mono [of ?i "co_queue co" "?i + 1"]
    by (auto simp: coordinator_inv_def update_connection_stats_def Let_def register_dom(3,4))
  then have inv2: "coordinator_inv ?co2" by (rule co_evolves_inv [OF co_evolves_pump])
  have "co_queue ?co2 = co_queue co"
    using co_evolves_pump [of ?co1 ev "Some ?i"] by (simp add: co_evolves_def update_connection_stats_def Let_def)
  then have "snd (handle_register ev stall co) = ?co2"
    using b unfolding handle_register_def
    by (simp only: Let_def case_prod_unfold register_dom(2) snd_conv if_False simp_thms)
  with inv2 show ?thesis by simp
qed

lemma unregister_inv:
  assumes "coordinator_inv co"
  shows "coordinator_inv (snd (handle_unregister ev i co))"
proof (cases "clients (manager co) i")
  case (Some c)
  have ev: "evolves (manager co) (snd (unregister_client i (manager co)))" by (rule evolves_unregister)
  have "i < next_id (manager co)" using assms Some by (auto simp: coordinator_inv_def manager_inv_def)
  moreover have "dom (buffers (track_disconnect i t q)) = insert i (dom (buffers q))" for t q
    by (auto simp: track_disconnect_def split: option.splits)
  moreover have "dom (clients (snd (unregister_client i (manager co)))) = dom (clients (manager co)) - {i}"
    using Some by (auto simp: unregister_client_def Let_def)
  ultimately show ?thesis
    using assms ev Some queue_inv_track [of "next_id (manager co)" "co_queue co" i "ev_now ev"]
    by (auto simp: handle_unregister_def unregister_client_def coordinator_inv_def evolves_def
        update_connection_stats_def Let_def)
qed (use assms in \<open>simp add: handle_unregister_def unregister_client_def\<close>)

lemma evolves_manager_inv:
  "coordinator_inv co \<Longrightarrow> evolves (manager co) m \<Longrightarrow> coordinator_inv (co\<lparr>manager := m\<rparr>)"
  by (rule co_evolves_inv [of co]) (simp_all add: co_evolves_def)

lemma coordinator_inv_outside:
  "coordinator_inv (co\<lparr>broadcast_sequence := a\<rparr>) = coordinator_inv co"
  "coordinator_inv (co\<lparr>co_settings := b\<rparr>) = coordinator_inv co"
  "coordinator_inv (co\<lparr>position_cache := c\<rparr>) = coordinator_inv co"
  "coordinator_inv (co\<lparr>broadcast_count := d\<rparr>) = coordinator_inv co"
  "coordinator_inv (co\<lparr>bytes_sent := e\<rparr>) = coordinator_inv co"
  "coordinator_inv (co\<lparr>co_arrays := f\<rparr>) = coordinator_inv co"
  "coordinator_inv (co\<lparr>outbox := g\<rparr>) = coordinator_inv co"
  by (simp_all add: coordinator_inv_def)

lemma voice_inv:
  assumes "coordinator_inv co"
  shows "coordinator_inv (handle_voice ev audio co)"
proof -
  let ?q = "queue_voice_data audio co"
  have "pending_voice_data ?q = [audio]" "voice_data_queued_bytes ?q = length audio"
    using assms by (simp_all add: queue_voice_data_def coordinator_inv_def)
  moreover have "coordinator_inv (?q\<lparr>pending_voice_data := [], voice_data_queued_bytes := 0\<rparr>)"
    using assms by (simp add: coordinator_inv_def queue_voice_data_def)
  ultimately show ?thesis
    using evolves_settle
    by (simp add: handle_voice_def flush_voice_def send_voice_def settle_result_def Let_def
        coordinator_inv_def evolves_def) blast
qed

lemma coordinator_step_inv [inv_intros]:
  assumes "coordinator_inv co"
  shows "coordinator_inv (coordinator_step x co)"
proof (cases x)
  case (ClientBroadcastAck ev i sq)
  have "coordinator_inv (co\<lparr>manager := snd (manager_acknowledge j sq (manager co))\<rparr>)" for j
    by (rule evolves_manager_inv [OF assms evolves_acknowledge])
  then show ?thesis
    unfolding ClientBroadcastAck using assms co_evolves_inv [OF co_evolves_pump]
    by (simp add: handle_ack_def Let_def case_prod_unfold split: option.split)
next
  case (AgentActions ev es)
  show ?thesis
    unfolding AgentActions using assms
    by (auto simp: handle_agent_actions_def Let_def coordinator_inv_outside
        intro!: co_evolves_inv [OF co_evolves_settle])
next
  case (BroadcastText ev msg)
  show ?thesis
    unfolding BroadcastText using assms queue_inv_buffer
    by (auto simp: handle_broadcast_message_def buffer_to_disconnected_def coordinator_inv_def) blast
next
  case (QueueSweep ev)
  have "dom (buffers (evict_stale t q)) \<subseteq> dom (buffers q)" for t q
    by (auto simp: evict_stale_def split: if_splits)
  then show ?thesis
    unfolding QueueSweep using assms queue_inv_evict by (fastforce simp: queue_sweep_def coordinator_inv_def)
qed (use assms in \<open>auto simp: register_inv unregister_inv voice_inv handle_publish_positions_def
    handle_configure_stream_def handle_node_type_arrays_def handle_authenticate_def handle_update_filter_def
    filter_recomputed_def stall_sweep_def stream_tick_def coordinator_inv_outside Let_def
    intro!: co_evolves_inv [OF co_evolves_pump] evolves_manager_inv evolves_with_client evolves_evict
    split: option.split sum.split\<close>)

lemma new_coordinator_inv: "coordinator_inv new_coordinator"
  by (simp add: coordinator_inv_def new_coordinator_def manager_inv_def new_manager_def queue_inv_def new_queue_def)

interpretation coordinator: guarded_component coordinator_step new_coordinator coordinator_inv
  by unfold_locales (simp_all add: new_coordinator_inv coordinator_step_inv)

section \<open>Settling another client's pump\<close>

lemma settle_spares:
  assumes "clients m i = Some c" and "i \<notin> set (congested_clients r)" and "i \<notin> set (closed_clients r)"
  shows "clients (settle_broadcast_result r now order m) i = Some (c\<lparr>congested_since := None\<rparr>)"
proof -
  let ?m1 = "snd (evict_stalled now order (record_congestion r now m))"
  have m1: "clients ?m1 i = Some (c\<lparr>congested_since := None\<rparr>)"
    using assms(1,2) by (simp add: evict_stalled_def record_congestion_def is_stalled_def Let_def)
  have "clients (fold (\<lambda>j m. snd (unregister_client j m)) js m) i = clients m i" if "i \<notin> set js" for js m
    using that by (induction js arbitrary: m) (simp_all add: unregister_client_def Let_def split: option.split)
  then show ?thesis using assms(3) m1 by (simp add: settle_broadcast_result_def)
qed

lemma pump_client_other:
  assumes "i \<noteq> j"
  shows "clients (pm_manager (pump_client ts cx policy_on j m seq)) i = clients m i
    \<and> i \<notin> set (congested_clients (pm_result (pump_client ts cx policy_on j m seq)))
    \<and> i \<notin> set (closed_clients (pm_result (pump_client ts cx policy_on j m seq)))"
proof (cases "clients m j")
  case (Some c)
  have "memo_ok nta (pm_drop_sets (initial_pump m seq))" "clients (pm_manager (initial_pump m seq)) j = Some c" for nta
    using Some by (simp_all add: initial_pump_def memo_ok_def)
  from pump_one_spec [OF this refl refl, of cx ts policy_on] show ?thesis
    using assms by (auto simp: pump_client_eq initial_pump_def empty_result_def with_client_def
        deliver_binary_def split: option.splits send_outcome.splits)
qed (auto simp: pump_client_eq pump_one_none initial_pump_def empty_result_def)

section \<open>Counting registrations\<close>

text \<open>How many clients a history has registered; nothing else moves the counter.\<close>

definition registrations :: "coordinator_op list \<Rightarrow> nat" where
  "registrations ops = length (filter (\<lambda>x. \<exists>ev stall. x = Register ev stall) ops)"

abbreviation registered :: "coordinator \<Rightarrow> nat" where
  "registered co \<equiv> total_registrations (connection_stats co)"

lemma registered_stays:
  "co_evolves co co' \<Longrightarrow> registered co' = registered co"
  by (simp add: co_evolves_def)

lemma registered_pump [simp]: "registered (pump ev only co) = registered co"
  by (rule registered_stays [OF co_evolves_pump])

lemma registered_settle [simp]: "registered (settle_result ev r co) = registered co"
  by (rule registered_stays [OF co_evolves_settle])

lemma registered_send [simp]: "registered (send_voice ev v co) = registered co"
  by (simp add: send_voice_def Let_def)

lemma registered_voice [simp]: "registered (fold (send_voice ev) vs co) = registered co"
  by (induction vs arbitrary: co) simp_all

lemma registered_step:
  "registered (coordinator_step x co) = registered co + registrations [x]"
  by (cases x) (simp_all add: registrations_def handle_register_def handle_unregister_def handle_publish_positions_def
      handle_configure_stream_def handle_node_type_arrays_def handle_authenticate_def handle_update_filter_def
      filter_recomputed_def stall_sweep_def stream_tick_def handle_ack_def handle_agent_actions_def handle_broadcast_message_def
      handle_voice_def flush_voice_def queue_voice_data_def queue_sweep_def buffer_to_disconnected_def
      replay_buffered_messages_def update_connection_stats_def case_prod_unfold Let_def split: option.split sum.split)

lemma registered_history: "registered (fold coordinator_step ops new_coordinator) = registrations ops"
  by (induction ops rule: rev_induct)
    (simp_all add: registered_step, simp_all add: registrations_def new_coordinator_def)

section \<open>An environment for the witnesses\<close>

definition example_env :: env where
  "example_env = \<lparr>ev_try_send = (\<lambda>_ _. SendFull), ev_clients = (\<lambda>_. [1, 2]), ev_nodes = (\<lambda>_. [5]),
     ev_policy = True, ev_now = 7, ev_settle_now = 8\<rparr>"

section \<open>Properties\<close>

text \<open>
  C14. The coordinator keeps its books through any history of registrations, disconnects,
  published positions, acknowledgements, broadcasts, logins, filter changes and timer ticks:
  the connection counters agree with the table of clients and with the number of registrations
  so far, the next client gets the next number as its id, no stream has more than eight chunks in
  flight, a client that went away is not connected, its buffer holds at most 64 messages, and no
  voice data is left queued.
\<close>
theorem coordinator_history_invariant:
  assumes "co = fold coordinator_step ops new_coordinator"
  shows "active_connections (manager co) = card (dom (clients (manager co)))
    \<and> total_registrations (connection_stats co) = total_connections (manager co)
    \<and> total_connections (manager co) = registrations ops
    \<and> (\<forall>ev stall. fst (handle_register ev stall co) = registrations ops + 1)
    \<and> (\<forall>i c. clients (manager co) i = Some c \<longrightarrow>
         1 \<le> i \<and> i \<le> total_connections (manager co) \<and> client_id c = i \<and> length (in_flight (stream c)) \<le> 8)
    \<and> dom (buffers (co_queue co)) \<inter> dom (clients (manager co)) = {}
    \<and> (\<forall>i b. buffers (co_queue co) i = Some b \<longrightarrow> length b \<le> 64)
    \<and> pending_voice_data co = [] \<and> voice_data_queued_bytes co = 0"
proof -
  have inv: "coordinator_inv co" unfolding assms by (rule coordinator.history_inv)
  have reg: "registered co = registrations ops" unfolding assms by (rule registered_history)
  have "fst (handle_register ev stall co) = next_id (manager co)" for ev stall
    by (simp add: handle_register_def case_prod_unfold register_dom(2) Let_def)
  then show ?thesis
    using inv reg
    unfolding coordinator_inv_def manager_inv_def queue_inv_def stream_inv_def IN_FLIGHT_HISTORY_def
    by (auto simp: less_Suc_eq_le)
qed

theorem coordinator_history_invariant_witness:
  "let co = fold coordinator_step [Register example_env 5, Register example_env 5, StreamTick example_env,
              Unregister example_env 1, BroadcastText example_env ''x''] new_coordinator
   in active_connections (manager co) = card (dom (clients (manager co))) \<and> fst (handle_register example_env 5 co) = 3"
proof -
  let ?ops = "[Register example_env 5, Register example_env 5, StreamTick example_env, Unregister example_env 1,
      BroadcastText example_env ''x'']"
  note books = coordinator_history_invariant [OF refl, of ?ops]
  have "fst (handle_register example_env 5 (fold coordinator_step ?ops new_coordinator)) = registrations ?ops + 1"
    by (rule books [THEN conjunct2, THEN conjunct2, THEN conjunct2, THEN conjunct1, rule_format])
  also have "\<dots> = 3" by (simp add: registrations_def)
  finally show ?thesis unfolding Let_def by (intro conjI books [THEN conjunct1])
qed

text \<open>
  Messages buffered for a client that went away are never replayed: whatever the history, no
  registration replays anything, because a registration always gets a fresh id and the queue is
  looked up by id. The queue is documented to close the gap between disconnect and reconnect.
\<close>
theorem buffered_messages_are_never_replayed:
  "replayed (fold coordinator_step ops new_coordinator) = []
   \<and> fst (handle_register ev stall (fold coordinator_step ops new_coordinator))
       \<notin> dom (buffers (co_queue (fold coordinator_step ops new_coordinator)))"
proof -
  have "coordinator_inv (fold coordinator_step ops new_coordinator)" by (rule coordinator.history_inv)
  then show ?thesis
    by (auto simp: coordinator_inv_def queue_inv_def handle_register_def case_prod_unfold register_dom(2) Let_def)
qed

text \<open>
  A pump for one client forgives every other client that is stalled. When the coordinator
  pumps client \<open>j\<close> (after each of its acknowledgements), any other client \<open>i\<close> stays
  registered and its congestion clock is cleared, however long its mailbox has been full,
  because a client that was not tried counts as not congested. One active client so keeps a
  client that never reads from being evicted between two timer sweeps.
\<close>
theorem pumping_one_client_forgives_the_others:
  assumes "i \<noteq> j" and "clients (manager co) i = Some c"
    and "ev_nodes ev (dom (position_cache co)) \<noteq> []" and "co' = pump ev (Some j) co"
  shows "clients (manager co') i = Some (c\<lparr>congested_since := None\<rparr>)"
  using assms(1-3) pump_client_other [OF assms(1)]
  unfolding assms(4) pump_def
  by (simp add: Let_def pump_context_of_def settle_result_def settle_spares)

theorem pumping_one_client_forgives_the_others_witness:
  "let m = with_client 1 (congested_since_update (\<lambda>_. Some 0)) (snd (register_client 5 0 (snd (register_client 5 0 new_manager))))
   in map_option congested_since (clients (manager (pump example_env (Some 2) (new_coordinator\<lparr>manager := m\<rparr>))) 1)
      = Some None"
proof -
  let ?m = "with_client 1 (congested_since_update (\<lambda>_. Some 0))
      (snd (register_client 5 0 (snd (register_client 5 0 new_manager))))"
  obtain c where c: "clients (manager (new_coordinator\<lparr>manager := ?m\<rparr>)) 1 = Some c"
    by (simp add: with_client_def register_client_def new_manager_def Let_def)
  have "(1 :: nat) \<noteq> 2" "ev_nodes example_env (dom (position_cache (new_coordinator\<lparr>manager := ?m\<rparr>))) \<noteq> []"
    by (simp_all add: example_env_def)
  from pumping_one_client_forgives_the_others [OF this(1) c this(2) refl] show ?thesis
    unfolding Let_def by simp
qed

end
