(* ===== verification/Xr_Client.thy ===== *)
theory Xr_Client
  imports Binary_Protocol "HOL-Library.Product_Lexorder"
begin

unbundle bit_operations_syntax

text \<open>
  \<open>xr-client/rust/src/binary_protocol.rs\<close>: the headset's side of the position stream. The
  decoder of position frames with its sanity filter, the freshness gate that orders frames by
  their broadcast sequence, the acknowledgement of an applied chunk, the tolerant parser of
  agent-action batches and the class-mask selections of the volumes.

  The client declares the wire constants for itself, with the values of the wire crate; the
  model shares the names of theories \<open>Wire\<close> and \<open>Binary_Protocol\<close>. \<open>serde_json\<close> is a
  parameter: a record of the functions of it that the parser of an action payload calls.
  \<open>Vec::len\<close> and the counters are 64-bit.
\<close>

section \<open>Position frames\<close>

datatype xr_decode_error = TooShort nat nat | BadVersion u8 u8 | Misaligned nat

datatype node_kind = KindAgent | KindKnowledge | KindOntologyClass | KindOntologyIndividual
  | KindOntologyProperty | KindPlain

definition WORLD_LIMIT_M :: f32 where "WORLD_LIMIT_M = 0x461C4000"
definition HEADER_BYTES :: nat where "HEADER_BYTES = 1"

definition from_wire_id :: "u32 \<Rightarrow> node_kind" where
  "from_wire_id raw =
     (if raw AND AGENT_NODE_FLAG \<noteq> 0 then KindAgent
      else if raw AND KNOWLEDGE_NODE_FLAG \<noteq> 0 then KindKnowledge
      else let t = raw AND ONTOLOGY_TYPE_MASK
           in if t = ONTOLOGY_CLASS_FLAG then KindOntologyClass
              else if t = ONTOLOGY_INDIVIDUAL_FLAG then KindOntologyIndividual
              else if t = ONTOLOGY_PROPERTY_FLAG then KindOntologyProperty
              else KindPlain)"

fun node_class_code :: "node_kind \<Rightarrow> u8" where
  "node_class_code KindKnowledge = 0"
| "node_class_code KindOntologyClass = 1"
| "node_class_code KindOntologyIndividual = 1"
| "node_class_code KindOntologyProperty = 1"
| "node_class_code KindAgent = 2"
| "node_class_code KindPlain = 3"

record node_update =
  nu_node_id :: u32
  nu_kind :: node_kind
  nu_position :: vec3
  nu_velocity :: vec3
  nu_sssp_distance :: f32
  nu_sssp_parent :: u32
  nu_cluster_id :: u32
  nu_anomaly :: f32
  nu_community_id :: u32
  nu_centrality :: f32

definition f32_is_finite :: "f32 \<Rightarrow> bool" where
  "f32_is_finite x = (f32_exp x \<noteq> 255)"

definition f32_abs :: "f32 \<Rightarrow> f32" where
  "f32_abs x = take_bit 31 x"

definition vec3_list :: "vec3 \<Rightarrow> f32 list" where
  "vec3_list v = [fst v, fst (snd v), snd (snd v)]"

definition sanitize_node_update :: "node_update \<Rightarrow> node_update option" where
  "sanitize_node_update u =
     (if \<not> list_all f32_is_finite (vec3_list (nu_position u) @ vec3_list (nu_velocity u)) then None
      else if list_ex (\<lambda>c. f32_lt WORLD_LIMIT_M (f32_abs c)) (vec3_list (nu_position u)) then None
      else let u1 = (if f32_is_finite (nu_anomaly u) then u else u\<lparr>nu_anomaly := 0\<rparr>);
               u2 = (if f32_is_finite (nu_centrality u1) then u1 else u1\<lparr>nu_centrality := 0\<rparr>);
               u3 = (if f32_is_finite (nu_sssp_distance u2) then u2 else u2\<lparr>nu_sssp_distance := 0\<rparr>)
           in Some u3)"

definition parse_node_record :: "bytes \<Rightarrow> node_update" where
  "parse_node_record bs =
     (let raw_id = rd32 bs 0
      in \<lparr>nu_node_id = raw_id AND NODE_ID_MASK, nu_kind = from_wire_id raw_id,
          nu_position = rd_vec3 bs 4, nu_velocity = rd_vec3 bs 16,
          nu_sssp_distance = rd32 bs 28, nu_sssp_parent = rd32 bs 32, nu_cluster_id = rd32 bs 36,
          nu_anomaly = rd32 bs 40, nu_community_id = rd32 bs 44, nu_centrality = rd32 bs 48\<rparr>)"

definition decode_position_frame_with_sequence ::
  "bytes \<Rightarrow> xr_decode_error + u64 option \<times> node_update list" where
  "decode_position_frame_with_sequence bs =
     (case bs of
        [] \<Rightarrow> Err (TooShort HEADER_BYTES (length bs))
      | version # _ \<Rightarrow>
          let head = (if version = PROTOCOL_V3 then Ok (HEADER_BYTES, None)
                      else if version = PROTOCOL_V5 then
                        (let need = HEADER_BYTES + V5_SEQ_BYTES
                         in if length bs < need then Err (TooShort need (length bs))
                            else Ok (need, Some (le_word (take V5_SEQ_BYTES (drop HEADER_BYTES bs)))))
                      else Err (BadVersion version PROTOCOL_V3))
          in case head of
               Inl e \<Rightarrow> Err e
             | Inr (body_offset, sequence) \<Rightarrow>
                 let body = drop body_offset bs
                 in if length body mod NODE_RECORD_BYTES \<noteq> 0 then Err (Misaligned (length body))
                    else Ok (sequence, List.map_filter (\<lambda>c. sanitize_node_update (parse_node_record c))
                               (chunks_exact NODE_RECORD_BYTES body)))"

definition decode_position_frame :: "bytes \<Rightarrow> xr_decode_error + node_update list" where
  "decode_position_frame bs = map_sum id snd (decode_position_frame_with_sequence bs)"

definition frame_version :: "bytes \<Rightarrow> u8 option" where
  "frame_version bs = (case bs of [] \<Rightarrow> None | b # _ \<Rightarrow> Some b)"

text \<open>The calls of the sink, in order; a frame that does not decode is only logged.\<close>

definition ingest_frame :: "bytes \<Rightarrow> (node_update \<Rightarrow> 's \<Rightarrow> 's) \<Rightarrow> 's \<Rightarrow> 's" where
  "ingest_frame frame sink s =
     (case decode_position_frame frame of Inr updates \<Rightarrow> fold sink updates s | Inl _ \<Rightarrow> s)"

section \<open>The freshness gate\<close>

definition encode_broadcast_ack :: "u64 \<Rightarrow> u32 \<Rightarrow> u64 \<Rightarrow> bytes" where
  "encode_broadcast_ack sequence nodes_received timestamp_ms =
     OPCODE_BROADCAST_ACK # u64_le sequence @ u32_le nodes_received @ u64_le timestamp_ms"

datatype freshness =
    Accept u64
  | AcceptUnsequenced
  | AcceptResync u64 "u64 option"
  | RejectDuplicate u64
  | RejectStale u64 u64

definition is_accepted :: "freshness \<Rightarrow> bool" where
  "is_accepted f = (case f of Accept _ \<Rightarrow> True | AcceptUnsequenced \<Rightarrow> True | AcceptResync _ _ \<Rightarrow> True | _ \<Rightarrow> False)"

fun ack_sequence :: "freshness \<Rightarrow> u64 option" where
  "ack_sequence (Accept s) = Some s"
| "ack_sequence (AcceptResync s _) = Some s"
| "ack_sequence AcceptUnsequenced = None"
| "ack_sequence (RejectDuplicate _) = None"
| "ack_sequence (RejectStale _ _) = None"

record freshness_stats =
  fs_accepted :: u64
  fs_accepted_unsequenced :: u64
  fs_resyncs :: u64
  fs_rejected_duplicate :: u64
  fs_rejected_stale :: u64

record freshness_gate =
  watermark :: "u64 option"
  awaiting_resync :: bool
  gate_stats :: freshness_stats

definition new_gate :: freshness_gate where
  "new_gate = \<lparr>watermark = None, awaiting_resync = False,
     gate_stats = \<lparr>fs_accepted = 0, fs_accepted_unsequenced = 0, fs_resyncs = 0,
                   fs_rejected_duplicate = 0, fs_rejected_stale = 0\<rparr>\<rparr>"

definition reconnect :: "freshness_gate \<Rightarrow> freshness_gate" where
  "reconnect g = g\<lparr>awaiting_resync := True\<rparr>"

definition count_verdict :: "(freshness_stats \<Rightarrow> freshness_stats) \<Rightarrow> freshness_gate \<Rightarrow> freshness_gate" where
  "count_verdict f g = g\<lparr>gate_stats := f (gate_stats g)\<rparr>"

definition admit :: "u64 option \<Rightarrow> freshness_gate \<Rightarrow> freshness \<times> freshness_gate" where
  "admit sequence g =
     (case sequence of
        None \<Rightarrow> (AcceptUnsequenced, count_verdict (fs_accepted_unsequenced_update (\<lambda>n. n + 1)) g)
      | Some s \<Rightarrow>
          if awaiting_resync g
          then (AcceptResync s (watermark g),
                count_verdict (fs_resyncs_update (\<lambda>n. n + 1)) (g\<lparr>watermark := Some s, awaiting_resync := False\<rparr>))
          else case watermark g of
                 None \<Rightarrow> (Accept s, count_verdict (fs_accepted_update (\<lambda>n. n + 1)) (g\<lparr>watermark := Some s\<rparr>))
               | Some wm \<Rightarrow>
                   if s > wm then (Accept s, count_verdict (fs_accepted_update (\<lambda>n. n + 1)) (g\<lparr>watermark := Some s\<rparr>))
                   else if s = wm then (RejectDuplicate s, count_verdict (fs_rejected_duplicate_update (\<lambda>n. n + 1)) g)
                   else (RejectStale s wm, count_verdict (fs_rejected_stale_update (\<lambda>n. n + 1)) g))"

definition admit_frame ::
  "bytes \<Rightarrow> freshness_gate \<Rightarrow> (xr_decode_error + freshness \<times> node_update list option) \<times> freshness_gate" where
  "admit_frame bs g =
     (case decode_position_frame_with_sequence bs of
        Inl e \<Rightarrow> (Err e, g)
      | Inr (sequence, updates) \<Rightarrow>
          (let (verdict, g1) = admit sequence g
           in (Ok (verdict, if is_accepted verdict then Some updates else None), g1)))"

definition admit_and_ack ::
  "bytes \<Rightarrow> u64 \<Rightarrow> freshness_gate
     \<Rightarrow> (xr_decode_error + freshness \<times> node_update list option \<times> bytes option) \<times> freshness_gate" where
  "admit_and_ack bs now_ms g =
     (case admit_frame bs g of
        (Inl e, g1) \<Rightarrow> (Err e, g1)
      | (Inr (verdict, updates), g1) \<Rightarrow>
          (Ok (verdict, updates,
               case (updates, ack_sequence verdict) of
                 (Some u, Some s) \<Rightarrow> Some (encode_broadcast_ack s (word_of_nat (length u)) now_ms)
               | _ \<Rightarrow> None), g1))"

text \<open>
  The position path of \<open>emit_frame\<close>. Of the render store the model keeps the target position of
  each node, which is what \<open>upsert\<close> writes from a frame; a frame that is refused or does not
  decode changes nothing but the gate's counters, and \<open>0x23\<close> frames go to the agent registry.
\<close>

definition upsert_target :: "node_update \<Rightarrow> (u32 \<rightharpoonup> vec3) \<Rightarrow> (u32 \<rightharpoonup> vec3)" where
  "upsert_target u t = t(nu_node_id u \<mapsto> nu_position u)"

definition emit_frame ::
  "bytes \<Rightarrow> u64 \<Rightarrow> freshness_gate \<Rightarrow> (u32 \<rightharpoonup> vec3) \<Rightarrow> freshness_gate \<times> (u32 \<rightharpoonup> vec3) \<times> bytes option" where
  "emit_frame bs now_ms g t =
     (if frame_version bs = Some OPCODE_AGENT_ACTION then (g, t, None)
      else case admit_and_ack bs now_ms g of
             (Inr (_, Some updates, ack), g1) \<Rightarrow> (g1, fold upsert_target updates t, ack)
           | (_, g1) \<Rightarrow> (g1, t, None))"

section \<open>Agent-action batches\<close>

record 'v json_api =
  json_parse :: "bytes \<Rightarrow> 'v option"
  json_get :: "'v \<Rightarrow> string \<Rightarrow> 'v option"
  json_as_str :: "'v \<Rightarrow> string option"
  json_is_object :: "'v \<Rightarrow> bool"

record agent_action =
  aa_source_agent_id :: u32
  aa_target_node_id :: u32
  aa_action_type :: u8
  aa_timestamp :: u32
  aa_task :: string
  aa_state :: "string option"
  aa_name :: string

definition extract_action_state :: "'v json_api \<Rightarrow> bytes \<Rightarrow> string option \<times> string" where
  "extract_action_state js pl =
     (case json_parse js pl of
        None \<Rightarrow> (None, [])
      | Some val \<Rightarrow>
          (Option.bind (json_get js val ''state'') (json_as_str js),
           case Option.bind (json_get js val ''name'') (json_as_str js) of None \<Rightarrow> [] | Some n \<Rightarrow> n))"

definition extract_action_task :: "'v json_api \<Rightarrow> bytes \<Rightarrow> string" where
  "extract_action_task js pl =
     (if pl = [] \<or> \<not> utf8_valid pl then []
      else let trimmed = trim (string_of_bytes pl)
           in if trimmed = [] then []
              else case json_parse js (as_bytes trimmed) of
                     None \<Rightarrow> trimmed
                   | Some val \<Rightarrow>
                       (case Option.bind (json_get js val ''intent'') (json_as_str js) of
                          Some intent \<Rightarrow> intent
                        | None \<Rightarrow> (case json_as_str js val of
                                     Some s \<Rightarrow> s
                                   | None \<Rightarrow> if json_is_object js val then [] else trimmed)))"

definition EV_HEADER :: nat where "EV_HEADER = 15"

definition parse_action :: "'v json_api \<Rightarrow> bytes \<Rightarrow> agent_action" where
  "parse_action js ev =
     (let (state, name) = extract_action_state js (drop EV_HEADER ev)
      in \<lparr>aa_source_agent_id = rd32 ev 0, aa_target_node_id = rd32 ev 4, aa_action_type = ev ! 8,
          aa_timestamp = rd32 ev 9, aa_task = extract_action_task js (drop EV_HEADER ev),
          aa_state = state, aa_name = name\<rparr>)"

fun decode_action_loop :: "'v json_api \<Rightarrow> nat \<Rightarrow> bytes \<Rightarrow> agent_action list" where
  "decode_action_loop js 0 rest = []"
| "decode_action_loop js (Suc n) rest =
     (if length rest < 2 then []
      else let ev_len = unat (le_word (take 2 rest) :: u16); rest1 = drop 2 rest
           in if length rest1 < ev_len \<or> ev_len < EV_HEADER then []
              else parse_action js (take ev_len rest1) # decode_action_loop js n (drop ev_len rest1))"

definition decode_agent_action_frame :: "'v json_api \<Rightarrow> bytes \<Rightarrow> agent_action list option" where
  "decode_agent_action_frame js bs =
     (if frame_version bs \<noteq> Some OPCODE_AGENT_ACTION then None
      else if length bs < 3 then Some []
      else Some (decode_action_loop js (unat (le_word (take 2 (drop 1 bs)) :: u16)) (drop 3 bs)))"

section \<open>Class masks\<close>

text \<open>An \<open>i32\<close> and an \<open>i64\<close> are their bit patterns; signs are read by \<open>sint\<close>.\<close>

type_synonym i32 = "32 word"
type_synonym i64 = "64 word"

definition class_in_mask :: "i64 \<Rightarrow> (u32 \<Rightarrow> u8 option) \<Rightarrow> u32 \<Rightarrow> bool" where
  "class_in_mask cmask class_of i =
     (case class_of i of None \<Rightarrow> False | Some c \<Rightarrow> c < 63 \<and> cmask AND push_bit (unat c) 1 \<noteq> 0)"

definition ids_for_class_mask :: "u32 list \<Rightarrow> i64 \<Rightarrow> (u32 \<Rightarrow> u8 option) \<Rightarrow> i32 list" where
  "ids_for_class_mask ids cmask class_of =
     (if sint cmask \<le> 0 then [] else filter (class_in_mask cmask class_of) ids)"

fun flat_pairs :: "'a list \<Rightarrow> ('a \<times> 'a) list" where
  "flat_pairs (a # b # r) = (a, b) # flat_pairs r"
| "flat_pairs _ = []"

fun neighbours_loop :: "i32 \<Rightarrow> nat \<Rightarrow> (i32 \<times> i32) list \<Rightarrow> i32 list \<Rightarrow> i32 list" where
  "neighbours_loop i mx [] out = out"
| "neighbours_loop i mx ((a, b) # ps) out =
     (case (if a = i then Some b else if b = i then Some a else None) of
        None \<Rightarrow> neighbours_loop i mx ps out
      | Some other \<Rightarrow>
          if other \<noteq> i \<and> other \<notin> set out
          then let out1 = out @ [other]
               in if length out1 \<ge> mx then out1 else neighbours_loop i mx ps out1
          else neighbours_loop i mx ps out)"

definition neighbours_in :: "i32 list \<Rightarrow> i64 \<Rightarrow> nat \<Rightarrow> i32 list" where
  "neighbours_in flat i mx =
     (if sint i < 0 \<or> mx = 0 then [] else neighbours_loop (ucast i) mx (flat_pairs flat) [])"

definition inside_mask :: "i64 \<Rightarrow> (u32 \<Rightarrow> u8 option) \<Rightarrow> i32 \<Rightarrow> bool" where
  "inside_mask cmask class_of i = (0 \<le> sint i \<and> class_in_mask cmask class_of i)"

definition edge_count_for_class_mask :: "i32 list \<Rightarrow> i64 \<Rightarrow> (u32 \<Rightarrow> u8 option) \<Rightarrow> nat" where
  "edge_count_for_class_mask flat cmask class_of =
     (if sint cmask \<le> 0 then 0
      else length (filter (\<lambda>(a, b). inside_mask cmask class_of a \<and> inside_mask cmask class_of b) (flat_pairs flat)))"

definition edge_weight :: "f32 list \<Rightarrow> nat \<Rightarrow> f32" where
  "edge_weight weights i =
     (if i < length weights \<and> f32_is_finite (weights ! i) then weights ! i else 0x3F800000)"

text \<open>Heaviest first; the weights are finite, so \<open>partial_cmp\<close> orders them all.\<close>

definition edges_for_class_mask ::
  "i32 list \<Rightarrow> f32 list \<Rightarrow> i64 \<Rightarrow> nat \<Rightarrow> (u32 \<Rightarrow> u8 option) \<Rightarrow> i32 list" where
  "edges_for_class_mask flat weights cmask mx class_of =
     (if sint cmask \<le> 0 \<or> mx = 0 then []
      else let ps = flat_pairs flat;
               keep = map (\<lambda>(i, _). (i, edge_weight weights i))
                        (filter (\<lambda>(_, a, b). inside_mask cmask class_of a \<and> inside_mask cmask class_of b)
                           (enumerate 0 ps));
               ordered = sort_key (\<lambda>(i, w). (- f32_scaled w, i)) keep
           in concat (map (\<lambda>(i, _). [flat ! (2 * i), flat ! (2 * i + 1)]) (take mx ordered)))"

section \<open>The client reads the frozen wire\<close>

definition sane_node :: "binary_node_data \<Rightarrow> bool" where
  "sane_node p \<longleftrightarrow> list_all f32_is_finite (vec3_list (node_pos p) @ vec3_list (node_vel p))
     \<and> \<not> list_ex (\<lambda>c. f32_lt WORLD_LIMIT_M (f32_abs c)) (vec3_list (node_pos p))"

definition node_of_update :: "node_update \<Rightarrow> u32 \<times> binary_node_data" where
  "node_of_update u = (nu_node_id u,
     \<lparr>node_id = nu_node_id u, node_pos = nu_position u, node_vel = nu_velocity u\<rparr>)"

lemma sanitize_node:
  "map_option node_of_update (sanitize_node_update u)
     = (if sane_node (snd (node_of_update u)) then Some (node_of_update u) else None)"
  by (simp add: sanitize_node_update_def sane_node_def node_of_update_def Let_def)

lemma parse_as_server: "node_of_update (parse_node_record c) = decode_chunk c"
  by (simp add: node_of_update_def parse_node_record_def decode_chunk_def from_wire_id_v2_def
      get_actual_node_id_def Let_def)

lemma map_filter_sanitized:
  "map node_of_update (List.map_filter (\<lambda>c. sanitize_node_update (parse_node_record c)) cs)
     = filter (\<lambda>n. sane_node (snd n)) (map decode_chunk cs)"
proof (induction cs)
  case (Cons c cs)
  have "map_option node_of_update (sanitize_node_update (parse_node_record c))
      = (if sane_node (snd (decode_chunk c)) then Some (decode_chunk c) else None)"
    by (simp add: sanitize_node parse_as_server)
  with Cons show ?case
    by (cases "sanitize_node_update (parse_node_record c)") (auto simp: List.map_filter_simps split: if_splits)
qed (simp add: List.map_filter_simps)

lemma client_decodes_v5_frame:
  "decode_position_frame_with_sequence (v5_frame sq rs)
     = Ok (Some sq, List.map_filter (\<lambda>r. sanitize_node_update (parse_node_record (to_bytes r))) rs)"
  by (simp add: decode_position_frame_with_sequence_def v5_frame_def wire_consts HEADER_BYTES_def Let_def
      record_codec.chunks_concat_enc List.map_filter_def comp_def filter_map)

lemma server_body:
  assumes "length body \<le> 52 * MAX_NODE_COUNT"
  shows "decode_node_data_v3 body = (if length body mod 52 \<noteq> 0 then Err (MisalignedV3 (length body))
     else Ok (map decode_chunk (chunks_exact 52 body)))"
  using assms by (auto simp: decode_node_data_v3_def WIRE_V3_ITEM_SIZE_def Let_def)

text \<open>
  C26. The two decoders of the position stream agree: on every non-empty input up to the server's
  node limit, the headset accepts a frame exactly when the server's decoder does, and reads from
  it the same nodes in the same order, less the records whose position or velocity is not finite
  or whose position is beyond ten kilometres.
\<close>
theorem client_and_server_decode_alike:
  assumes "bs \<noteq> []" and "length bs \<le> 52 * MAX_NODE_COUNT + 1"
  shows "is_ok (decode_position_frame bs) = is_ok (decode_node_data bs)
    \<and> (\<forall>us nodes. decode_position_frame bs = Ok us \<longrightarrow> decode_node_data bs = Ok nodes \<longrightarrow>
         map node_of_update us = filter (\<lambda>n. sane_node (snd n)) nodes)"
proof -
  obtain v pl where bs: "bs = v # pl" using assms(1) by (cases bs) auto
  have small: "\<not> MAX_PAYLOAD_SIZE < length bs" and "length pl \<le> 52 * MAX_NODE_COUNT"
    using assms(2) by (simp_all add: bs MAX_PAYLOAD_SIZE_def MAX_NODE_COUNT_def)
  then have v3: "decode_node_data_v3 pl = (if length pl mod 52 \<noteq> 0 then Err (MisalignedV3 (length pl))
       else Ok (map decode_chunk (chunks_exact 52 pl)))"
    and v5: "decode_node_data_v3 (drop 8 pl) = (if length (drop 8 pl) mod 52 \<noteq> 0
       then Err (MisalignedV3 (length (drop 8 pl))) else Ok (map decode_chunk (chunks_exact 52 (drop 8 pl))))"
    by (intro server_body; simp)+
  show ?thesis
    using small v3 v5
    by (auto simp: bs decode_position_frame_def decode_position_frame_with_sequence_def decode_node_data_def
        HEADER_BYTES_def wire_consts WIRE_V5_SEQ_SIZE_def is_ok_def Let_def map_filter_sanitized)
qed

theorem client_and_server_decode_alike_witness:
  "is_ok (decode_position_frame (v3_frame [plain_record 7 (0x3F800000, 0, 0)]))
     = is_ok (decode_node_data (v3_frame [plain_record 7 (0x3F800000, 0, 0)]))"
  using client_and_server_decode_alike [of "v3_frame [plain_record 7 (0x3F800000, 0, 0)]"]
  by (simp add: v3_frame_def MAX_NODE_COUNT_def)

section \<open>The gate over one connection\<close>

primrec verdicts :: "u64 option list \<Rightarrow> freshness_gate \<Rightarrow> freshness list" where
  "verdicts [] g = []"
| "verdicts (q # qs) g = fst (admit q g) # verdicts qs (snd (admit q g))"

abbreviation gate_after :: "u64 option list \<Rightarrow> freshness_gate \<Rightarrow> freshness_gate" where
  "gate_after qs g \<equiv> fold (\<lambda>q g. snd (admit q g)) qs g"

definition gate_floor :: "freshness_gate \<Rightarrow> u64 set" where
  "gate_floor g = (if awaiting_resync g then {} else set_option (watermark g))"

definition total_verdicts :: "freshness_gate \<Rightarrow> u64" where
  "total_verdicts g = (let s = gate_stats g in fs_accepted s + fs_accepted_unsequenced s + fs_resyncs s
     + fs_rejected_duplicate s + fs_rejected_stale s)"

lemmas admit_defs = admit_def count_verdict_def is_accepted_def gate_floor_def

lemma admit_verdict:
  "is_accepted (fst (admit q g)) \<longleftrightarrow> (\<forall>s. q = Some s \<longrightarrow> (\<forall>w \<in> gate_floor g. w < s))"
  "ack_sequence (fst (admit q g)) = (if is_accepted (fst (admit q g)) then q else None)"
  by (auto simp: admit_defs split: option.splits)

lemma admit_floor:
  "(\<forall>w \<in> gate_floor (snd (admit q g)). w < t) \<longleftrightarrow> (\<forall>w \<in> gate_floor g \<union> set_option q. w < t)"
  by (auto simp: admit_defs split: option.splits)

lemma admit_counts: "total_verdicts (snd (admit q g)) = total_verdicts g + 1"
  by (simp add: admit_defs total_verdicts_def Let_def split: option.split)

lemma gate_after_floor:
  "(\<forall>w \<in> gate_floor (gate_after qs g). w < t) \<longleftrightarrow> (\<forall>w \<in> gate_floor g \<union> {s. Some s \<in> set qs}. w < t)"
proof (induction qs arbitrary: g)
  case (Cons q qs)
  have "(\<forall>w \<in> gate_floor (gate_after (q # qs) g). w < t)
      \<longleftrightarrow> (\<forall>w \<in> gate_floor (snd (admit q g)). w < t) \<and> (\<forall>w. Some w \<in> set qs \<longrightarrow> w < t)"
    using Cons.IH by (auto simp: ball_Un)
  also have "\<dots> \<longleftrightarrow> (\<forall>w \<in> gate_floor g \<union> {s. Some s \<in> set (q # qs)}. w < t)"
    unfolding admit_floor by (cases q) auto
  finally show ?case .
qed simp

lemma nth_verdicts: "i < length qs \<Longrightarrow> verdicts qs g ! i = fst (admit (qs ! i) (gate_after (take i qs) g))"
  by (induction qs arbitrary: g i) (auto simp: nth_Cons split: nat.splits)

lemma gate_after_counts: "total_verdicts (gate_after qs g) = total_verdicts g + word_of_nat (length qs)"
  by (induction qs arbitrary: g) (simp_all add: admit_counts)

text \<open>
  C27. The gate orders the frames of a connection exactly: a frame is admitted if and only if it
  carries no sequence, or its sequence is above every sequence seen before it on the connection
  (and above the watermark it started with, unless a reconnect re-based the gate). Exactly the
  admitted sequenced frames are acknowledged, with their own sequence, and every frame is counted
  under one verdict.
\<close>
theorem gate_orders_every_connection:
  assumes "i < length qs"
  shows "is_accepted (verdicts qs g ! i) =
      (\<forall>s. qs ! i = Some s \<longrightarrow> (\<forall>w \<in> gate_floor g \<union> {w. Some w \<in> set (take i qs)}. w < s))
    \<and> ack_sequence (verdicts qs g ! i) = (if is_accepted (verdicts qs g ! i) then qs ! i else None)
    \<and> gate_floor (reconnect g) = {}
    \<and> total_verdicts (gate_after qs g) = total_verdicts g + word_of_nat (length qs)"
  unfolding nth_verdicts [OF assms] admit_verdict gate_after_floor gate_after_counts
  by (simp add: gate_floor_def reconnect_def)

theorem gate_orders_every_connection_witness:
  "is_accepted (verdicts [Some 3, Some 5] new_gate ! 1)
   \<and> \<not> is_accepted (verdicts [Some 5, Some 3] (reconnect new_gate) ! 1)"
proof -
  have "(3 :: u64) < 5" "\<not> (5 :: u64) < 3" by simp_all
  then show ?thesis
    using gate_orders_every_connection [of 1 "[Some 3, Some 5]" new_gate, THEN conjunct1]
      gate_orders_every_connection [of 1 "[Some 5, Some 3]" "reconnect new_gate", THEN conjunct1]
    by (auto simp: gate_floor_def new_gate_def reconnect_def simp del: verdicts.simps)
qed

section \<open>The tolerant parser of action batches\<close>

definition action_of :: "'v json_api \<Rightarrow> action_event \<Rightarrow> agent_action" where
  "action_of js e =
     \<lparr>aa_source_agent_id = source_agent_id e, aa_target_node_id = target_node_id e,
      aa_action_type = action_type e, aa_timestamp = timestamp e,
      aa_task = extract_action_task js (payload e),
      aa_state = fst (extract_action_state js (payload e)),
      aa_name = snd (extract_action_state js (payload e))\<rparr>"

fun whole_events :: "nat \<Rightarrow> action_event list \<Rightarrow> nat" where
  "whole_events k [] = 0"
| "whole_events k (e # es) =
     (let w = length (length_prefixed (to_body e)) in if w \<le> k then Suc (whole_events (k - w) es) else 0)"

lemma parse_action_body: "parse_action js (to_body e) = action_of js e"
  by (simp add: parse_action_def action_of_def to_body_def EV_HEADER_def rd32_def nth_append split: prod.split)

lemma length_length_prefixed [simp]: "length (length_prefixed b) = 2 + length b"
  by (simp add: length_prefixed_def)

abbreviation batch_body :: "action_event list \<Rightarrow> bytes" where
  "batch_body es \<equiv> concat (map (\<lambda>e. length_prefixed (to_body e)) es)"

lemma whole_events_all: "length (batch_body es) \<le> k \<Longrightarrow> whole_events k es = length es"
  by (induction es arbitrary: k) (simp_all add: Let_def)

lemma decode_action_loop_prefix:
  "\<forall>e \<in> set es. event_fits e \<Longrightarrow>
   decode_action_loop js (length es) (take k (batch_body es)) = map (action_of js) (take (whole_events k es) es)"
proof (induction es arbitrary: k)
  case (Cons e es)
  let ?b = "length (to_body e)"
  from Cons.prems have fits: "?b < 2 ^ 16" and tail: "\<forall>e \<in> set es. event_fits e"
    by (simp_all add: event_fits_def)
  have hdr: "15 \<le> ?b" by (simp add: length_to_body)
  consider "k < 2" | "2 \<le> k" "k < 2 + ?b" | "2 + ?b \<le> k" by linarith
  then show ?case
  proof cases
    case 2
    then have "take k (batch_body (e # es)) = u16_le (word_of_nat ?b) @ take (k - 2) (to_body e)"
      by (simp add: length_prefixed_def)
    with 2 fits show ?thesis by (auto simp: unat_u16_of_nat Let_def)
  next
    case 3
    then have "take k (batch_body (e # es)) = u16_le (word_of_nat ?b) @ to_body e @ take (k - (2 + ?b)) (batch_body es)"
      by (simp add: length_prefixed_def)
    with 3 fits hdr Cons.IH [OF tail] show ?thesis
      by (simp add: unat_u16_of_nat Let_def parse_action_body EV_HEADER_def)
  qed (simp add: Let_def)
qed simp

text \<open>
  The headset parses a cut agent-action batch as far as it goes: wherever a batch is cut after
  its count, the result is the events that arrived whole, in order and with their fields intact,
  and the uncut batch gives all of them, for any behaviour of the JSON library. (The server's
  decoder refuses such a batch.)
\<close>
theorem cut_batch_keeps_whole_events:
  assumes "length es < 2 ^ 16" and "\<forall>e \<in> set es. length (to_body e) < 2 ^ 16" and "3 \<le> k"
  shows "decode_agent_action_frame js (take k (agent_action_frame es))
      = Some (map (action_of js) (take (whole_events (k - 3) es) es))
    \<and> decode_agent_action_frame js (agent_action_frame es) = Some (map (action_of js) es)"
proof -
  have "\<exists>j. k = Suc (Suc (Suc j))" using assms(3) by presburger
  then obtain j where k: "k = Suc (Suc (Suc j))" ..
  have fits: "\<forall>e \<in> set es. event_fits e" using assms(2) by (simp add: event_fits_def)
  have cut: "take k (agent_action_frame es) = 0x23 # u16_le (word_of_nat (length es)) @ take j (batch_body es)"
    by (simp add: k agent_action_frame_def OPCODE_AGENT_ACTION_def)
  have dec: "decode_agent_action_frame js (0x23 # u16_le (word_of_nat (length es)) @ take j (batch_body es))
      = Some (map (action_of js) (take (whole_events j es) es))" for j
    using assms(1) decode_action_loop_prefix [OF fits, of js j]
    by (simp add: decode_agent_action_frame_def frame_version_def OPCODE_AGENT_ACTION_def unat_u16_of_nat)
  have full: "agent_action_frame es = 0x23 # u16_le (word_of_nat (length es)) @ take (length (batch_body es)) (batch_body es)"
    by (simp add: agent_action_frame_def OPCODE_AGENT_ACTION_def)
  have "decode_agent_action_frame js (agent_action_frame es) = Some (map (action_of js) es)"
    unfolding full dec by (simp add: whole_events_all)
  then show ?thesis using cut dec [of j] k by simp
qed

theorem cut_batch_keeps_whole_events_witness:
  "let js = \<lparr>json_parse = (\<lambda>_. None), json_get = (\<lambda>_ _. None), json_as_str = (\<lambda>_. None), json_is_object = (\<lambda>_. False)\<rparr>
             :: unit json_api;
       es = [plain_event 1 2 3, plain_event 4 5 6]
   in decode_agent_action_frame js (take 30 (agent_action_frame es)) = Some [action_of js (plain_event 1 2 3)]"
proof -
  let ?js = "\<lparr>json_parse = (\<lambda>_. None), json_get = (\<lambda>_ _. None), json_as_str = (\<lambda>_. None), json_is_object = (\<lambda>_. False)\<rparr>
             :: unit json_api"
  show ?thesis
    unfolding Let_def
    using cut_batch_keeps_whole_events [of "[plain_event 1 2 3, plain_event 4 5 6]" 30 ?js]
    by (simp add: length_to_body plain_event_def Let_def)
qed

section \<open>The edges of a volume\<close>

definition inside_edges :: "i32 list \<Rightarrow> i64 \<Rightarrow> (u32 \<Rightarrow> u8 option) \<Rightarrow> nat list" where
  "inside_edges flat cmask class_of =
     filter (\<lambda>i. inside_mask cmask class_of (flat ! (2 * i)) \<and> inside_mask cmask class_of (flat ! (2 * i + 1)))
       [0..<length flat div 2]"

definition heavier :: "f32 list \<Rightarrow> nat \<Rightarrow> nat \<Rightarrow> bool" where
  "heavier weights i j \<longleftrightarrow> f32_scaled (edge_weight weights i) > f32_scaled (edge_weight weights j)
     \<or> f32_scaled (edge_weight weights i) = f32_scaled (edge_weight weights j) \<and> i < j"

lemma flat_pairs_eq: "flat_pairs flat = map (\<lambda>i. (flat ! (2 * i), flat ! (2 * i + 1))) [0..<length flat div 2]"
proof (induction flat rule: flat_pairs.induct)
  case (1 a b r)
  have "[0..<length (a # b # r) div 2] = 0 # map Suc [0..<length r div 2]"
    by (simp add: upt_conv_Cons map_Suc_upt del: upt_Suc)
  then show ?case using 1 by (simp add: comp_def del: upt_Suc)
qed simp_all

lemma enumerate_pairs:
  "enumerate 0 (flat_pairs flat) = map (\<lambda>i. (i, flat ! (2 * i), flat ! (2 * i + 1))) [0..<length flat div 2]"
  by (simp add: flat_pairs_eq enumerate_map_upt)

lemma edge_count_eq:
  "0 < sint cmask \<Longrightarrow> edge_count_for_class_mask flat cmask class_of = length (inside_edges flat cmask class_of)"
  by (simp add: edge_count_for_class_mask_def flat_pairs_eq inside_edges_def filter_map comp_def)

lemma sort_key_of_map: "sort_key k (map g xs) = map g (sort_key (\<lambda>x. k (g x)) xs)"
proof -
  have ins: "insort_key k (g x) (map g ys) = map g (insort_key (\<lambda>x. k (g x)) x ys)" for x ys
    by (induction ys) simp_all
  show ?thesis by (induction xs) (simp_all add: ins)
qed

lemma edges_for_class_mask_eq:
  assumes "0 < sint cmask" and "mx \<noteq> 0"
  shows "edges_for_class_mask flat weights cmask mx class_of =
    concat (map (\<lambda>i. [flat ! (2 * i), flat ! (2 * i + 1)])
      (take mx (sort_key (\<lambda>i. (- f32_scaled (edge_weight weights i), i)) (inside_edges flat cmask class_of))))"
proof -
  let ?k = "\<lambda>(i :: nat, w). (- f32_scaled w, i)"
  let ?g = "\<lambda>i. (i, edge_weight weights i)"
  have "map (\<lambda>(i, _). ?g i) (filter (\<lambda>(_, a, b). inside_mask cmask class_of a \<and> inside_mask cmask class_of b)
        (enumerate 0 (flat_pairs flat))) = map ?g (inside_edges flat cmask class_of)"
    by (simp add: enumerate_pairs inside_edges_def filter_map comp_def)
  then show ?thesis
    using assms by (simp add: edges_for_class_mask_def Let_def del: map_map) (simp add: sort_key_of_map take_map comp_def)
qed

lemma sorted_heavier:
  assumes "distinct xs"
  shows "sorted_wrt (heavier weights) (sort_key (\<lambda>i. (- f32_scaled (edge_weight weights i), i)) xs)"
proof -
  let ?k = "\<lambda>i. (- f32_scaled (edge_weight weights i), i)"
  have "distinct (map ?k (sort_key ?k xs))"
    using assms by (auto simp: distinct_map intro: inj_onI)
  then have "sorted_wrt (<) (map ?k (sort_key ?k xs))"
    by (simp add: strict_sorted_iff)
  then show ?thesis
    unfolding sorted_wrt_map by (rule sorted_wrt_mono_rel [rotated]) (auto simp: heavier_def less_prod_def)
qed

text \<open>
  A volume draws its heaviest edges: the selection consists of edges whose both ends have a
  class of the mask, without repetition, heaviest first and the earlier one first among equals;
  there are as many of them as the uncapped count allows under the cap, and every inside edge
  that is left out comes after every edge that is drawn. A missing or non-finite weight counts as one.
\<close>
theorem volume_draws_heaviest_edges:
  assumes "0 < sint cmask" and "mx \<noteq> 0"
  shows "\<exists>is. edges_for_class_mask flat weights cmask mx class_of
        = concat (map (\<lambda>i. [flat ! (2 * i), flat ! (2 * i + 1)]) is)
      \<and> distinct is \<and> set is \<subseteq> set (inside_edges flat cmask class_of)
      \<and> length is = min mx (edge_count_for_class_mask flat cmask class_of)
      \<and> sorted_wrt (heavier weights) is
      \<and> (\<forall>i \<in> set is. \<forall>j \<in> set (inside_edges flat cmask class_of) - set is. heavier weights i j)"
proof -
  let ?in = "inside_edges flat cmask class_of"
  define xs where "xs = sort_key (\<lambda>i. (- f32_scaled (edge_weight weights i), i)) ?in"
  have dist: "distinct ?in" by (simp add: inside_edges_def)
  have xs: "set xs = set ?in" "distinct xs" "length xs = length ?in" using dist by (simp_all add: xs_def)
  have "sorted_wrt (heavier weights) (take mx xs @ drop mx xs)"
    using sorted_heavier [OF dist] by (simp add: xs_def)
  then have ord: "sorted_wrt (heavier weights) (take mx xs)"
      "\<forall>i \<in> set (take mx xs). \<forall>j \<in> set (drop mx xs). heavier weights i j"
    by (auto simp only: sorted_wrt_append)
  have "set ?in - set (take mx xs) \<subseteq> set (drop mx xs)"
    unfolding xs(1) [symmetric] by (metis Diff_subset_conv append_take_drop_id set_append subset_refl)
  with ord have "\<forall>i \<in> set (take mx xs). \<forall>j \<in> set ?in - set (take mx xs). heavier weights i j" by blast
  moreover have "length (take mx xs) = min mx (edge_count_for_class_mask flat cmask class_of)"
    using assms(1) xs(3) by (simp add: edge_count_eq)
  moreover have "set (take mx xs) \<subseteq> set ?in" using xs(1) set_take_subset by fastforce
  ultimately show ?thesis
    using ord(1) xs(2) edges_for_class_mask_eq [OF assms, of flat weights class_of]
    by (intro exI [of _ "take mx xs"]) (simp add: xs_def)
qed

theorem volume_draws_heaviest_edges_witness:
  "\<exists>is. edges_for_class_mask [1, 2, 2, 3, 1, 3] [0x3F000000, 0x3F800000, 0x7FC00000] 1 2 (\<lambda>_. Some 0)
        = concat (map (\<lambda>i. [[1, 2, 2, 3, 1, 3] ! (2 * i), [1, 2, 2, 3, 1, 3] ! (2 * i + 1)]) is) \<and> length is = 2"
proof -
  have "edge_count_for_class_mask [1, 2, 2, 3, 1, 3] 1 (\<lambda>_. Some 0) = 3"
    by (simp add: edge_count_for_class_mask_def inside_mask_def class_in_mask_def)
  then show ?thesis
    using volume_draws_heaviest_edges [of 1 2 "[1, 2, 2, 3, 1, 3]" "[0x3F000000, 0x3F800000, 0x7FC00000]"
        "\<lambda>_. Some 0"] by auto
qed

text \<open>The neighbours of a node are listed once, up to the cap, and all of them below it.\<close>

definition all_neighbours :: "i32 \<Rightarrow> (i32 \<times> i32) list \<Rightarrow> i32 list" where
  "all_neighbours i ps = filter (\<lambda>n. n \<noteq> i)
     (List.map_filter (\<lambda>(a, b). if a = i then Some b else if b = i then Some a else None) ps)"

lemma neighbours_loop_exact:
  "distinct out \<Longrightarrow> length out < mx \<Longrightarrow>
     (let r = neighbours_loop i mx ps out
      in distinct r \<and> set r \<subseteq> set out \<union> set (all_neighbours i ps)
         \<and> length r \<le> mx \<and> (length r < mx \<longrightarrow> set r = set out \<union> set (all_neighbours i ps)))"
proof (induction i mx ps out rule: neighbours_loop.induct)
  case (2 i mx a b ps out)
  show ?case
  proof (cases "if a = i then Some b else if b = i then Some a else None")
    case None
    with 2 show ?thesis by (simp add: all_neighbours_def List.map_filter_simps Let_def)
  next
    case (Some other)
    then show ?thesis
      using 2 by (cases "other \<noteq> i \<and> other \<notin> set out"; cases "mx \<le> Suc (length out)")
        (auto simp: all_neighbours_def List.map_filter_simps Let_def)
  qed
qed (simp add: all_neighbours_def List.map_filter_simps)

end
