(* ===== verification/Xr_Session.thy ===== *)
theory Xr_Session
  imports Client_Manager Xr_Client
begin

unbundle bit_operations_syntax

text \<open>
  One headset and the server together: the position pump of \<open>client_coordinator_actor.rs\<close>, the
  socket as two first-in first-out queues of bytes, the receive path of the headset's
  \<open>binary_protocol.rs\<close> and the acknowledgement on its way back. The steps interleave freely: the
  server pumps again after a timeout while older frames are still on the way, mailboxes are full
  or not, filters and identities change, the socket drops and the server restarts.

  The invariant \<open>link_inv\<close> ties the server's belief to what the headset shows; \<open>target_seq\<close> is a
  history variable that records which frame set the position of a node.
\<close>

section \<open>The session\<close>

record session =
  ses_client :: nat
  ses_manager :: client_manager
  ses_seq :: u64
  gate :: freshness_gate
  targets :: "u32 \<rightharpoonup> vec3"
  target_seq :: "u32 \<rightharpoonup> u64"
  down :: "bytes list"
  up :: "bytes list"

datatype session_op =
    ServerPump pump_context bool bool
  | HeadsetReceives u64
  | AckArrives
  | ClientChanges client_filter "string option"
  | Reconnects bool duration instant

definition carried :: "bytes \<Rightarrow> (u64 \<times> u32 list) option" where
  "carried f = (case decode_position_frame_with_sequence f of
     Inr (Some q, us) \<Rightarrow> Some (q, map nu_node_id us) | _ \<Rightarrow> None)"

definition mark_targets :: "bytes \<Rightarrow> (u32 \<rightharpoonup> u64) \<Rightarrow> (u32 \<rightharpoonup> u64)" where
  "mark_targets f ts = (case carried f of None \<Rightarrow> ts | Some (q, ids) \<Rightarrow> (\<lambda>n. if n \<in> set ids then Some q else ts n))"

definition server_ack :: "nat \<Rightarrow> bytes \<Rightarrow> client_manager \<Rightarrow> client_manager" where
  "server_ack i b m = (case decode_message b of
     Inr (BroadcastAck q _ _) \<Rightarrow> snd (manager_acknowledge i q m) | _ \<Rightarrow> m)"

fun session_step :: "session_op \<Rightarrow> session \<Rightarrow> session" where
  "session_step (ServerPump cx policy_on accepted) s =
     (let st = pump_client (\<lambda>_ _. if accepted then SendOk else SendFull) cx policy_on (ses_client s)
                 (ses_manager s) (ses_seq s)
      in s\<lparr>ses_manager := pm_manager st, ses_seq := pm_seq st,
           down := down s @ map snd (delivered (pm_result st))\<rparr>)"
| "session_step (HeadsetReceives now_ms) s =
     (case down s of
        [] \<Rightarrow> s
      | f # fs \<Rightarrow>
          (let (g, t, ack) = emit_frame f now_ms (gate s) (targets s)
           in s\<lparr>gate := g, targets := t, down := fs,
                target_seq := (if ack = None then target_seq s else mark_targets f (target_seq s)),
                up := up s @ (case ack of None \<Rightarrow> [] | Some b \<Rightarrow> [b])\<rparr>))"
| "session_step AckArrives s =
     (case up s of
        [] \<Rightarrow> s
      | b # bs \<Rightarrow> s\<lparr>ses_manager := server_ack (ses_client s) b (ses_manager s), up := bs\<rparr>)"
| "session_step (ClientChanges fl key) s =
     s\<lparr>ses_manager := with_client (ses_client s) (\<lambda>c. c\<lparr>client_filter := fl, pubkey := key\<rparr>) (ses_manager s)\<rparr>"
| "session_step (Reconnects restarted stall now) s =
     (let (i, m) = register_client stall now
                     (if restarted then new_manager else snd (unregister_client (ses_client s) (ses_manager s)))
      in s\<lparr>ses_client := i, ses_manager := m, ses_seq := (if restarted then 0 else ses_seq s),
           gate := reconnect (gate s), down := [], up := []\<rparr>)"

definition first_session :: "duration \<Rightarrow> instant \<Rightarrow> session" where
  "first_session stall now =
     (let (i, m) = register_client stall now new_manager
      in \<lparr>ses_client = i, ses_manager = m, ses_seq = 0, gate = new_gate, targets = Map.empty,
          target_seq = Map.empty, down = [], up = []\<rparr>)"

section \<open>What a frame of the server carries\<close>

definition carries :: "bytes \<Rightarrow> u64 \<times> binary_node_data list \<Rightarrow> bool" where
  "carries f w \<longleftrightarrow> frame_version f = Some PROTOCOL_V5
     \<and> (\<exists>us. decode_position_frame_with_sequence f = Ok (Some (fst w), us)
          \<and> map node_of_update us = map (\<lambda>p. (node_id p, p)) (snd w))"

lemma frame_version_v5: "frame_version (v5_frame q rs) = Some PROTOCOL_V5"
  by (simp add: frame_version_def v5_frame_def)

lemma serialized_carries:
  assumes "\<forall>p \<in> set ps. node_id p AND NODE_ID_MASK = node_id p"
  shows "carries (serialize_positions ps nta q an) (q, filter sane_node ps)"
proof -
  let ?r = "\<lambda>p. to_wire_format_with_data p (flagged_id (class_ids_of nta) (node_id p)) None
                  (lookup_opt an (node_id p AND NODE_ID_MASK))"
  have rec: "decode_chunk (to_bytes (?r p)) = (node_id p, p)" if "p \<in> set ps" for p
    using assms that actual_of_flagged_id [unfolded get_actual_node_id_def]
    by (simp add: decode_chunk_to_bytes to_wire_format_with_data_def to_wire_id_v2_def Let_def)
  have "map node_of_update (List.map_filter (\<lambda>c. sanitize_node_update (parse_node_record c)) (map (to_bytes \<circ> ?r) ps))
      = filter (\<lambda>n. sane_node (snd n)) (map (\<lambda>p. (node_id p, p)) ps)"
    unfolding map_filter_sanitized using rec by (simp cong: map_cong)
  also have "\<dots> = map (\<lambda>p. (node_id p, p)) (filter sane_node ps)" by (simp add: filter_map comp_def)
  finally show ?thesis
    by (simp add: carries_def serialize_eq_v5_frame client_decodes_v5_frame List.map_filter_def comp_def
        filter_map frame_version_v5)
qed

lemma fold_upsert:
  "map node_of_update us = map (\<lambda>p. (node_id p, p)) ps \<Longrightarrow>
     fold upsert_target us t = t ++ map_of (rev (map (\<lambda>p. (node_id p, node_pos p)) ps))"
proof (induction us arbitrary: t ps)
  case (Cons u us)
  then obtain p qs where ps: "ps = p # qs" by (cases ps) auto
  then have upd: "upsert_target u t = t(node_id p \<mapsto> node_pos p)"
    using Cons.prems by (auto simp: node_of_update_def upsert_target_def)
  have "fold upsert_target us (upsert_target u t)
      = upsert_target u t ++ map_of (rev (map (\<lambda>p. (node_id p, node_pos p)) qs))"
    using Cons.prems ps by (intro Cons.IH) simp
  then show ?case by (simp add: ps upd)
qed simp

lemma carried_carries:
  assumes "carries f (q, ps)"
  shows "carried f = Some (q, map node_id ps)"
proof -
  obtain us where us: "decode_position_frame_with_sequence f = Ok (Some q, us)"
      "map node_of_update us = map (\<lambda>p. (node_id p, p)) ps"
    using assms by (auto simp: carries_def)
  have "map nu_node_id us = map fst (map node_of_update us)" by (simp add: node_of_update_def)
  then show ?thesis using us by (simp add: carried_def comp_def)
qed

lemma emit_carried:
  assumes "carries f (q, ps)" and "\<forall>w \<in> gate_floor g. w < q"
  shows "\<exists>g' n. emit_frame f now_ms g t =
      (g', t ++ map_of (rev (map (\<lambda>p. (node_id p, node_pos p)) ps)), Some (broadcast_ack_frame q n now_ms))
    \<and> gate_floor g' = {q}"
proof -
  obtain us where us: "decode_position_frame_with_sequence f = Ok (Some q, us)"
      "map node_of_update us = map (\<lambda>p. (node_id p, p)) ps"
    using assms by (auto simp: carries_def)
  obtain v g' where a: "admit (Some q) g = (v, g')" by (cases "admit (Some q) g")
  have v: "is_accepted v" "ack_sequence v = Some q"
    using admit_verdict [of "Some q" g] assms(2) a by auto
  have "gate_floor g' = {q}"
    using a assms(2) by (auto simp: admit_def gate_floor_def count_verdict_def split: if_splits option.splits)
  moreover have "frame_version f \<noteq> Some OPCODE_AGENT_ACTION"
    using assms(1) by (simp add: carries_def wire_consts)
  ultimately show ?thesis
    using us(1) a v fold_upsert [OF us(2)]
    by (simp add: emit_frame_def admit_and_ack_def admit_frame_def encode_broadcast_ack_def broadcast_ack_frame_def)
qed

section \<open>The invariant of the link\<close>

definition below_all :: "u64 \<Rightarrow> (u64 \<times> 'a) list \<Rightarrow> bool" where
  "below_all q ws \<longleftrightarrow> (\<forall>w \<in> set ws. q < fst w)"

definition shown :: "(u32 \<rightharpoonup> vec3) \<Rightarrow> (u32 \<rightharpoonup> u64) \<Rightarrow> u32 \<Rightarrow> held_node \<Rightarrow> bool" where
  "shown t ts n h \<longleftrightarrow>
     (\<exists>q. ts n = Some q \<and> held_seq h \<le> q \<and> (q = held_seq h \<longrightarrow> t n = Some (held_pos h)))"

definition chunk_of :: "in_flight_chunk \<Rightarrow> u64 \<times> binary_node_data list \<Rightarrow> bool" where
  "chunk_of f w \<longleftrightarrow> chunk_seq f = fst w
     \<and> map (\<lambda>(n, h). (n, held_pos h)) (chunk_held f) = map (\<lambda>p. (node_id p, node_pos p)) (snd w)"

text \<open>
  \<open>ws\<close> are the frames on the way to the headset, \<open>qs\<close> the sequences acknowledged on the way
  back. A chunk in flight is still on the way, or it has arrived and is shown; what is taken as
  held is shown, and older than everything on the way.
\<close>

definition link_inv ::
  "u64 \<Rightarrow> client_stream \<Rightarrow> (u64 \<times> binary_node_data list) list \<Rightarrow> u64 list \<Rightarrow> freshness_gate
     \<Rightarrow> (u32 \<rightharpoonup> vec3) \<Rightarrow> (u32 \<rightharpoonup> u64) \<Rightarrow> bool" where
  "link_inv seq s ws qs g t ts \<longleftrightarrow>
     stream_below seq s \<and> sorted_wrt (<) (map fst ws)
     \<and> (\<forall>w \<in> set ws. fst w \<le> seq \<and> (\<forall>x \<in> gate_floor g. x < fst w) \<and> distinct (map node_id (snd w)))
     \<and> (\<forall>q \<in> set qs. below_all q ws)
     \<and> (\<forall>f \<in> set (in_flight s). (\<forall>(n, h) \<in> set (chunk_held f). held_seq h = chunk_seq f)
          \<and> ((\<exists>w \<in> set ws. chunk_of f w)
             \<or> below_all (chunk_seq f) ws \<and> (\<forall>(n, h) \<in> set (chunk_held f). shown t ts n h)))
     \<and> (\<forall>n h. acked s n = Some h \<longrightarrow> below_all (held_seq h) ws \<and> shown t ts n h)"

lemma link_inv_fresh: "link_inv seq new_stream [] [] g t ts"
  by (simp add: link_inv_def stream_below_def new_stream_def)

lemma link_inv_retain: "link_inv seq s ws qs g t ts \<Longrightarrow> link_inv seq (retain_nodes keep s) ws qs g t ts"
  by (auto simp: link_inv_def retain_nodes_def stream_below_def split: if_splits)

lemma link_inv_seq:
  assumes "link_inv seq s ws qs g t ts" and "seq \<le> seq'"
  shows "link_inv seq' s ws qs g t ts"
proof -
  have "stream_below seq' s" using assms by (fastforce simp: link_inv_def stream_below_def intro: order_trans)
  then show ?thesis using assms by (fastforce simp: link_inv_def intro: order_trans)
qed

lemma u64_less_Suc: "unat (seq :: u64) + 1 < 2 ^ 64 \<Longrightarrow> seq < seq + 1"
  by (simp add: word_less_nat_alt unat_word_ariths)

lemma link_inv_sent:
  assumes inv: "link_inv seq s ws qs g t ts" and "unat seq + 1 < 2 ^ 64" and dist: "distinct (map node_id ps)"
    and floor: "\<forall>x \<in> gate_floor g. x \<le> seq"
    and qs: "\<forall>q \<in> set qs. q \<le> seq"
  shows "link_inv (seq + 1) (record_sent (seq + 1) now ps ak s) (ws @ [(seq + 1, ps)]) qs g t ts"
proof -
  let ?f = "\<lparr>chunk_seq = seq + 1, chunk_sent_at = now,
     chunk_held = map (\<lambda>p. (node_id p, \<lparr>held_pos = node_pos p, held_key = ak (node_id p), held_seq = seq + 1\<rparr>)) ps\<rparr>"
  have lt: "seq < seq + 1" by (rule u64_less_Suc [OF assms(2)])
  have lt': "x \<le> seq \<Longrightarrow> x < seq + 1" for x using lt by simp
  have le: "x \<le> seq \<Longrightarrow> x \<le> seq + 1" for x using lt by simp
  have below: "stream_below seq s" using inv by (simp add: link_inv_def)
  have fl: "set (in_flight (record_sent (seq + 1) now ps ak s)) \<subseteq> insert ?f (set (in_flight s))"
    using set_tl_subset [of "in_flight s"] by (auto simp: record_sent_fields)
  have new: "chunk_of ?f (seq + 1, ps)" by (simp add: chunk_of_def comp_def)
  have old: "below_all q ws \<Longrightarrow> q \<le> seq \<Longrightarrow> below_all q (ws @ [(seq + 1, ps)])" for q
    using lt' by (auto simp: below_all_def)
  have ws: "\<forall>w \<in> set ws. fst w \<le> seq" and srt: "sorted_wrt (<) (map fst ws)"
    using inv by (simp_all add: link_inv_def)
  have "stream_below (seq + 1) (record_sent (seq + 1) now ps ak s)"
    using fl below le by (fastforce simp: stream_below_def record_sent_fields(2))
  moreover have "sorted_wrt (<) (map fst (ws @ [(seq + 1, ps)]))"
    using srt ws lt' by (auto simp: sorted_wrt_append)
  moreover have "\<forall>w \<in> set (ws @ [(seq + 1, ps)]). fst w \<le> seq + 1 \<and> (\<forall>x \<in> gate_floor g. x < fst w) \<and> distinct (map node_id (snd w))"
    using inv dist floor lt' le by (auto simp: link_inv_def)
  moreover have "\<forall>q \<in> set qs. below_all q (ws @ [(seq + 1, ps)])"
    using inv qs old by (auto simp: link_inv_def)
  moreover have "(\<forall>(n, h) \<in> set (chunk_held f). held_seq h = chunk_seq f)
      \<and> ((\<exists>w \<in> set (ws @ [(seq + 1, ps)]). chunk_of f w)
         \<or> below_all (chunk_seq f) (ws @ [(seq + 1, ps)]) \<and> (\<forall>(n, h) \<in> set (chunk_held f). shown t ts n h))"
    if "f \<in> set (in_flight (record_sent (seq + 1) now ps ak s))" for f
  proof (cases "f = ?f")
    case True
    then show ?thesis using new by auto
  next
    case False
    then have "f \<in> set (in_flight s)" using that fl by auto
    then show ?thesis using inv below old [of "chunk_seq f"] by (auto simp: link_inv_def stream_below_def)
  qed
  moreover have "\<forall>n h. acked (record_sent (seq + 1) now ps ak s) n = Some h
      \<longrightarrow> below_all (held_seq h) (ws @ [(seq + 1, ps)]) \<and> shown t ts n h"
    using inv below old by (auto simp: link_inv_def stream_below_def record_sent_fields(2))
  ultimately show ?thesis unfolding link_inv_def by blast
qed

lemma shown_updated:
  assumes "held_seq h < q" and "shown t ts n h" and "\<And>m. m \<notin> set ids \<Longrightarrow> t' m = t m"
  shows "shown t' (\<lambda>m. if m \<in> set ids then Some q else ts m) n h"
  using assms by (auto simp: shown_def)

lemma link_inv_received:
  assumes inv: "link_inv seq s ((q, ps) # ws) qs g t ts" and "gate_floor g' = {q}"
    and t': "t' = t ++ map_of (rev (map (\<lambda>p. (node_id p, node_pos p)) ps))"
    and ts': "ts' = (\<lambda>n. if n \<in> set (map node_id ps) then Some q else ts n)"
  shows "link_inv seq s ws (qs @ [q]) g' t' ts'"
proof -
  have dist: "distinct (map node_id ps)" and q: "below_all q ws"
    using inv by (auto simp: link_inv_def below_all_def)
  have out: "t' m = t m" if "m \<notin> set (map node_id ps)" for m
  proof -
    have "map_of (rev (map (\<lambda>p. (node_id p, node_pos p)) ps)) m = None"
      using that by (force simp: map_of_eq_None_iff)
    then show ?thesis by (simp add: t' map_add_def)
  qed
  have "distinct (map fst (rev (map (\<lambda>p. (node_id p, node_pos p)) ps)))"
    using dist by (simp add: rev_map [symmetric] comp_def)
  then have "p \<in> set ps \<Longrightarrow> map_of (rev (map (\<lambda>p. (node_id p, node_pos p)) ps)) (node_id p) = Some (node_pos p)" for p
    by (intro map_of_is_SomeI) auto
  then have "p \<in> set ps \<Longrightarrow> t' (node_id p) = Some (node_pos p)" for p
    by (simp add: t' map_add_def)
  then have now: "shown t' ts' n h"
    if "chunk_of f (q, ps)" "(n, h) \<in> set (chunk_held f)" "held_seq h = q" for f n h
  proof -
    have "(n, held_pos h) \<in> set (map (\<lambda>(n, h). (n, held_pos h)) (chunk_held f))"
      using that(2) by force
    then have "(n, held_pos h) \<in> set (map (\<lambda>p. (node_id p, node_pos p)) ps)"
      using that(1) by (simp only: chunk_of_def snd_conv)
    then obtain p where p: "p \<in> set ps" "n = node_id p" "held_pos h = node_pos p" by auto
    then have "ts' n = Some q" by (auto simp: ts')
    with p that(3) \<open>\<And>p. p \<in> set ps \<Longrightarrow> t' (node_id p) = Some (node_pos p)\<close> show ?thesis
      by (simp add: shown_def)
  qed
  have later: "shown t' ts' n h" if "shown t ts n h" "below_all (held_seq h) ((q, ps) # ws)" for n h
    using that unfolding ts' by (intro shown_updated [where t = t]) (auto simp: below_all_def out)
  have tail: "below_all x ((q, ps) # ws) \<Longrightarrow> below_all x ws" for x by (simp add: below_all_def)
  have "(\<exists>w \<in> set ws. chunk_of f w)
      \<or> below_all (chunk_seq f) ws \<and> (\<forall>(n, h) \<in> set (chunk_held f). shown t' ts' n h)"
    if "f \<in> set (in_flight s)" for f
  proof -
    have hs: "\<forall>(n, h) \<in> set (chunk_held f). held_seq h = chunk_seq f"
      using inv that by (auto simp: link_inv_def)
    have "(\<exists>w \<in> set ((q, ps) # ws). chunk_of f w)
        \<or> below_all (chunk_seq f) ((q, ps) # ws) \<and> (\<forall>(n, h) \<in> set (chunk_held f). shown t ts n h)"
      using inv that unfolding link_inv_def by blast
    then consider "\<exists>w \<in> set ws. chunk_of f w" | "chunk_of f (q, ps)"
      | "below_all (chunk_seq f) ((q, ps) # ws)" "\<forall>(n, h) \<in> set (chunk_held f). shown t ts n h"
      by force
    then show ?thesis
    proof cases
      case 2
      then have "chunk_seq f = q" by (simp add: chunk_of_def)
      with 2 hs q now show ?thesis by fastforce
    next
      case 3
      with hs later tail show ?thesis by fastforce
    qed simp
  qed
  then show ?thesis
    using inv q assms(2) later tail unfolding link_inv_def by (auto simp: below_all_def)
qed

lemma settle_sources: "settle nodes a n = Some h \<Longrightarrow> a n = Some h \<or> (n, h) \<in> set nodes"
  by (induction nodes a rule: settle.induct) (auto split: option.splits if_splits)

lemma link_inv_acked:
  assumes inv: "link_inv seq s ws (q # qs) g t ts"
  shows "link_inv seq (snd (acknowledge q s)) ws qs g t ts"
proof (cases "remove_chunk q (in_flight s)")
  case None
  then show ?thesis using inv by (simp add: acknowledge_def link_inv_def)
next
  case (Some fg)
  then obtain f gs where fg: "remove_chunk q (in_flight s) = Some (f, gs)" by (cases fg) auto
  note rem = remove_chunk_Some [OF fg]
  let ?s = "snd (acknowledge q s)"
  have s': "set (in_flight ?s) \<subseteq> set (in_flight s)" "acked ?s = settle (chunk_held f) (acked s)"
    using rem by (auto simp: acknowledge_def fg)
  have q: "below_all q ws" using inv by (simp add: link_inv_def)
  then have f: "\<forall>(n, h) \<in> set (chunk_held f). held_seq h = q \<and> shown t ts n h"
    using inv rem by (fastforce simp: link_inv_def chunk_of_def below_all_def)
  have ack: "acked ?s n = Some h \<Longrightarrow> below_all (held_seq h) ws \<and> shown t ts n h \<and> held_seq h \<le> seq" for n h
    using settle_sources [of "chunk_held f" "acked s" n h] s'(2) f q inv rem
    by (fastforce simp: link_inv_def stream_below_def)
  then have "stream_below seq ?s" using s'(1) inv by (auto simp: link_inv_def stream_below_def)
  then show ?thesis using inv s'(1) ack by (fastforce simp: link_inv_def)
qed

section \<open>Histories of a session\<close>

definition sane_context :: "pump_context \<Rightarrow> bool" where
  "sane_context cx \<longleftrightarrow> compact_cache (pc_cache cx) \<and> distinct (pc_keys cx)
     \<and> (\<forall>n p. pc_cache cx n = Some p \<longrightarrow> sane_node p)"

fun sane_op :: "session_op \<Rightarrow> bool" where
  "sane_op (ServerPump cx _ _) = sane_context cx"
| "sane_op _ = True"

definition session_inv :: "session \<Rightarrow> bool" where
  "session_inv s \<longleftrightarrow> (\<exists>c ws qs. clients (ses_manager s) (ses_client s) = Some c
     \<and> list_all2 carries (down s) ws \<and> list_all2 (\<lambda>b q. \<exists>n t. b = broadcast_ack_frame q n t) (up s) qs
     \<and> (\<forall>q \<in> set qs. q \<le> ses_seq s) \<and> (\<forall>x \<in> gate_floor (gate s). x \<le> ses_seq s)
     \<and> link_inv (ses_seq s) (stream c) ws qs (gate s) (targets s) (target_seq s))"

lemma registered: "register_client stall now m = (i, m') \<Longrightarrow> \<exists>c. clients m' i = Some c \<and> stream c = new_stream"
  by (auto simp: register_client_def Let_def)

lemma session_inv_connected:
  assumes "register_client stall now m = (i, m')" and "ses_client s = i" and "ses_manager s = m'"
    and "down s = []" and "up s = []" and "gate_floor (gate s) = {}"
  shows "session_inv s"
  using registered [OF assms(1)] assms(2-6) link_inv_fresh by (fastforce simp: session_inv_def)

lemma sane_chunk: "sane_context cx \<Longrightarrow> filter sane_node (due_chunk cx policy_on c) = due_chunk cx policy_on c"
  using due_chunk_props [of cx policy_on c] by (auto simp: sane_context_def filter_id_conv)

lemma due_frame_carries:
  assumes "sane_context cx"
  shows "carries (due_frame cx policy_on q c) (q, due_chunk cx policy_on c)
    \<and> distinct (map node_id (due_chunk cx policy_on c))"
proof -
  have cc: "compact_cache (pc_cache cx)" using assms by (simp add: sane_context_def)
  note dc = due_chunk_props [OF cc, of policy_on c]
  have "carries (due_frame cx policy_on q c) (q, due_chunk cx policy_on c)"
    unfolding due_frame_def using dc serialized_carries [of "due_chunk cx policy_on c"] sane_chunk [OF assms, of policy_on c] by simp
  moreover have "distinct (due_ids cx policy_on c)"
    using assms distinct_plan by (simp add: due_ids_def sane_context_def)
  ultimately show ?thesis using dc by simp
qed

text \<open>What a pump for the session's client does to its stream, the counter and the socket.\<close>

lemma pump_client_cases:
  assumes "clients m i = Some c"
    and "st = pump_client (\<lambda>_ _. if accepted then SendOk else SendFull) cx policy_on i m seq"
  shows "\<exists>s'. clients (pm_manager st) i = Some (c\<lparr>stream := s'\<rparr>) \<and>
    (pm_seq st = seq \<and> delivered (pm_result st) = [] \<and> (s' = stream c \<or> (\<exists>keep. s' = retain_nodes keep (stream c)))
     \<or> pm_seq st = seq + 1 \<and> \<not> accepted \<and> delivered (pm_result st) = [] \<and> s' = retained_stream cx policy_on c
     \<or> pm_seq st = seq + 1 \<and> accepted \<and> delivered (pm_result st) = [(i, due_frame cx policy_on (seq + 1) c)]
       \<and> s' = record_sent (seq + 1) (pc_now cx) (due_chunk cx policy_on c) (analytics_key_of cx)
                (retained_stream cx policy_on c))"
proof (cases "pc_keys cx = [] \<or> policy_on \<and> \<not> loaded (pc_nta cx)")
  case True
  then have "st = initial_pump m seq" using assms(2) by (simp add: pump_client_eq)
  then show ?thesis using assms(1)
    by (intro exI [of _ "stream c"]) (simp add: initial_pump_def empty_result_def)
next
  case False
  then have st: "st = pump_one (\<lambda>_ _. if accepted then SendOk else SendFull) cx policy_on i (initial_pump m seq)"
    unfolding assms(2) pump_client_eq by (rule if_not_P)
  have c: "clients (pm_manager (initial_pump m seq)) i = Some c"
    and memo: "memo_ok nta (pm_drop_sets (initial_pump m seq))" for nta
    using assms(1) by (simp_all add: initial_pump_def memo_ok_def)
  note spec = pump_one_spec [OF memo c st refl]
  have man: "clients (pm_manager st) i = Some (c\<lparr>stream := pumped_stream cx policy_on accepted (seq + 1) c\<rparr>)"
    using spec assms(1) by (simp add: initial_pump_def with_client_def)
  show ?thesis
  proof (cases "due_ids cx policy_on c = []")
    case True
    then show ?thesis using spec man
      by (intro exI [of _ "pumped_stream cx policy_on accepted (seq + 1) c"])
        (auto simp: initial_pump_def empty_result_def pumped_stream_def retained_stream_def)
  next
    case nonempty: False
    then have "\<not> is_waiting (pc_now cx) (ack_timeout (pc_settings cx)) (stream c)"
      by (auto simp: due_ids_def)
    then show ?thesis using spec man nonempty
      by (intro exI [of _ "pumped_stream cx policy_on accepted (seq + 1) c"])
        (auto simp: initial_pump_def empty_result_def pumped_stream_def deliver_binary_def)
  qed
qed

lemma session_pump_inv:
  assumes "session_inv s" and "sane_context cx" and "unat (ses_seq s) + 1 < 2 ^ 64"
    and "s' = session_step (ServerPump cx policy_on accepted) s"
  shows "session_inv s' \<and> unat (ses_seq s') \<le> unat (ses_seq s) + 1"
proof -
  obtain c ws qs where c: "clients (ses_manager s) (ses_client s) = Some c"
    and ws: "list_all2 carries (down s) ws" and qs: "list_all2 (\<lambda>b q. \<exists>n t. b = broadcast_ack_frame q n t) (up s) qs"
    and le: "\<forall>q \<in> set qs. q \<le> ses_seq s" "\<forall>x \<in> gate_floor (gate s). x \<le> ses_seq s"
    and inv: "link_inv (ses_seq s) (stream c) ws qs (gate s) (targets s) (target_seq s)"
    using assms(1) by (auto simp: session_inv_def)
  define st where "st = pump_client (\<lambda>_ _. if accepted then SendOk else SendFull) cx policy_on (ses_client s)
      (ses_manager s) (ses_seq s)"
  have s': "s' = s\<lparr>ses_manager := pm_manager st, ses_seq := pm_seq st, down := down s @ map snd (delivered (pm_result st))\<rparr>"
    unfolding assms(4) session_step.simps st_def Let_def ..
  have lt: "ses_seq s < ses_seq s + 1" by (rule u64_less_Suc [OF assms(3)])
  have u: "unat (ses_seq s + 1) = unat (ses_seq s) + 1" using assms(3) by (simp add: unat_word_ariths)
  have le': "\<forall>q \<in> set qs. q \<le> ses_seq s + 1" "\<forall>x \<in> gate_floor (gate s). x \<le> ses_seq s + 1"
    using le lt by (auto intro: order_trans less_imp_le)
  have ret: "link_inv (ses_seq s) (retained_stream cx policy_on c) ws qs (gate s) (targets s) (target_seq s)"
    unfolding retained_stream_def by (rule link_inv_retain [OF inv])
  obtain t where t: "clients (pm_manager st) (ses_client s) = Some (c\<lparr>stream := t\<rparr>)"
    and cases: "pm_seq st = ses_seq s \<and> delivered (pm_result st) = [] \<and> (t = stream c \<or> (\<exists>keep. t = retain_nodes keep (stream c)))
     \<or> pm_seq st = ses_seq s + 1 \<and> \<not> accepted \<and> delivered (pm_result st) = [] \<and> t = retained_stream cx policy_on c
     \<or> pm_seq st = ses_seq s + 1 \<and> accepted
       \<and> delivered (pm_result st) = [(ses_client s, due_frame cx policy_on (ses_seq s + 1) c)]
       \<and> t = record_sent (ses_seq s + 1) (pc_now cx) (due_chunk cx policy_on c) (analytics_key_of cx)
                (retained_stream cx policy_on c)"
    using pump_client_cases [OF c st_def] by blast
  have "\<exists>ws'. list_all2 carries (down s') ws' \<and> link_inv (ses_seq s') t ws' qs (gate s) (targets s) (target_seq s)
      \<and> (\<forall>q \<in> set qs. q \<le> ses_seq s') \<and> (\<forall>x \<in> gate_floor (gate s). x \<le> ses_seq s') \<and> unat (ses_seq s') \<le> unat (ses_seq s) + 1"
    using cases
  proof (elim disjE conjE)
    assume "pm_seq st = ses_seq s" "delivered (pm_result st) = []" and "t = stream c"
    then show ?thesis using ws inv le s' by auto
  next
    assume "pm_seq st = ses_seq s" "delivered (pm_result st) = []" and "\<exists>keep. t = retain_nodes keep (stream c)"
    then show ?thesis using ws link_inv_retain [OF inv] le s' by auto
  next
    assume "pm_seq st = ses_seq s + 1" "delivered (pm_result st) = []" and "t = retained_stream cx policy_on c"
    then show ?thesis using ws link_inv_seq [OF ret less_imp_le [OF lt]] le' u s' by auto
  next
    assume a: "pm_seq st = ses_seq s + 1" "delivered (pm_result st) = [(ses_client s, due_frame cx policy_on (ses_seq s + 1) c)]"
      "t = record_sent (ses_seq s + 1) (pc_now cx) (due_chunk cx policy_on c) (analytics_key_of cx) (retained_stream cx policy_on c)"
    note carry = due_frame_carries [OF assms(2), of policy_on "ses_seq s + 1" c]
    have "list_all2 carries (down s') (ws @ [(ses_seq s + 1, due_chunk cx policy_on c)])"
      using ws carry a(2) s' by (simp add: list_all2_appendI)
    moreover have "link_inv (ses_seq s') t (ws @ [(ses_seq s + 1, due_chunk cx policy_on c)]) qs (gate s) (targets s) (target_seq s)"
      using link_inv_sent [OF ret assms(3) _ le(2) le(1)] carry a s' by simp
    ultimately show ?thesis using le' u a(1) s' by auto
  qed
  then obtain ws' where "list_all2 carries (down s') ws'"
      "link_inv (ses_seq s') t ws' qs (gate s) (targets s) (target_seq s)"
      "\<forall>q \<in> set qs. q \<le> ses_seq s'" "\<forall>x \<in> gate_floor (gate s). x \<le> ses_seq s'"
      "unat (ses_seq s') \<le> unat (ses_seq s) + 1" by blast
  moreover have "clients (ses_manager s') (ses_client s') = Some (c\<lparr>stream := t\<rparr>)" "up s' = up s" "gate s' = gate s"
      "targets s' = targets s" "target_seq s' = target_seq s"
    using t s' by simp_all
  ultimately show ?thesis
    unfolding session_inv_def using qs
    by (intro conjI exI [of _ "c\<lparr>stream := t\<rparr>"] exI [of _ ws'] exI [of _ qs]) simp_all
qed

lemma session_receive_inv:
  assumes "session_inv s" and "s' = session_step (HeadsetReceives now_ms) s"
  shows "session_inv s' \<and> ses_seq s' = ses_seq s"
proof (cases "down s")
  case Nil
  then show ?thesis using assms by simp
next
  case (Cons f fs)
  obtain c ws qs where c: "clients (ses_manager s) (ses_client s) = Some c"
    and ws: "list_all2 carries (f # fs) ws" and qs: "list_all2 (\<lambda>b q. \<exists>n t. b = broadcast_ack_frame q n t) (up s) qs"
    and le: "\<forall>q \<in> set qs. q \<le> ses_seq s"
    and inv: "link_inv (ses_seq s) (stream c) ws qs (gate s) (targets s) (target_seq s)"
    using assms(1) Cons by (auto simp: session_inv_def)
  obtain q ps ws' where w: "ws = (q, ps) # ws'" "carries f (q, ps)" "list_all2 carries fs ws'"
    using ws by (cases ws) auto
  have q: "\<forall>x \<in> gate_floor (gate s). x < q" "q \<le> ses_seq s" using inv w(1) by (auto simp: link_inv_def)
  obtain g n where e: "emit_frame f now_ms (gate s) (targets s)
      = (g, targets s ++ map_of (rev (map (\<lambda>p. (node_id p, node_pos p)) ps)), Some (broadcast_ack_frame q n now_ms))"
    "gate_floor g = {q}"
    using emit_carried [OF w(2) q(1)] by blast
  have m: "mark_targets f (target_seq s) = (\<lambda>n. if n \<in> set (map node_id ps) then Some q else target_seq s n)"
    by (simp add: mark_targets_def carried_carries [OF w(2)])
  have "link_inv (ses_seq s) (stream c) ws' (qs @ [q]) g
      (targets s ++ map_of (rev (map (\<lambda>p. (node_id p, node_pos p)) ps))) (mark_targets f (target_seq s))"
    by (rule link_inv_received [OF inv [unfolded w(1)] e(2) refl m])
  then have "session_inv (s\<lparr>gate := g, targets := targets s ++ map_of (rev (map (\<lambda>p. (node_id p, node_pos p)) ps)),
      down := fs, target_seq := mark_targets f (target_seq s), up := up s @ [broadcast_ack_frame q n now_ms]\<rparr>)"
    unfolding session_inv_def using c w(3) qs le q(2) e(2)
    by (intro exI [of _ c] exI [of _ ws'] exI [of _ "qs @ [q]"]) (auto intro!: list_all2_appendI)
  then show ?thesis using assms(2) Cons e(1) by simp
qed

lemma decode_ack: "decode_message (broadcast_ack_frame q n t) = Ok (BroadcastAck q n t)"
  by (simp add: decode_message_def broadcast_ack_frame_def OPCODE_BROADCAST_ACK_def
      decode_broadcast_ack_def MAX_PAYLOAD_SIZE_def rd32_def)

lemma session_ack_inv:
  assumes "session_inv s" and "s' = session_step AckArrives s"
  shows "session_inv s' \<and> ses_seq s' = ses_seq s"
proof (cases "up s")
  case Nil
  then show ?thesis using assms by simp
next
  case (Cons b bs)
  obtain c ws qs where c: "clients (ses_manager s) (ses_client s) = Some c"
    and ws: "list_all2 carries (down s) ws" and qs: "list_all2 (\<lambda>b q. \<exists>n t. b = broadcast_ack_frame q n t) (b # bs) qs"
    and le: "\<forall>q \<in> set qs. q \<le> ses_seq s" "\<forall>x \<in> gate_floor (gate s). x \<le> ses_seq s"
    and inv: "link_inv (ses_seq s) (stream c) ws qs (gate s) (targets s) (target_seq s)"
    using assms(1) Cons by (auto simp: session_inv_def)
  obtain q qs' n t where q: "qs = q # qs'" "b = broadcast_ack_frame q n t"
      "list_all2 (\<lambda>b q. \<exists>n t. b = broadcast_ack_frame q n t) bs qs'"
    using qs by (cases qs) auto
  have "clients (server_ack (ses_client s) b (ses_manager s)) (ses_client s) = Some (c\<lparr>stream := snd (acknowledge q (stream c))\<rparr>)"
    using c by (simp add: server_ack_def q(2) decode_ack manager_acknowledge_def split: prod.split)
  then have "session_inv (s\<lparr>ses_manager := server_ack (ses_client s) b (ses_manager s), up := bs\<rparr>)"
    unfolding session_inv_def using ws q(1,3) le link_inv_acked [OF inv [unfolded q(1)]]
    by (intro exI [of _ "c\<lparr>stream := snd (acknowledge q (stream c))\<rparr>"] exI [of _ ws] exI [of _ qs']) simp
  then show ?thesis using assms(2) Cons by simp
qed

lemma session_step_inv:
  assumes "session_inv s" and "sane_op x" and "unat (ses_seq s) + 1 < 2 ^ 64"
  shows "session_inv (session_step x s) \<and> unat (ses_seq (session_step x s)) \<le> unat (ses_seq s) + 1"
proof (cases x)
  case (ServerPump cx policy_on accepted)
  then show ?thesis using session_pump_inv [OF assms(1) _ assms(3) refl] assms(2) by simp
next
  case (HeadsetReceives now_ms)
  then show ?thesis using session_receive_inv [OF assms(1) refl, of now_ms] by simp
next
  case AckArrives
  then show ?thesis using session_ack_inv [OF assms(1) refl] by simp
next
  case (ClientChanges fl key)
  then show ?thesis using assms(1) by (fastforce simp: session_inv_def with_client_def)
next
  case (Reconnects restarted stall now)
  obtain i m where r: "register_client stall now
      (if restarted then new_manager else snd (unregister_client (ses_client s) (ses_manager s))) = (i, m)"
    by (cases "register_client stall now
      (if restarted then new_manager else snd (unregister_client (ses_client s) (ses_manager s)))")
  then show ?thesis
    using session_inv_connected [OF r, of "session_step x s"] Reconnects
    by (simp add: gate_floor_def reconnect_def)
qed

lemma session_history_inv:
  assumes "session_inv s" and "\<forall>x \<in> set ops. sane_op x" and "unat (ses_seq s) + length ops < 2 ^ 64"
  shows "session_inv (fold session_step ops s)
    \<and> unat (ses_seq (fold session_step ops s)) \<le> unat (ses_seq s) + length ops"
  using assms
proof (induction ops arbitrary: s)
  case (Cons x ops)
  have "session_inv (session_step x s) \<and> unat (ses_seq (session_step x s)) \<le> unat (ses_seq s) + 1"
    using Cons.prems by (intro session_step_inv) simp_all
  with Cons.IH [of "session_step x s"] Cons.prems show ?case by simp
qed simp

lemma first_session_inv: "session_inv (first_session stall now)"
  by (rule session_inv_connected [of stall now new_manager "fst (register_client stall now new_manager)"
        "snd (register_client stall now new_manager)"])
    (simp_all add: first_session_def gate_floor_def new_gate_def split: prod.splits)

text \<open>
  C3. The server never believes more than the headset shows. Through any interleaving of pumps
  (over any sequence of sane position caches, filters, identities, settings and mailbox states),
  deliveries, acknowledgements, reconnects and server restarts: when the server takes a node as
  held at a position since some frame, the headset has applied that frame or a later one to the
  node, and when it was that frame, the headset's target is exactly the position believed.
\<close>
theorem server_belief_is_shown:
  assumes "\<forall>x \<in> set ops. sane_op x" and "length ops < 2 ^ 64"
    and "s = fold session_step ops (first_session stall now)"
    and "clients (ses_manager s) (ses_client s) = Some c" and "acked (stream c) n = Some h"
  shows "\<exists>q. target_seq s n = Some q \<and> held_seq h \<le> q
    \<and> (q = held_seq h \<longrightarrow> targets s n = Some (held_pos h))"
proof -
  have "ses_seq (first_session stall now) = 0" by (simp add: first_session_def split: prod.split)
  then have "session_inv s"
    unfolding assms(3) using assms(1,2) by (intro session_history_inv [THEN conjunct1] first_session_inv) simp_all
  then show ?thesis using assms(4,5) by (auto simp: session_inv_def link_inv_def shown_def)
qed

section \<open>Delivery\<close>

definition session_round :: "pump_context \<Rightarrow> bool \<Rightarrow> u64 \<Rightarrow> session_op list" where
  "session_round cx policy_on now_ms = [ServerPump cx policy_on True, HeadsetReceives now_ms, AckArrives]"

text \<open>Nothing is on the way, and what is taken as held is the cached position and shown.\<close>

definition idle :: "pump_context \<Rightarrow> bool \<Rightarrow> client_state \<Rightarrow> (u32 \<rightharpoonup> vec3) \<Rightarrow> session \<Rightarrow> client_stream \<Rightarrow> bool" where
  "idle cx policy_on c t0 s str \<longleftrightarrow>
     clients (ses_manager s) (ses_client s) = Some (c\<lparr>stream := str\<rparr>) \<and> in_flight str = [] \<and> down s = [] \<and> up s = []
     \<and> stream_below (ses_seq s) str \<and> (\<forall>x \<in> gate_floor (gate s). x \<le> ses_seq s)
     \<and> (\<forall>n h. acked str n = Some h \<longrightarrow> (\<exists>p. pc_cache cx n = Some p \<and> pump_visible cx policy_on c n
          \<and> held_pos h = node_pos p \<and> targets s n = Some (node_pos p)))
     \<and> (\<forall>n. \<not> (pc_cache cx n \<noteq> None \<and> pump_visible cx policy_on c n) \<longrightarrow> targets s n = t0 n)"

lemma pump_visible_stream [simp]: "pump_visible cx policy_on (c\<lparr>stream := str\<rparr>) = pump_visible cx policy_on c"
  by (simp add: pump_visible_def)

lemma idle_retained:
  assumes "idle cx policy_on c t0 s str"
  shows "retained_stream cx policy_on (c\<lparr>stream := str\<rparr>) = str"
proof -
  have "acked str n = None" if "\<not> (pc_cache cx n \<noteq> None \<and> pump_visible cx policy_on c n)" for n
    using assms that unfolding idle_def by (cases "acked str n") (simp, blast)
  then show ?thesis
    by (auto simp: retained_stream_def retain_nodes_def intro!: client_stream.equality ext)
qed

lemma idle_due:
  assumes "idle cx policy_on c t0 s str"
  shows "due_ids cx policy_on (c\<lparr>stream := str\<rparr>) =
    plan (pc_cache cx) (pc_keys cx) (pump_visible cx policy_on c) (analytics_key_of cx) (pc_settings cx) str"
  using assms idle_retained [OF assms] by (simp add: due_ids_def idle_def is_waiting_def)

lemma pump_step:
  assumes "clients (ses_manager s) (ses_client s) = Some c" and "pc_keys cx \<noteq> []"
    and "policy_on \<longrightarrow> loaded (pc_nta cx)"
  shows "session_step (ServerPump cx policy_on True) s =
    s\<lparr>ses_manager := with_client (ses_client s) (\<lambda>c'. c'\<lparr>stream := pumped_stream cx policy_on True (ses_seq s + 1) c\<rparr>)
         (ses_manager s),
      ses_seq := (if due_ids cx policy_on c = [] then ses_seq s else ses_seq s + 1),
      down := down s @ (if due_ids cx policy_on c = [] then [] else [due_frame cx policy_on (ses_seq s + 1) c])\<rparr>"
proof -
  let ?i = "initial_pump (ses_manager s) (ses_seq s)"
  have "clients (pm_manager ?i) (ses_client s) = Some c" and memo: "memo_ok nta (pm_drop_sets ?i)" for nta
    using assms(1) by (simp_all add: initial_pump_def memo_ok_def)
  note spec = pump_one_spec [OF memo this(1) refl refl, of cx "\<lambda>_ _. SendOk" policy_on]
  have "pump_client (\<lambda>_ _. SendOk) cx policy_on (ses_client s) (ses_manager s) (ses_seq s)
      = pump_one (\<lambda>_ _. SendOk) cx policy_on (ses_client s) ?i"
    using assms(2,3) by (auto simp: pump_client_eq)
  then show ?thesis
    using spec by (simp add: initial_pump_def empty_result_def deliver_binary_def)
qed

lemma receive_ack_steps:
  assumes "down s = [f]" and "up s = []" and "carries f (q, ps)" and "\<forall>x \<in> gate_floor (gate s). x < q"
    and "clients (ses_manager s) (ses_client s) = Some c"
    and "s' = fold session_step [HeadsetReceives now_ms, AckArrives] s"
  shows "clients (ses_manager s') (ses_client s') = Some (c\<lparr>stream := snd (acknowledge q (stream c))\<rparr>)
    \<and> ses_seq s' = ses_seq s \<and> down s' = [] \<and> up s' = [] \<and> gate_floor (gate s') = {q}
    \<and> targets s' = targets s ++ map_of (rev (map (\<lambda>p. (node_id p, node_pos p)) ps))"
proof -
  obtain g n where e: "emit_frame f now_ms (gate s) (targets s)
      = (g, targets s ++ map_of (rev (map (\<lambda>p. (node_id p, node_pos p)) ps)), Some (broadcast_ack_frame q n now_ms))"
    "gate_floor g = {q}"
    using emit_carried [OF assms(3,4)] by blast
  have "clients (server_ack (ses_client s) (broadcast_ack_frame q n now_ms) (ses_manager s)) (ses_client s)
      = Some (c\<lparr>stream := snd (acknowledge q (stream c))\<rparr>)"
    using assms(5) by (simp add: server_ack_def decode_ack manager_acknowledge_def split: prod.split)
  then show ?thesis using assms(1,2,6) e by simp
qed

lemma due_ids_visible:
  assumes "compact_cache (pc_cache cx)" and "n \<in> set (due_ids cx policy_on c)"
  shows "pc_cache cx n \<noteq> None \<and> pump_visible cx policy_on c n"
proof -
  note dc = due_chunk_props [OF assms(1), of policy_on c]
  have "n \<in> node_id ` set (due_chunk cx policy_on c)" using dc assms(2) by (metis list.set_map)
  then show ?thesis using dc by auto
qed

lemma target_of_chunk:
  assumes "compact_cache (pc_cache cx)" and "distinct (map node_id (due_chunk cx policy_on c))"
  shows "(t ++ map_of (rev (map (\<lambda>p. (node_id p, node_pos p)) (due_chunk cx policy_on c)))) n
    = (if n \<in> set (due_ids cx policy_on c) then map_option node_pos (pc_cache cx n) else t n)"
proof -
  let ?ch = "due_chunk cx policy_on c" and ?l = "rev (map (\<lambda>p. (node_id p, node_pos p)) (due_chunk cx policy_on c))"
  note dc = due_chunk_props [OF assms(1), of policy_on c]
  have ids: "set (due_ids cx policy_on c) = node_id ` set ?ch" using dc by (metis list.set_map)
  have dist: "distinct (map fst ?l)" using assms(2) by (simp add: rev_map [symmetric] comp_def)
  have "map_of ?l n = (if n \<in> set (due_ids cx policy_on c) then map_option node_pos (pc_cache cx n) else None)"
  proof (cases "n \<in> set (due_ids cx policy_on c)")
    case True
    then obtain p where p: "p \<in> set ?ch" "n = node_id p" using ids by auto
    then have "map_of ?l n = Some (node_pos p)" using dist by (intro map_of_is_SomeI) auto
    then show ?thesis using True p dc by simp
  next
    case False
    then show ?thesis using ids by (force simp: map_of_eq_None_iff)
  qed
  then show ?thesis using dc ids by (auto simp: map_add_def split: option.splits)
qed

text \<open>A round with news, step by step: the headset applies the sane records, the server takes all as held.\<close>

lemma news_round_state:
  assumes "clients (ses_manager s) (ses_client s) = Some c" and "in_flight (stream c) = []"
    and "down s = []" and "up s = []" and "\<forall>x \<in> gate_floor (gate s). x \<le> ses_seq s"
    and "unat (ses_seq s) + 1 < 2 ^ 64" and "compact_cache (pc_cache cx)" and "pc_keys cx \<noteq> []"
    and "policy_on \<longrightarrow> loaded (pc_nta cx)" and "due_ids cx policy_on c \<noteq> []"
    and "s' = fold session_step (session_round cx policy_on now_ms) s"
  shows "clients (ses_manager s') (ses_client s') = Some (c\<lparr>stream := snd (acknowledge (ses_seq s + 1)
        (record_sent (ses_seq s + 1) (pc_now cx) (due_chunk cx policy_on c) (analytics_key_of cx)
          (retained_stream cx policy_on c)))\<rparr>)
    \<and> ses_seq s' = ses_seq s + 1 \<and> down s' = [] \<and> up s' = [] \<and> gate_floor (gate s') = {ses_seq s + 1}
    \<and> targets s' = targets s
        ++ map_of (rev (map (\<lambda>p. (node_id p, node_pos p)) (filter sane_node (due_chunk cx policy_on c))))"
proof -
  let ?q = "ses_seq s + 1" and ?ch = "due_chunk cx policy_on c" and ?r = "retained_stream cx policy_on c"
  let ?f = "due_frame cx policy_on ?q c" and ?sent = "record_sent ?q (pc_now cx) ?ch (analytics_key_of cx) ?r"
  have "\<not> is_waiting (pc_now cx) (ack_timeout (pc_settings cx)) (stream c)"
    using assms(2) by (simp add: is_waiting_def)
  then have "pumped_stream cx policy_on True ?q c = ?sent" using assms(10) by (simp add: pumped_stream_def)
  then have p: "session_step (ServerPump cx policy_on True) s =
      s\<lparr>ses_manager := (ses_manager s)\<lparr>clients := (clients (ses_manager s))(ses_client s \<mapsto> c\<lparr>stream := ?sent\<rparr>)\<rparr>,
        ses_seq := ?q, down := [?f]\<rparr>" (is "_ = ?s1")
    unfolding pump_step [OF assms(1,8,9)] using assms(1,3,10) by (simp add: with_client_def)
  have floor: "\<forall>x \<in> gate_floor (gate ?s1). x < ?q" using assms(5) u64_less_Suc [OF assms(6)] by auto
  have steps: "s' = fold session_step [HeadsetReceives now_ms, AckArrives] ?s1"
    unfolding assms(11) session_round_def fold_simps(2) p ..
  have "carries ?f (?q, filter sane_node ?ch)"
    unfolding due_frame_def using due_chunk_props [OF assms(7), of policy_on c] by (intro serialized_carries) auto
  then show ?thesis
    using receive_ack_steps [OF _ _ _ floor _ steps, of ?f "filter sane_node ?ch" "c\<lparr>stream := ?sent\<rparr>"] assms(4)
    by simp
qed

lemma due_round_state:
  assumes id: "idle cx policy_on c t0 s str" and sane: "sane_context cx" and "unat (ses_seq s) + 1 < 2 ^ 64"
    and "pc_keys cx \<noteq> []" and "policy_on \<longrightarrow> loaded (pc_nta cx)"
    and "due_ids cx policy_on (c\<lparr>stream := str\<rparr>) \<noteq> []"
    and "ch = due_chunk cx policy_on (c\<lparr>stream := str\<rparr>)"
    and "s' = fold session_step (session_round cx policy_on now_ms) s"
  shows "clients (ses_manager s') (ses_client s') = Some (c\<lparr>stream := snd (acknowledge (ses_seq s + 1)
        (record_sent (ses_seq s + 1) (pc_now cx) ch (analytics_key_of cx) str))\<rparr>)
    \<and> ses_seq s' = ses_seq s + 1 \<and> down s' = [] \<and> up s' = [] \<and> gate_floor (gate s') = {ses_seq s + 1}
    \<and> targets s' = targets s ++ map_of (rev (map (\<lambda>p. (node_id p, node_pos p)) ch))"
  using news_round_state [of s "c\<lparr>stream := str\<rparr>" cx policy_on s' now_ms] assms sane_chunk [OF sane, of policy_on]
    idle_retained [OF id]
  by (simp add: idle_def sane_context_def)

text \<open>A round is a healthy round of the stream, and the session is idle again.\<close>

lemma idle_round:
  assumes id: "idle cx policy_on c t0 s str" and sane: "sane_context cx" and "unat (ses_seq s) + 1 < 2 ^ 64"
    and on: "pc_keys cx \<noteq> []" "policy_on \<longrightarrow> loaded (pc_nta cx)"
    and str': "str' = healthy_round (pc_cache cx) (pc_keys cx) (pump_visible cx policy_on c) (analytics_key_of cx)
            (pc_settings cx) (pc_now cx) (ses_seq s + 1) str"
    and s': "s' = fold session_step (session_round cx policy_on now_ms) s"
  shows "idle cx policy_on c t0 s' str' \<and> unat (ses_seq s') \<le> unat (ses_seq s) + 1"
proof (cases "due_ids cx policy_on (c\<lparr>stream := str\<rparr>) = []")
  case True
  have cl: "clients (ses_manager s) (ses_client s) = Some (c\<lparr>stream := str\<rparr>)" using id by (simp add: idle_def)
  have "str' = str" using True idle_due [OF id] str' by (simp add: healthy_round_def)
  moreover have "pumped_stream cx policy_on True (ses_seq s + 1) (c\<lparr>stream := str\<rparr>) = str"
    using True idle_retained [OF id] by (simp add: pumped_stream_def)
  then have "session_step (ServerPump cx policy_on True) s = s"
    unfolding pump_step [OF cl on] using True cl by (simp add: with_client_def fun_upd_idem)
  then have "s' = s" using id by (simp add: s' session_round_def idle_def)
  ultimately show ?thesis using id by simp
next
  case False
  let ?q = "ses_seq s + 1" and ?ids = "due_ids cx policy_on (c\<lparr>stream := str\<rparr>)"
  have cc: "compact_cache (pc_cache cx)" and dist: "distinct (pc_keys cx)" using sane by (simp_all add: sane_context_def)
  have le: "x \<le> ses_seq s \<Longrightarrow> x \<le> ?q" for x using u64_less_Suc [OF assms(3)] by simp
  have old: "in_flight str = []" "\<forall>n h. acked str n = Some h \<longrightarrow> held_seq h \<le> ?q"
    using id le by (auto simp: idle_def stream_below_def)
  note st = due_round_state [OF id sane assms(3) on False refl s']
  have ack: "clients (ses_manager s') (ses_client s') = Some (c\<lparr>stream := str'\<rparr>)"
    using st False idle_due [OF id] by (simp add: str' healthy_round_def)
  have hr: "in_flight str' = []" "\<And>i. acked str' i = (if i \<in> set ?ids
      then map_option (\<lambda>p. \<lparr>held_pos = node_pos p, held_key = analytics_key_of cx i, held_seq = ?q\<rparr>) (pc_cache cx i) else acked str i)"
    using healthy_round_acked [OF old dist _ idle_due [OF id] str'] cc by (auto simp: compact_cache_def)
  have t: "targets s' n = (if n \<in> set ?ids then map_option node_pos (pc_cache cx n) else targets s n)" for n
    using target_of_chunk [OF cc] due_frame_carries [OF sane] st by simp
  note vis = due_ids_visible [OF cc, of _ policy_on "c\<lparr>stream := str\<rparr>", simplified]
  have "stream_below ?q str'" using hr old by (auto simp: stream_below_def)
  moreover have "\<exists>p. pc_cache cx n = Some p \<and> pump_visible cx policy_on c n \<and> held_pos h = node_pos p
      \<and> targets s' n = Some (node_pos p)" if "acked str' n = Some h" for n h
    using that id vis [of n] by (cases "n \<in> set ?ids") (auto simp: hr t idle_def)
  moreover have "targets s' n = t0 n" if "\<not> (pc_cache cx n \<noteq> None \<and> pump_visible cx policy_on c n)" for n
    unfolding t using that id vis [of n] by (auto simp: idle_def)
  ultimately show ?thesis
    unfolding idle_def using st hr(1) ack assms(3) by (simp add: unat_word_ariths)
qed

lemma idle_rounds:
  assumes "idle cx policy_on c t0 s str" and "sane_context cx" and "unat (ses_seq s) + k < 2 ^ 64"
    and "pc_keys cx \<noteq> []" and "policy_on \<longrightarrow> loaded (pc_nta cx)"
    and "length (filter (is_candidate (pc_cache cx) (pump_visible cx policy_on c) (analytics_key_of cx) (pc_settings cx) str)
           (pc_keys cx)) \<le> k * max (chunk_nodes (pc_settings cx)) 1"
  shows "\<exists>str'. idle cx policy_on c t0 (fold session_step (concat (replicate k (session_round cx policy_on now_ms))) s) str'
    \<and> (\<forall>i \<in> set (pc_keys cx). \<not> is_candidate (pc_cache cx) (pump_visible cx policy_on c) (analytics_key_of cx)
          (pc_settings cx) str' i)"
  using assms
proof (induction k arbitrary: s str)
  case 0
  then show ?case by (auto simp: filter_empty_conv)
next
  case (Suc k)
  let ?s = "fold session_step (session_round cx policy_on now_ms) s"
  define str1 where "str1 = healthy_round (pc_cache cx) (pc_keys cx) (pump_visible cx policy_on c) (analytics_key_of cx)
            (pc_settings cx) (pc_now cx) (ses_seq s + 1) str"
  have lt: "unat (ses_seq s) + 1 < 2 ^ 64" using Suc.prems(3) by simp
  note round = idle_round [OF Suc.prems(1,2) lt Suc.prems(4,5) str1_def refl, of now_ms]
  have "in_flight str = []" and "\<forall>n h. acked str n = Some h \<longrightarrow> held_seq h \<le> ses_seq s + 1"
    using Suc.prems(1) u64_less_Suc [OF lt] by (fastforce simp: idle_def stream_below_def)+
  moreover have "distinct (pc_keys cx)" and "\<forall>i p. pc_cache cx i = Some p \<longrightarrow> node_id p = i"
    using Suc.prems(2) by (auto simp: sane_context_def compact_cache_def)
  ultimately have "length (filter (is_candidate (pc_cache cx) (pump_visible cx policy_on c) (analytics_key_of cx)
      (pc_settings cx) str1) (pc_keys cx)) \<le> k * max (chunk_nodes (pc_settings cx)) 1"
    using round_progress [OF _ _ _ _ str1_def] Suc.prems(6) by simp
  then show ?case
    using Suc.IH [of ?s str1] round Suc.prems by simp
qed

lemma idle_shows:
  assumes "idle cx policy_on c t0 s str" and "enumerates (pc_keys cx) (pc_cache cx)"
    and "\<forall>i \<in> set (pc_keys cx). \<not> is_candidate (pc_cache cx) (pump_visible cx policy_on c) (analytics_key_of cx)
          (pc_settings cx) str i"
  shows "targets s n = (if pc_cache cx n \<noteq> None \<and> pump_visible cx policy_on c n
                        then map_option node_pos (pc_cache cx n) else t0 n)"
proof (cases "pc_cache cx n \<noteq> None \<and> pump_visible cx policy_on c n")
  case True
  then have "n \<in> set (pc_keys cx)" using assms(2) by (auto simp: enumerates_def)
  then have "acked str n \<noteq> None"
    using assms(3) True by (auto simp: is_candidate_def candidate_of_def split: option.splits)
  then obtain h where "acked str n = Some h" by auto
  then have "\<exists>p. pc_cache cx n = Some p \<and> targets s n = Some (node_pos p)"
    using assms(1) unfolding idle_def by blast
  then show ?thesis using True by auto
next
  case False
  then show ?thesis using assms(1) unfolding idle_def by (simp only: if_False) blast
qed

lemma idle_reconnected:
  assumes "s = fold session_step [Reconnects restarted stall now, ClientChanges fl key] s0"
  shows "\<exists>c. idle cx policy_on c (targets s0) s new_stream \<and> ses_seq s \<le> ses_seq s0
    \<and> pump_visible cx policy_on c = client_sees fl (hidden_of (pc_nta cx) policy_on key)"
proof -
  obtain i m where r: "register_client stall now
      (if restarted then new_manager else snd (unregister_client (ses_client s0) (ses_manager s0))) = (i, m)"
    by (cases "register_client stall now
      (if restarted then new_manager else snd (unregister_client (ses_client s0) (ses_manager s0)))")
  obtain c where c: "clients m i = Some c" "stream c = new_stream" using registered [OF r] by blast
  let ?c = "c\<lparr>client_filter := fl, pubkey := key\<rparr>"
  have "?c\<lparr>stream := new_stream\<rparr> = ?c" using c(2) by simp
  then have "idle cx policy_on ?c (targets s0) s new_stream"
    using r c(1) by (simp add: assms idle_def with_client_def new_stream_def stream_below_def
        gate_floor_def reconnect_def)
  moreover have "pump_visible cx policy_on ?c = client_sees fl (hidden_of (pc_nta cx) policy_on key)"
    by (simp add: pump_visible_def)
  moreover have "ses_seq s \<le> ses_seq s0" using r by (simp add: assms)
  ultimately show ?thesis by blast
qed

text \<open>
  C4. The headset comes to show the graph. After any history and a reconnect, with an identity
  and a filter set, as many rounds of pump, delivery and acknowledgement as the nodes need at the
  chunk size bring the headset's targets to exactly the cached positions of the nodes that its
  identity and filter may see; every other target stays as it was. Then the server has nothing
  left to send.
\<close>
theorem headset_comes_to_show_the_graph:
  assumes "\<forall>x \<in> set ops. sane_op x" and "length ops + k < 2 ^ 64"
    and "sane_context cx" and "enumerates (pc_keys cx) (pc_cache cx)" and "pc_keys cx \<noteq> []"
    and "policy_on \<longrightarrow> loaded (pc_nta cx)"
    and "length (pc_keys cx) \<le> k * max (chunk_nodes (pc_settings cx)) 1"
    and "s0 = fold session_step ops (first_session stall0 now0)"
    and "s1 = fold session_step ([Reconnects restarted stall now, ClientChanges fl key]
           @ concat (replicate k (session_round cx policy_on now_ms))) s0"
  shows "targets s1 n =
      (if pc_cache cx n \<noteq> None \<and> client_sees fl (hidden_of (pc_nta cx) policy_on key) n
       then map_option node_pos (pc_cache cx n) else targets s0 n)
    \<and> session_step (ServerPump cx policy_on True) s1 = s1"
proof -
  have "ses_seq (first_session stall0 now0) = 0" by (simp add: first_session_def split: prod.split)
  then have seq: "unat (ses_seq s0) \<le> length ops"
    using session_history_inv [OF first_session_inv assms(1), of stall0 now0] assms(2,8) by simp
  let ?s = "fold session_step [Reconnects restarted stall now, ClientChanges fl key] s0"
  obtain c where c: "idle cx policy_on c (targets s0) ?s new_stream" "ses_seq ?s \<le> ses_seq s0"
    and vis: "pump_visible cx policy_on c = client_sees fl (hidden_of (pc_nta cx) policy_on key)"
    using idle_reconnected [where s = ?s, OF refl] by blast
  have "unat (ses_seq ?s) + k < 2 ^ 64" using c(2) seq assms(2) by (simp only: word_le_nat_alt)
  moreover have "length (filter (is_candidate (pc_cache cx) (pump_visible cx policy_on c) (analytics_key_of cx)
      (pc_settings cx) new_stream) (pc_keys cx)) \<le> k * max (chunk_nodes (pc_settings cx)) 1"
    using assms(7) length_filter_le le_trans by blast
  ultimately obtain str where str: "idle cx policy_on c (targets s0) s1 str"
    "\<forall>i \<in> set (pc_keys cx). \<not> is_candidate (pc_cache cx) (pump_visible cx policy_on c) (analytics_key_of cx) (pc_settings cx) str i"
    using idle_rounds [OF c(1) assms(3) _ assms(5,6), of k now_ms] assms(9) by (auto simp only: fold_append comp_apply)
  have cl: "clients (ses_manager s1) (ses_client s1) = Some (c\<lparr>stream := str\<rparr>)" using str(1) by (simp add: idle_def)
  have "due_ids cx policy_on (c\<lparr>stream := str\<rparr>) = []"
    unfolding idle_due [OF str(1)] using str(2)
      set_plan [of "pc_cache cx" "pc_keys cx" "pump_visible cx policy_on c" "analytics_key_of cx" "pc_settings cx" str]
    by (cases "plan (pc_cache cx) (pc_keys cx) (pump_visible cx policy_on c) (analytics_key_of cx) (pc_settings cx) str") auto
  moreover from this have "pumped_stream cx policy_on True (ses_seq s1 + 1) (c\<lparr>stream := str\<rparr>) = str"
    using idle_retained [OF str(1)] by (simp add: pumped_stream_def)
  ultimately have "session_step (ServerPump cx policy_on True) s1 = s1"
    unfolding pump_step [OF cl assms(5,6)] using cl by (simp add: with_client_def fun_upd_idem)
  then show ?thesis using idle_shows [OF str(1) assms(4) str(2), of n] unfolding vis by simp
qed

section \<open>Witnesses and a record the headset drops\<close>

text \<open>
  A record that the headset drops still counts as held. When a due node's position or velocity
  fails the headset's sanity filter, the round applies and acknowledges the rest of the chunk, the
  server then takes the dropped node as held at that position, the headset's target for it has not
  changed, and the server does not plan it again.
\<close>
theorem dropped_record_counts_as_held:
  assumes "clients (ses_manager s) (ses_client s) = Some c" and "in_flight (stream c) = []"
    and "down s = []" and "up s = []" and "stream_below (ses_seq s) (stream c)"
    and "\<forall>x \<in> gate_floor (gate s). x \<le> ses_seq s" and "unat (ses_seq s) + 1 < 2 ^ 64"
    and "compact_cache (pc_cache cx)" and "distinct (pc_keys cx)" and "pc_keys cx \<noteq> []"
    and "policy_on \<longrightarrow> loaded (pc_nta cx)"
    and "pc_cache cx n = Some p" and "n \<in> set (due_ids cx policy_on c)" and "\<not> sane_node p"
    and "s' = fold session_step (session_round cx policy_on now_ms) s"
  shows "targets s' n = targets s n
    \<and> (\<exists>c' h. clients (ses_manager s') (ses_client s') = Some c' \<and> acked (stream c') n = Some h
         \<and> held_pos h = node_pos p \<and> n \<notin> set (due_ids cx policy_on c'))"
proof -
  let ?q = "ses_seq s + 1" and ?ch = "due_chunk cx policy_on c" and ?r = "retained_stream cx policy_on c"
  let ?v = "pump_visible cx policy_on c" and ?ids = "due_ids cx policy_on c"
  have due: "?ids \<noteq> []" using assms(13) by auto
  note r = news_round_state [OF assms(1-4,6-8,10,11) due assms(15)]
  have idle: "in_flight ?r = []" "\<not> is_waiting (pc_now cx) (ack_timeout (pc_settings cx)) (stream c)"
    using assms(2) by (simp_all add: retained_stream_def retain_nodes_def is_waiting_def)
  then have ids: "?ids = plan (pc_cache cx) (pc_keys cx) ?v (analytics_key_of cx) (pc_settings cx) ?r"
    by (simp add: due_ids_def)
  define str where "str = healthy_round (pc_cache cx) (pc_keys cx) ?v (analytics_key_of cx) (pc_settings cx) (pc_now cx) ?q ?r"
  have str: "clients (ses_manager s') (ses_client s') = Some (c\<lparr>stream := str\<rparr>)"
    using r due by (simp add: str_def healthy_round_def ids)
  have "x \<le> ses_seq s \<Longrightarrow> x \<le> ?q" for x using u64_less_Suc [OF assms(7)] by simp
  then have old: "\<forall>i h. acked ?r i = Some h \<longrightarrow> held_seq h \<le> ?q"
    using assms(5) by (auto simp: stream_below_def retained_stream_def retain_nodes_def split: if_splits)
  have cc: "\<forall>i p. pc_cache cx i = Some p \<longrightarrow> node_id p = i" using assms(8) by (simp add: compact_cache_def)
  have held: "in_flight str = []" "acked str n = Some \<lparr>held_pos = node_pos p, held_key = analytics_key_of cx n, held_seq = ?q\<rparr>"
    using healthy_round_acked [OF idle(1) old assms(9) cc ids str_def] assms(12,13) by auto
  have "n \<notin> set (due_ids cx policy_on (c\<lparr>stream := str\<rparr>))"
  proof
    assume "n \<in> set (due_ids cx policy_on (c\<lparr>stream := str\<rparr>))"
    then have "is_candidate (pc_cache cx) ?v (analytics_key_of cx) (pc_settings cx)
        (retained_stream cx policy_on (c\<lparr>stream := str\<rparr>)) n"
      using set_plan by (fastforce simp: due_ids_def split: if_splits)
    moreover have "acked (retained_stream cx policy_on (c\<lparr>stream := str\<rparr>)) n = acked str n"
      using due_ids_visible [OF assms(8,13)] by (simp add: retained_stream_def retain_nodes_def)
    ultimately show False
      using assms(12) held(2) dist2_self by (auto simp: is_candidate_def candidate_of_def Let_def split: if_splits)
  qed
  moreover have "targets s' n = targets s n"
  proof -
    have "\<forall>x \<in> set (filter sane_node ?ch). node_id x \<noteq> n"
      using due_chunk_props [OF assms(8), of policy_on c] assms(12,14) by auto
    then have "map_of (rev (map (\<lambda>p. (node_id p, node_pos p)) (filter sane_node ?ch))) n = None"
      by (force simp: map_of_eq_None_iff)
    then show ?thesis using r by (simp add: map_add_def)
  qed
  ultimately show ?thesis using str held(2) by auto
qed

lemmas sane_eval = sane_node_def vec3_list_def WORLD_LIMIT_M_def f32_is_finite_def f32_abs_def f32_lt_def
  f32_is_nan_def f32_scaled_def f32_mag_def f32_neg_def f32_exp_def f32_man_def

definition example_cx :: "vec3 \<Rightarrow> pump_context" where
  "example_cx v = \<lparr>pc_cache = [5 \<mapsto> \<lparr>node_id = 5, node_pos = v, node_vel = (0, 0, 0)\<rparr>], pc_keys = [5],
     pc_nta = default_arrays, pc_settings = \<lparr>chunk_nodes = 1, move_threshold = 0, ack_timeout = 0\<rparr>,
     pc_analytics = None, pc_now = 0\<rparr>"

lemma example_session:
  "\<exists>c. clients (ses_manager (first_session 0 0)) (ses_client (first_session 0 0)) = Some c
     \<and> stream c = new_stream \<and> client_filter c = default_filter \<and> pubkey c = None"
  "down (first_session 0 0) = []" "up (first_session 0 0) = []" "ses_seq (first_session 0 0) = 0"
  "gate_floor (gate (first_session 0 0)) = {}" "targets (first_session 0 0) = Map.empty"
  by (simp_all add: first_session_def register_client_def new_manager_def Let_def gate_floor_def new_gate_def)

lemma example_cx_facts:
  "compact_cache (pc_cache (example_cx v))" "distinct (pc_keys (example_cx v))" "pc_keys (example_cx v) \<noteq> []"
  "enumerates (pc_keys (example_cx v)) (pc_cache (example_cx v))"
  by (auto simp: example_cx_def compact_cache_def enumerates_def NODE_ID_MASK_def split: if_splits)

lemma example_due:
  "client_filter c = default_filter \<Longrightarrow> stream c = new_stream \<Longrightarrow> due_ids (example_cx v) False c = [5]"
  by (simp add: due_ids_def example_cx_def pump_visible_def hidden_of_def retained_stream_def pump_eval Let_def)

theorem dropped_record_counts_as_held_witness:
  "let s = fold session_step (session_round (example_cx (0x46C35000, 0, 0)) False 0) (first_session 0 0)
   in targets s 5 = None \<and> (\<exists>c h. clients (ses_manager s) (ses_client s) = Some c \<and> acked (stream c) 5 = Some h)"
proof -
  obtain c where c: "clients (ses_manager (first_session 0 0)) (ses_client (first_session 0 0)) = Some c"
      "stream c = new_stream" "client_filter c = default_filter"
    using example_session(1) by blast
  have insane: "\<not> sane_node \<lparr>node_id = 5, node_pos = (0x46C35000, 0, 0), node_vel = (0, 0, 0)\<rparr>"
    by (simp add: sane_eval)
  let ?cx = "example_cx (0x46C35000, 0, 0)"
  have "5 \<in> set (due_ids ?cx False c)" using example_due [OF c(3,2)] by simp
  moreover have "pc_cache (example_cx (0x46C35000, 0, 0)) 5 = Some \<lparr>node_id = 5, node_pos = (0x46C35000, 0, 0), node_vel = (0, 0, 0)\<rparr>"
    by (simp add: example_cx_def)
  moreover have "in_flight (stream c) = []" "stream_below (ses_seq (first_session 0 0)) (stream c)"
    using c(2) by (simp_all add: new_stream_def stream_below_def)
  ultimately show ?thesis
    using dropped_record_counts_as_held [where cx = ?cx and policy_on = False and n = 5 and now_ms = 0,
        OF c(1) _ example_session(2,3) _ _ _ example_cx_facts(1-3) _ _ _ insane refl]
      example_session(4-6) unfolding Let_def by simp blast
qed

lemma sane_example: "sane_context (example_cx (0x3F800000, 0, 0))"
proof -
  have "sane_node \<lparr>node_id = 5, node_pos = (0x3F800000, 0, 0), node_vel = (0, 0, 0)\<rparr>"
    by (simp add: sane_eval)
  then show ?thesis
    using example_cx_facts by (auto simp: sane_context_def example_cx_def split: if_splits)
qed

theorem headset_comes_to_show_the_graph_witness:
  "targets (fold session_step ([Reconnects True 0 0, ClientChanges default_filter None]
      @ session_round (example_cx (0x3F800000, 0, 0)) False 0) (first_session 0 0)) 5 = Some (0x3F800000, 0, 0)"
proof -
  have "length (pc_keys (example_cx v)) \<le> 1 * max (chunk_nodes (pc_settings (example_cx v))) 1"
    and "pc_cache (example_cx v) 5 = Some \<lparr>node_id = 5, node_pos = v, node_vel = (0, 0, 0)\<rparr>" for v
    by (simp_all add: example_cx_def)
  moreover have "client_sees default_filter (hidden_of nta False None) 5" for nta
    by (simp add: client_sees_def default_filter_def hidden_of_def)
  ultimately show ?thesis
    using headset_comes_to_show_the_graph [where ops = "[]" and k = 1 and policy_on = False and n = 5 and now_ms = 0
        and restarted = True and stall = 0 and now = 0 and fl = default_filter and key = None
        and stall0 = 0 and ?now0.0 = 0, OF _ _ sane_example example_cx_facts(4,3) _ _ refl refl]
    by (simp del: session_step.simps fold_append)
qed

theorem server_belief_is_shown_witness:
  "\<exists>c h q. let s = fold session_step (session_round (example_cx (0x3F800000, 0, 0)) False 0) (first_session 0 0)
     in clients (ses_manager s) (ses_client s) = Some c \<and> acked (stream c) 5 = Some h \<and> target_seq s 5 = Some q \<and> held_seq h \<le> q"
proof -
  let ?cx = "example_cx (0x3F800000, 0, 0)" and ?start = "first_session 0 0"
  let ?s = "fold session_step (session_round ?cx False 0) ?start"
  obtain c where c: "clients (ses_manager ?start) (ses_client ?start) = Some c" "stream c = new_stream" "client_filter c = default_filter"
    using example_session(1) by blast
  have due: "due_ids ?cx False c = [5]" by (rule example_due [OF c(3,2)])
  have ch: "due_chunk ?cx False c = [\<lparr>node_id = 5, node_pos = (0x3F800000, 0, 0), node_vel = (0, 0, 0)\<rparr>]"
    unfolding due by (simp add: List.map_filter_simps example_cx_def)
  have below: "stream_below 0 (retained_stream ?cx False c)"
    using c(2) by (simp add: stream_below_def retained_stream_def retain_nodes_def new_stream_def)
  obtain c' where c': "clients (ses_manager ?s) (ses_client ?s) = Some c'"
      "stream c' = snd (acknowledge 1 (record_sent 1 (pc_now ?cx) (due_chunk ?cx False c) (analytics_key_of ?cx) (retained_stream ?cx False c)))"
    using news_round_state [where cx = ?cx and policy_on = False and now_ms = 0,
        OF c(1) _ example_session(2,3) _ _ example_cx_facts(1,3) _ _ refl]
      c(2) due example_session(4,5) by (auto simp: new_stream_def)
  have "acked (stream c') 5 \<noteq> None"
    using acknowledge_last_sent [OF below, of "due_chunk ?cx False c" _ _ "pc_now ?cx" "analytics_key_of ?cx"]
    unfolding c'(2) ch by auto
  then show ?thesis
    using server_belief_is_shown [where ops = "session_round ?cx False 0", OF _ _ refl c'(1)] sane_example c'(1)
    unfolding Let_def session_round_def by fastforce
qed

end
