(* ===== verification/Scc.thy ===== *)
theory Scc
  imports Prelude "HOL-Library.Monad_Syntax" "HOL-Library.Product_Lexorder" "HOL-Library.Multiset"
begin

text \<open>
  \<open>src/layout/scc.rs\<close>: strongly connected components by the iterative form of Tarjan's
  algorithm, the ranking of a cyclic graph by longest paths in its condensation, and the cycle
  report. Vectors are lists with the source's indexing; \<open>UNSEEN\<close> is \<open>None\<close>. The explicit call
  stack and the node stack have their top at the head of the list. The loop is a partial function
  into \<open>option\<close>, so a run that does not end and the panic of \<open>expect\<close> are both \<open>None\<close>; for a
  well-formed graph the result is shown to be \<open>Some\<close>.
\<close>

section \<open>The algorithm\<close>

type_synonym adjacency = "nat list list"

record sccs =
  component :: "nat list"
  scc_count :: nat

record tarjan_state =
  t_index :: "nat option list"
  t_low :: "nat list"
  t_on_stack :: "bool list"
  t_component :: "nat option list"
  t_stack :: "nat list"
  t_next :: nat
  t_count :: nat
  t_call :: "(nat \<times> nat) list"

definition init_state :: "nat \<Rightarrow> tarjan_state" where
  "init_state n = \<lparr>t_index = replicate n None, t_low = replicate n 0, t_on_stack = replicate n False,
     t_component = replicate n None, t_stack = [], t_next = 0, t_count = 0, t_call = []\<rparr>"

definition visit :: "nat \<Rightarrow> tarjan_state \<Rightarrow> tarjan_state" where
  "visit w st = st\<lparr>t_index := (t_index st)[w := Some (t_next st)], t_low := (t_low st)[w := t_next st],
     t_next := t_next st + 1, t_stack := w # t_stack st, t_on_stack := (t_on_stack st)[w := True],
     t_call := (w, 0) # t_call st\<rparr>"

fun pop_component :: "nat \<Rightarrow> nat \<Rightarrow> nat list \<Rightarrow> bool list \<Rightarrow> nat option list
    \<Rightarrow> (nat list \<times> bool list \<times> nat option list) option" where
  "pop_component v k [] on cs = None"
| "pop_component v k (w # ws) on cs =
     (let on1 = on[w := False]; comp1 = cs[w := Some k]
      in if w = v then Some (ws, on1, comp1) else pop_component v k ws on1 comp1)"

definition tarjan_step :: "adjacency \<Rightarrow> tarjan_state \<Rightarrow> tarjan_state option" where
  "tarjan_step adj st =
     (case t_call st of
        [] \<Rightarrow> Some st
      | (v, child) # rest \<Rightarrow>
          if child < length (adj ! v)
          then let w = adj ! v ! child; st1 = st\<lparr>t_call := (v, child + 1) # rest\<rparr>
               in if t_index st ! w = None then Some (visit w st1)
                  else if t_on_stack st ! w
                  then Some (st1\<lparr>t_low := (t_low st)[v := min (t_low st ! v) (the (t_index st ! w))]\<rparr>)
                  else Some st1
          else let low1 = (case rest of
                             [] \<Rightarrow> t_low st
                           | (parent, _) # _ \<Rightarrow> (t_low st)[parent := min (t_low st ! parent) (t_low st ! v)]);
                   st1 = st\<lparr>t_call := rest, t_low := low1\<rparr>
               in if t_index st ! v = Some (low1 ! v)
                  then do {
                    (stack1, on1, comp1) \<leftarrow> pop_component v (t_count st) (t_stack st) (t_on_stack st) (t_component st);
                    Some (st1\<lparr>t_stack := stack1, t_on_stack := on1, t_component := comp1, t_count := t_count st + 1\<rparr>)
                  }
                  else Some st1)"

partial_function (option) tarjan_loop :: "adjacency \<Rightarrow> tarjan_state \<Rightarrow> tarjan_state option" where
  "tarjan_loop adj st =
     (if t_call st = [] then Some st else tarjan_step adj st \<bind> tarjan_loop adj)"

fun tarjan_roots :: "adjacency \<Rightarrow> nat list \<Rightarrow> tarjan_state \<Rightarrow> tarjan_state option" where
  "tarjan_roots adj [] st = Some st"
| "tarjan_roots adj (r # rs) st =
     (if t_index st ! r \<noteq> None then tarjan_roots adj rs st
      else tarjan_loop adj (visit r st) \<bind> tarjan_roots adj rs)"

definition tarjan :: "adjacency \<Rightarrow> sccs option" where
  "tarjan adj = do {
     st \<leftarrow> tarjan_roots adj [0..<length adj] (init_state (length adj));
     Some \<lparr>component = map the (t_component st), scc_count = t_count st\<rparr>
   }"

section \<open>Uses of the components\<close>

definition scc_sizes :: "sccs \<Rightarrow> nat list" where
  "scc_sizes s = fold (\<lambda>c sizes. sizes[c := sizes ! c + 1]) (component s) (replicate (scc_count s) 0)"

definition cyclic_nodes :: "sccs \<Rightarrow> adjacency \<Rightarrow> nat list" where
  "cyclic_nodes s adj =
     filter (\<lambda>v. scc_sizes s ! (component s ! v) > 1 \<or> v \<in> set (adj ! v)) [0..<length (component s)]"

text \<open>The hash map of positions: a repeated id keeps its last position.\<close>

definition directed_adjacency :: "u32 list \<Rightarrow> (u32 \<times> u32) list \<Rightarrow> adjacency" where
  "directed_adjacency node_ids edges =
     (let index = map_of (rev (zip node_ids [0..<length node_ids]))
      in fold (\<lambda>(s, t) adj. case (index s, index t) of
                              (Some si, Some ti) \<Rightarrow> adj[si := adj ! si @ [ti]]
                            | _ \<Rightarrow> adj)
           edges (replicate (length node_ids) []))"

definition rank_step :: "adjacency \<Rightarrow> nat list \<Rightarrow> nat \<Rightarrow> nat list \<Rightarrow> nat list" where
  "rank_step adj cs c rank =
     fold (\<lambda>v. fold (\<lambda>w rank. let cw = cs ! w
                              in if cw \<noteq> c then rank[cw := max (rank ! cw) (rank ! c + 1)] else rank) (adj ! v))
       (filter (\<lambda>v. cs ! v = c) [0..<length cs]) rank"

definition longest_path_ranks :: "adjacency \<Rightarrow> nat list option" where
  "longest_path_ranks adj = do {
     s \<leftarrow> tarjan adj;
     let rank = fold (rank_step adj (component s)) (rev [0..<scc_count s]) (replicate (scc_count s) 0);
     Some (map (\<lambda>c. rank ! c) (component s))
   }"

text \<open>
  The report. The iteration order of the hash map of components is the parameter \<open>order\<close>, applied to
  its keys.
\<close>

record cycle_report =
  cyclic_node_ids :: "u32 list"
  cr_components :: "u32 list list"

definition cycle_report_for :: "(nat list \<Rightarrow> nat list) \<Rightarrow> u32 list \<Rightarrow> (u32 \<times> u32) list \<Rightarrow> cycle_report option" where
  "cycle_report_for order node_ids edges =
     (let adj = directed_adjacency node_ids edges
      in do {
        s \<leftarrow> tarjan adj;
        let sizes = scc_sizes s;
        let keys = order (remdups (filter (\<lambda>c. sizes ! c > 1) (component s)));
        let groups = map (\<lambda>c. sort (map (\<lambda>v. node_ids ! v) (filter (\<lambda>v. component s ! v = c) [0..<length (component s)]))) keys;
        Some \<lparr>cyclic_node_ids = sort (map (\<lambda>v. node_ids ! v) (cyclic_nodes s adj)),
              cr_components = sort_key (\<lambda>g. (- int (length g), hd g)) groups\<rparr>
      })"

section \<open>The invariant\<close>

definition wf_adj :: "adjacency \<Rightarrow> bool" where
  "wf_adj adj \<longleftrightarrow> (\<forall>v < length adj. \<forall>w \<in> set (adj ! v). w < length adj)"

definition edge_rel :: "adjacency \<Rightarrow> (nat \<times> nat) set" where
  "edge_rel adj = {(v, w). v < length adj \<and> w \<in> set (adj ! v)}"

abbreviation reach :: "adjacency \<Rightarrow> nat \<Rightarrow> nat \<Rightarrow> bool" where
  "reach adj u v \<equiv> (u, v) \<in> (edge_rel adj)\<^sup>*"

abbreviation idx :: "tarjan_state \<Rightarrow> nat \<Rightarrow> nat" where
  "idx st v \<equiv> the (t_index st ! v)"

abbreviation gray :: "tarjan_state \<Rightarrow> nat set" where
  "gray st \<equiv> fst ` set (t_call st)"

definition explored :: "adjacency \<Rightarrow> tarjan_state \<Rightarrow> (nat \<times> nat) set" where
  "explored adj st = {(v, w). (\<exists>c. (v, c) \<in> set (t_call st) \<and> w \<in> set (take c (adj ! v)))
     \<or> v < length adj \<and> t_index st ! v \<noteq> None \<and> v \<notin> gray st \<and> w \<in> set (adj ! v)}"

text \<open>The active call that a node of the stack belongs to: the last one not younger than it.\<close>

definition owner :: "tarjan_state \<Rightarrow> nat \<Rightarrow> nat \<Rightarrow> bool" where
  "owner st g x \<longleftrightarrow> g \<in> gray st \<and> idx st g \<le> idx st x \<and> (\<forall>g' \<in> gray st. idx st g' \<le> idx st x \<longrightarrow> idx st g' \<le> idx st g)"

definition shape :: "adjacency \<Rightarrow> tarjan_state \<Rightarrow> bool" where
  "shape adj st \<longleftrightarrow>
     length (t_index st) = length adj \<and> length (t_low st) = length adj
     \<and> length (t_on_stack st) = length adj \<and> length (t_component st) = length adj
     \<and> (\<forall>v. v \<in> set (t_stack st) \<longleftrightarrow> v < length adj \<and> t_on_stack st ! v)
     \<and> (\<forall>v < length adj. t_index st ! v \<noteq> None \<longleftrightarrow> t_on_stack st ! v \<or> t_component st ! v \<noteq> None)
     \<and> (\<forall>v < length adj. t_on_stack st ! v \<longrightarrow> t_component st ! v = None)
     \<and> sorted_wrt (\<lambda>u v. idx st v < idx st u) (t_stack st) \<and> (\<forall>v \<in> set (t_stack st). idx st v < t_next st)
     \<and> sorted_wrt (\<lambda>u v. idx st v < idx st u) (map fst (t_call st)) \<and> gray st \<subseteq> set (t_stack st)
     \<and> (\<forall>(v, c) \<in> set (t_call st). c \<le> length (adj ! v))"

definition links :: "adjacency \<Rightarrow> tarjan_state \<Rightarrow> bool" where
  "links adj st \<longleftrightarrow> (\<forall>(v, w) \<in> explored adj st. t_index st ! w \<noteq> None)
     \<and> (\<forall>x \<in> set (t_stack st). \<forall>y \<in> set (t_stack st). \<forall>g. (x, y) \<in> explored adj st \<longrightarrow> owner st g x \<longrightarrow> t_low st ! g \<le> idx st y)
     \<and> (\<forall>g \<in> gray st. \<forall>x \<in> set (t_stack st). idx st g \<le> idx st x \<longrightarrow> reach adj g x)"

definition lows :: "adjacency \<Rightarrow> tarjan_state \<Rightarrow> bool" where
  "lows adj st \<longleftrightarrow>
     (\<forall>x \<in> set (t_stack st). t_low st ! x \<le> idx st x
        \<and> (\<exists>u \<in> set (t_stack st). idx st u = t_low st ! x \<and> reach adj x u)
        \<and> (x \<notin> gray st \<longrightarrow> t_low st ! x < idx st x))"

definition comps :: "adjacency \<Rightarrow> nat option list \<Rightarrow> nat \<Rightarrow> bool" where
  "comps adj cs k \<longleftrightarrow>
     (\<forall>(v, w) \<in> edge_rel adj. cs ! v \<noteq> None \<longrightarrow> cs ! w \<noteq> None \<and> the (cs ! w) \<le> the (cs ! v))
     \<and> (\<forall>v < length adj. \<forall>w < length adj. cs ! v \<noteq> None \<longrightarrow> cs ! w \<noteq> None \<longrightarrow>
          (cs ! v = cs ! w \<longleftrightarrow> reach adj v w \<and> reach adj w v))
     \<and> (\<forall>j. j < k \<longleftrightarrow> (\<exists>v < length adj. cs ! v = Some j))"

definition tarjan_inv :: "adjacency \<Rightarrow> tarjan_state \<Rightarrow> bool" where
  "tarjan_inv adj st \<longleftrightarrow> shape adj st \<and> links adj st \<and> lows adj st \<and> comps adj (t_component st) (t_count st)"

lemma init_inv: "tarjan_inv adj (init_state (length adj))"
  by (auto simp: tarjan_inv_def shape_def links_def lows_def comps_def init_state_def explored_def edge_rel_def wf_adj_def)

lemma edge_relD: "wf_adj adj \<Longrightarrow> (v, w) \<in> edge_rel adj \<Longrightarrow> v < length adj \<and> w < length adj"
  by (auto simp: edge_rel_def wf_adj_def)

text \<open>When no call is active the stack is empty: its oldest node could not be black.\<close>

lemma idle_stack:
  assumes "tarjan_inv adj st" and "t_call st = []"
  shows "t_stack st = []"
proof (rule ccontr)
  assume ne: "t_stack st \<noteq> []"
  define x where "x = arg_min_on (idx st) (set (t_stack st))"
  have x: "x \<in> set (t_stack st)" "\<forall>u \<in> set (t_stack st). idx st x \<le> idx st u"
    using ne arg_min_if_finite(1) [of "set (t_stack st)" "idx st"] arg_min_least [of "set (t_stack st)" _ "idx st"]
    by (auto simp: x_def)
  then show False using assms by (fastforce simp: tarjan_inv_def lows_def)
qed

lemma sorted_inj: "sorted_wrt (\<lambda>u v. f v < f u) xs \<Longrightarrow> x \<in> set xs \<Longrightarrow> y \<in> set xs \<Longrightarrow> f x = f y \<Longrightarrow> x = y"
  for f :: "'a \<Rightarrow> nat"
  by (induction xs) auto

lemma explored_bump:
  assumes "t_call st = (v, child) # rest" and "child < length (adj ! v)" and "shape adj st"
    and "t_call st' = (v, child + 1) # rest" and "t_index st' = t_index st"
  shows "explored adj st' = insert (v, adj ! v ! child) (explored adj st)"
proof -
  have "v \<notin> fst ` set rest" using assms(1,3) by (auto simp: shape_def)
  then show ?thesis
    using assms(1,2,4,5) by (force simp: explored_def take_Suc_conv_app_nth)
qed

lemma top_owner:
  assumes "shape adj st" and "t_call st = (v, child) # rest" and "x \<in> set (t_stack st)" and "idx st v \<le> idx st x"
  shows "owner st g x \<longleftrightarrow> g = v"
proof -
  have v: "v \<in> set (t_stack st)" and top: "\<forall>g \<in> gray st. idx st g \<le> idx st v"
    using assms(1,2) by (auto simp: shape_def intro: less_imp_le)
  have "g = v" if "g \<in> gray st" "idx st g = idx st v" for g
    using assms(1) that v sorted_inj [of "idx st" "t_stack st" g v] by (auto simp: shape_def)
  then show ?thesis using top assms(2,4) by (auto simp: owner_def intro: antisym)
qed

lemma scan_inv:
  assumes inv: "tarjan_inv adj st" and call: "t_call st = (v, child) # rest" and lt: "child < length (adj ! v)"
    and w: "w = adj ! v ! child" "t_index st ! w \<noteq> None" and wf: "wf_adj adj"
    and l: "l \<le> t_low st ! v" "l = t_low st ! v \<or> t_on_stack st ! w \<and> l = idx st w" "t_on_stack st ! w \<longrightarrow> l \<le> idx st w"
    and st': "st' = st\<lparr>t_call := (v, child + 1) # rest, t_low := (t_low st)[v := l]\<rparr>"
  shows "tarjan_inv adj st'"
proof -
  have sh: "shape adj st" using inv by (simp add: tarjan_inv_def)
  have ex: "explored adj st' = insert (v, w) (explored adj st)"
    using explored_bump [OF call lt sh, of st'] by (simp add: st' w)
  have g: "gray st' = gray st" and same: "t_stack st' = t_stack st" "t_index st' = t_index st" by (simp_all add: st' call)
  have own: "owner st' = owner st" by (intro ext) (simp add: owner_def g same)
  have v: "v \<in> set (t_stack st)" "v < length adj" using sh call by (auto simp: shape_def)
  have edge: "(v, w) \<in> edge_rel adj" using v(2) lt by (auto simp: edge_rel_def w)
  have lv: "t_low st' ! x = (if x = v then l else t_low st ! x)" for x
    using v sh by (auto simp: st' shape_def nth_list_update)
  have le: "t_low st' ! x \<le> t_low st ! x" for x using l(1) by (simp add: lv)
  have "shape adj st'" using sh call lt by (auto simp: shape_def st')
  moreover have "links adj st'"
  proof -
    have "t_low st' ! g \<le> idx st y"
      if "x \<in> set (t_stack st)" "y \<in> set (t_stack st)" "(x, y) \<in> insert (v, w) (explored adj st)" "owner st g x" for x y g
    proof (cases "(x, y) = (v, w)")
      case True
      then have "g = v" using top_owner [OF sh call v(1)] that(4) by simp
      then show ?thesis using True that(2) l(3) sh by (auto simp: lv shape_def)
    next
      case False
      then have "t_low st ! g \<le> idx st y" using that inv by (auto simp: tarjan_inv_def links_def)
      then show ?thesis using le [of g] by simp
    qed
    then show ?thesis using inv w(2) unfolding links_def ex own g same tarjan_inv_def by auto
  qed
  moreover have "lows adj st'"
    unfolding lows_def same g
  proof
    fix x assume x: "x \<in> set (t_stack st)"
    have old: "t_low st ! x \<le> idx st x" "\<exists>u \<in> set (t_stack st). idx st u = t_low st ! x \<and> reach adj x u"
      "x \<notin> gray st \<longrightarrow> t_low st ! x < idx st x"
      using inv x by (auto simp: tarjan_inv_def lows_def)
    have "\<exists>u \<in> set (t_stack st). idx st u = t_low st' ! x \<and> reach adj x u"
    proof (cases "x = v \<and> l \<noteq> t_low st ! v")
      case True
      then have "t_on_stack st ! w" "l = idx st w" using l(2) by auto
      moreover then have "w \<in> set (t_stack st)" using sh edge_relD [OF wf edge] by (simp add: shape_def)
      ultimately show ?thesis using True edge lv by auto
    qed (use old(2) lv in auto)
    then show "t_low st' ! x \<le> idx st x \<and> (\<exists>u \<in> set (t_stack st). idx st u = t_low st' ! x \<and> reach adj x u)
        \<and> (x \<notin> gray st \<longrightarrow> t_low st' ! x < idx st x)"
      using old(1,3) le [of x] by auto
  qed
  ultimately show ?thesis using inv by (simp add: tarjan_inv_def st')
qed

lemma sorted_on:
  "\<forall>x \<in> set xs. f x = g x \<Longrightarrow> sorted_wrt (\<lambda>u v. f v < f u) xs \<longleftrightarrow> sorted_wrt (\<lambda>u v. g v < g u) xs"
  for f g :: "'a \<Rightarrow> nat"
  by (induction xs) auto

lemma visit_inv:
  assumes inv: "tarjan_inv adj st" and w: "w < length adj" "t_index st ! w = None"
    and call1: "map fst call1 = map fst (t_call st)" "\<forall>(x, c) \<in> set call1. c \<le> length (adj ! x)"
    and ex: "explored adj (st\<lparr>t_call := call1\<rparr>) \<subseteq> explored adj st \<union> gray st \<times> {w}"
    and tree: "\<forall>g \<in> gray st. reach adj g w"
    and st': "st' = visit w (st\<lparr>t_call := call1\<rparr>)"
  shows "tarjan_inv adj st'"
proof -
  have sh: "shape adj st" using inv by (simp add: tarjan_inv_def)
  have g1: "fst ` set call1 = gray st" using call1(1) by (metis list.set_map)
  have wS: "w \<notin> set (t_stack st)" and nx: "\<forall>x \<in> set (t_stack st). idx st x < t_next st"
    using sh w by (auto simp: shape_def)
  have gS: "gray st \<subseteq> set (t_stack st)" using sh by (simp add: shape_def)
  have i: "t_index st' ! x = (if x = w then Some (t_next st) else t_index st ! x)" for x
    using sh w(1) by (auto simp: st' visit_def shape_def nth_list_update)
  have lw: "t_low st' ! x = (if x = w then t_next st else t_low st ! x)" for x
    using sh w(1) by (auto simp: st' visit_def shape_def nth_list_update)
  have on: "t_on_stack st' ! x = (x = w \<or> t_on_stack st ! x)" for x
    using sh w(1) by (auto simp: st' visit_def shape_def nth_list_update)
  have flds: "t_stack st' = w # t_stack st" "t_call st' = (w, 0) # call1" "t_next st' = t_next st + 1"
    "t_component st' = t_component st" "t_count st' = t_count st" "length (t_index st') = length (t_index st)"
    "length (t_low st') = length (t_low st)" "length (t_on_stack st') = length (t_on_stack st)"
    by (simp_all add: st' visit_def)
  have gray': "gray st' = insert w (gray st)" using g1 flds by simp
  have old: "x \<in> set (t_stack st) \<Longrightarrow> idx st' x = idx st x" for x using wS i by auto
  have push: "sorted_wrt (\<lambda>u v. idx st' v < idx st' u) (w # xs)"
    if "set xs \<subseteq> set (t_stack st)" "sorted_wrt (\<lambda>u v. idx st v < idx st u) xs" for xs
    using that(2) old nx i sorted_on [of xs "idx st'" "idx st"] subsetD [OF that(1)] by simp
  have shape': "shape adj st'"
  proof -
    have "sorted_wrt (\<lambda>u v. idx st' v < idx st' u) (t_stack st')"
      using push [of "t_stack st"] sh by (simp add: flds shape_def)
    moreover have "sorted_wrt (\<lambda>u v. idx st' v < idx st' u) (map fst (t_call st'))"
      using push [of "map fst (t_call st)"] sh by (simp add: flds shape_def call1(1))
    ultimately show ?thesis
      using sh w call1(2) gray' gS nx old i on unfolding shape_def flds by (auto simp: less_SucI)
  qed
  have ex': "explored adj st' \<subseteq> explored adj st \<union> gray st \<times> {w}"
  proof -
    have "explored adj st' \<subseteq> explored adj (st\<lparr>t_call := call1\<rparr>)"
      using g1 gray' by (auto simp: explored_def flds i split: if_splits)
    then show ?thesis using ex by blast
  qed
  have notw: "(w, y) \<notin> explored adj st'" for y
  proof -
    have "w \<notin> gray st" using wS gS by blast
    then have "(w, y) \<notin> explored adj st" using w(2) by (force simp: explored_def)
    then show ?thesis using ex' \<open>w \<notin> gray st\<close> by blast
  qed
  have "links adj st'"
  proof -
    have "t_low st' ! g \<le> idx st' y"
      if "x \<in> set (t_stack st')" "y \<in> set (t_stack st')" "(x, y) \<in> explored adj st'" "owner st' g x" for x y g
    proof -
      have x: "x \<in> set (t_stack st)" using that(1,3) notw flds by auto
      then have gw: "g \<noteq> w" using that(4) nx i old by (fastforce simp: owner_def)
      then have g: "g \<in> gray st" using that(4) gray' by (auto simp: owner_def)
      have own: "owner st g x" using that(4) g x gS old gray' unfolding owner_def by (auto simp: subset_iff)
      show ?thesis
      proof (cases "y = w")
        case True
        have "t_low st ! g \<le> idx st g" using inv g gS by (auto simp: tarjan_inv_def lows_def)
        also have "\<dots> < t_next st" using nx g gS by auto
        finally show ?thesis using True gw i lw by simp
      next
        case False
        then have "y \<in> set (t_stack st)" "(x, y) \<in> explored adj st" using that(2,3) ex' flds by auto
        then show ?thesis using inv own x gw lw old by (auto simp: tarjan_inv_def links_def)
      qed
    qed
    moreover have "reach adj g x" if "g \<in> gray st'" "x \<in> set (t_stack st')" "idx st' g \<le> idx st' x" for g x
    proof (cases "g = w")
      case True
      then have "x = w" using that(2,3) nx old i flds by fastforce
      then show ?thesis using True by simp
    next
      case False
      then have "g \<in> gray st" using that(1) gray' by auto
      then have "reach adj g w" "idx st' g = idx st g" "\<forall>x \<in> set (t_stack st). idx st g \<le> idx st x \<longrightarrow> reach adj g x"
        using tree old gS inv unfolding tarjan_inv_def links_def by blast+
      then show ?thesis using that(2,3) old flds by (cases "x = w") auto
    qed
    moreover have "\<forall>(v, y) \<in> explored adj st'. t_index st' ! y \<noteq> None"
      using ex' inv i by (auto simp: tarjan_inv_def links_def)
    ultimately show ?thesis by (auto simp: links_def)
  qed
  moreover have "lows adj st'"
  proof -
    have "t_low st' ! x \<le> idx st' x \<and> (\<exists>u \<in> set (t_stack st'). idx st' u = t_low st' ! x \<and> reach adj x u)
        \<and> (x \<notin> gray st' \<longrightarrow> t_low st' ! x < idx st' x)" if "x \<in> set (t_stack st')" for x
    proof (cases "x = w")
      case False
      then have x: "x \<in> set (t_stack st)" using that flds by simp
      then obtain u where "u \<in> set (t_stack st)" "idx st u = t_low st ! x" "reach adj x u"
        using inv by (auto simp: tarjan_inv_def lows_def)
      moreover have "t_low st ! x \<le> idx st x" "x \<notin> gray st \<longrightarrow> t_low st ! x < idx st x"
        using inv x by (auto simp: tarjan_inv_def lows_def)
      ultimately show ?thesis using False x old lw flds gray' by auto
    qed (auto simp: lw i flds gray')
    then show ?thesis by (simp add: lows_def)
  qed
  ultimately show ?thesis using shape' inv by (simp add: tarjan_inv_def flds)
qed

section \<open>Finishing a call\<close>

definition returned_low :: "tarjan_state \<Rightarrow> nat \<Rightarrow> (nat \<times> nat) list \<Rightarrow> nat list" where
  "returned_low st v rest = (case rest of [] \<Rightarrow> t_low st
     | (parent, _) # _ \<Rightarrow> (t_low st)[parent := min (t_low st ! parent) (t_low st ! v)])"

lemma explored_finish:
  assumes "t_call st = (v, length (adj ! v)) # rest" and "shape adj st" and "t_call st' = rest" and "t_index st' = t_index st"
  shows "explored adj st' = explored adj st"
proof -
  have "v \<notin> fst ` set rest" "v < length adj" "t_index st ! v \<noteq> None" using assms(1,2) by (auto simp: shape_def)
  then show ?thesis
    using assms(1,3,4) by (force simp: explored_def)
qed

lemma finish_facts:
  assumes inv: "tarjan_inv adj st" and call: "t_call st = (v, child) # rest"
  shows "v \<in> set (t_stack st)" "v < length adj" "v \<notin> fst ` set rest" "\<And>g. g \<in> fst ` set rest \<Longrightarrow> idx st g < idx st v \<and> g \<in> set (t_stack st)"
    "\<And>x. returned_low st v rest ! x = (if rest \<noteq> [] \<and> x = fst (hd rest) then min (t_low st ! x) (t_low st ! v) else t_low st ! x)"
    "\<And>x. x \<in> gray st \<Longrightarrow> idx st v \<le> idx st x \<Longrightarrow> x = v"
    "\<And>x. x \<in> set (t_stack st) \<Longrightarrow> idx st v \<le> idx st x \<Longrightarrow> reach adj v x"
proof -
  have sh: "shape adj st" using inv by (simp add: tarjan_inv_def)
  then show v: "v \<in> set (t_stack st)" "v < length adj" "v \<notin> fst ` set rest" using call by (auto simp: shape_def)
  show g: "\<And>g. g \<in> fst ` set rest \<Longrightarrow> idx st g < idx st v \<and> g \<in> set (t_stack st)"
    using sh call by (auto simp: shape_def)
  show "x \<in> gray st \<Longrightarrow> idx st v \<le> idx st x \<Longrightarrow> x = v" for x using g [of x] call by auto
  show "x \<in> set (t_stack st) \<Longrightarrow> idx st v \<le> idx st x \<Longrightarrow> reach adj v x" for x
    using inv call by (auto simp: tarjan_inv_def links_def)
  show "returned_low st v rest ! x = (if rest \<noteq> [] \<and> x = fst (hd rest) then min (t_low st ! x) (t_low st ! v) else t_low st ! x)" for x
  proof (cases rest)
    case (Cons p ps)
    then have "fst p < length (t_low st)" using g [of "fst p"] sh by (auto simp: shape_def)
    then show ?thesis by (cases p) (simp add: returned_low_def Cons nth_list_update)
  qed (simp add: returned_low_def)
qed

lemma inner_owner:
  assumes "tarjan_inv adj st" and "t_call st = (v, child) # rest" and "t_call st' = rest" and "t_index st' = t_index st"
    and "idx st x < idx st v"
  shows "owner st' g x = owner st g x"
  using assms(2-5) by (auto simp: owner_def)

lemma return_inv:
  assumes inv: "tarjan_inv adj st" and call: "t_call st = (v, length (adj ! v)) # rest"
    and low: "t_low st ! v \<noteq> idx st v"
    and st': "st' = st\<lparr>t_call := rest, t_low := returned_low st v rest\<rparr>"
  shows "tarjan_inv adj st'"
proof -
  have sh: "shape adj st" using inv by (simp add: tarjan_inv_def)
  note ff = finish_facts [OF inv call]
  have ex: "explored adj st' = explored adj st" using explored_finish [OF call sh, of st'] by (simp add: st')
  have gray': "gray st' = fst ` set rest" "gray st = insert v (fst ` set rest)"
    and same: "t_stack st' = t_stack st" "t_index st' = t_index st" "t_low st' = returned_low st v rest" "t_call st' = rest"
    by (simp_all add: st' call)
  have len: "length (returned_low st v rest) = length (t_low st)"
    by (simp add: returned_low_def split: list.split)
  have shape': "shape adj st'" using sh len call by (auto simp: shape_def st')
  have le: "t_low st' ! x \<le> t_low st ! x" for x by (simp add: same ff)
  have vlow: "t_low st ! v < idx st v" using inv low ff(1) by (force simp: tarjan_inv_def lows_def)
  have G: "t_low st ! g \<le> idx st y"
    if "x \<in> set (t_stack st)" "y \<in> set (t_stack st)" "(x, y) \<in> explored adj st" "owner st g x" for x y g
    using inv that unfolding tarjan_inv_def links_def by blast
  have "t_low st' ! g \<le> idx st y"
    if "x \<in> set (t_stack st)" "y \<in> set (t_stack st)" "(x, y) \<in> explored adj st" "owner st' g x" for x y g
  proof (cases "idx st v \<le> idx st x")
    case True
    have "g \<in> fst ` set rest" using that(4) gray' by (simp add: owner_def)
    then obtain p ps where p: "rest = p # ps" by (cases rest) auto
    have "idx st (fst p) \<le> idx st x" using ff(4) [of "fst p"] True p by simp
    then have "g = fst p"
      using top_owner [OF shape', of "fst p" "snd p" ps x g] that(1,4) p by (simp add: same)
    moreover have "t_low st ! v \<le> idx st y" using G [OF that(1-3)] top_owner [OF sh call that(1) True] by blast
    ultimately show ?thesis using p ff(5) [of "fst p"] by (simp add: same(3))
  next
    case False
    then have "owner st g x" using that(4) inner_owner [OF inv call, of st' x g] by (simp add: same)
    then show ?thesis using G [OF that(1-3), of g] le [of g] by linarith
  qed
  then have "links adj st'"
    using inv unfolding links_def ex same tarjan_inv_def gray' by auto
  moreover have "lows adj st'"
    unfolding lows_def same(1,2)
  proof
    fix x assume x: "x \<in> set (t_stack st)"
    have old: "t_low st ! x \<le> idx st x" "\<exists>u \<in> set (t_stack st). idx st u = t_low st ! x \<and> reach adj x u"
      "x \<notin> gray st \<longrightarrow> t_low st ! x < idx st x"
      if "x \<in> set (t_stack st)" for x using inv that by (auto simp: tarjan_inv_def lows_def)
    have "\<exists>u \<in> set (t_stack st). idx st u = t_low st' ! x \<and> reach adj x u"
    proof (cases "t_low st' ! x = t_low st ! x")
      case False
      then have r: "rest \<noteq> []" "x = fst (hd rest)" "t_low st' ! x = t_low st ! v" by (auto simp: same(3) ff(5) split: if_splits)
      then have "x \<in> gray st" "idx st x \<le> idx st v" using ff(4) [of x] gray' by (auto intro: less_imp_le)
      then have "reach adj x v" using inv ff(1) by (auto simp: tarjan_inv_def links_def)
      then show ?thesis using old(2) [OF ff(1)] r(3) by (auto intro: rtrancl_trans)
    qed (use old(2) [OF x] in simp)
    moreover have "t_low st' ! x < idx st x" if "x \<notin> gray st'"
      using that old(3) [OF x] vlow le [of x] gray' by (cases "x = v") auto
    ultimately show "t_low st' ! x \<le> idx st x \<and> (\<exists>u \<in> set (t_stack st). idx st u = t_low st' ! x \<and> reach adj x u)
        \<and> (x \<notin> gray st' \<longrightarrow> t_low st' ! x < idx st x)"
      using old(1) [OF x] le [of x] by auto
  qed
  ultimately show ?thesis using shape' inv by (simp add: tarjan_inv_def st')
qed

section \<open>Closing a component\<close>

lemma pop_component_eq:
  assumes "v \<notin> set xs" and "\<forall>x \<in> set (xs @ [v]). x < length on" and "length cs = length on"
  shows "\<exists>on' cs'. pop_component v k (xs @ v # ys) on cs = Some (ys, on', cs')
    \<and> length on' = length on \<and> length cs' = length cs
    \<and> (\<forall>u. on' ! u = (u \<notin> set (xs @ [v]) \<and> on ! u)) \<and> (\<forall>u. cs' ! u = (if u \<in> set (xs @ [v]) then Some k else cs ! u))"
  using assms
proof (induction xs arbitrary: on cs)
  case Nil
  then show ?case by (auto simp: Let_def nth_list_update)
next
  case (Cons x xs)
  obtain on' cs' where "pop_component v k (xs @ v # ys) (on[x := False]) (cs[x := Some k]) = Some (ys, on', cs')"
    "length on' = length on" "length cs' = length cs"
    "\<forall>u. on' ! u = (u \<notin> set (xs @ [v]) \<and> on[x := False] ! u)"
    "\<forall>u. cs' ! u = (if u \<in> set (xs @ [v]) then Some k else cs[x := Some k] ! u)"
    using Cons.IH [of "on[x := False]" "cs[x := Some k]"] Cons.prems by auto
  then show ?case using Cons.prems by (auto simp: Let_def nth_list_update)
qed

text \<open>The part of the stack that a finishing root takes off.\<close>

definition popped :: "tarjan_state \<Rightarrow> nat \<Rightarrow> nat set" where
  "popped st v = {x \<in> set (t_stack st). idx st v \<le> idx st x}"

abbreviation finished :: "adjacency \<Rightarrow> tarjan_state \<Rightarrow> nat set" where
  "finished adj st \<equiv> {x. x < length adj \<and> t_component st ! x \<noteq> None}"

lemma finished_closed:
  assumes "tarjan_inv adj st" and "wf_adj adj" and "reach adj x y" and "x \<in> finished adj st"
  shows "y \<in> finished adj st"
  using assms(3,4)
proof (induction rule: rtrancl_induct)
  case (step y z)
  then show ?case using assms(1) edge_relD [OF assms(2) step(2)] by (fastforce simp: tarjan_inv_def comps_def)
qed

lemma popped_step:
  assumes inv: "tarjan_inv adj st" and wf: "wf_adj adj" and call: "t_call st = (v, length (adj ! v)) # rest"
    and low: "t_low st ! v = idx st v" and x: "x \<in> popped st v" and e: "(x, y) \<in> edge_rel adj"
  shows "y \<in> popped st v \<union> finished adj st"
proof -
  have sh: "shape adj st" using inv by (simp add: tarjan_inv_def)
  note ff = finish_facts [OF inv call]
  have xS: "x \<in> set (t_stack st)" "idx st v \<le> idx st x" using x by (auto simp: popped_def)
  have "(x, y) \<in> explored adj st"
  proof (cases "x \<in> gray st")
    case True
    then have "x = v" using ff(6) xS(2) by blast
    then show ?thesis using e call by (auto simp: explored_def edge_rel_def)
  next
    case False
    then show ?thesis using e xS(1) sh by (auto simp: explored_def edge_rel_def shape_def)
  qed
  moreover from this have "t_index st ! y \<noteq> None" using inv by (auto simp: tarjan_inv_def links_def)
  then have "y \<in> set (t_stack st) \<or> y \<in> finished adj st"
    using sh edge_relD [OF wf e] by (auto simp: shape_def)
  ultimately show ?thesis
    using inv xS top_owner [OF sh call xS(1,2)] low unfolding tarjan_inv_def links_def popped_def by force
qed

lemma popped_closed:
  assumes "tarjan_inv adj st" and "wf_adj adj" and "t_call st = (v, length (adj ! v)) # rest" and "t_low st ! v = idx st v"
    and "reach adj x y" and "x \<in> popped st v"
  shows "y \<in> popped st v \<union> finished adj st"
  using assms(5,6)
proof (induction rule: rtrancl_induct)
  case (step y z)
  then consider "y \<in> popped st v" | "y \<in> finished adj st" by blast
  then show ?case
  proof cases
    case 1
    then show ?thesis using popped_step [OF assms(1-4)] step(2) by blast
  next
    case 2
    then show ?thesis using finished_closed [OF assms(1,2) r_into_rtrancl [OF step(2)]] by blast
  qed
qed simp

lemma popped_not_finished:
  "tarjan_inv adj st \<Longrightarrow> x \<in> popped st v \<Longrightarrow> x < length adj \<and> x \<notin> finished adj st"
  by (auto simp: tarjan_inv_def shape_def popped_def)

lemma popped_reaches:
  assumes inv: "tarjan_inv adj st" and "wf_adj adj" and call: "t_call st = (v, length (adj ! v)) # rest"
    and low: "t_low st ! v = idx st v" and "x \<in> popped st v"
  shows "reach adj x v \<and> reach adj v x"
proof
  note ff = finish_facts [OF inv call]
  show "reach adj v x" using assms(5) ff(7) by (simp add: popped_def)
  show "reach adj x v" using assms(5)
  proof (induction "idx st x" arbitrary: x rule: less_induct)
    case less
    show ?case
    proof (cases "x = v")
      case False
      have xS: "x \<in> set (t_stack st)" "idx st v \<le> idx st x" using less.prems by (auto simp: popped_def)
      then have "x \<notin> gray st" using ff(6) False by blast
      then obtain u where u: "u \<in> set (t_stack st)" "idx st u < idx st x" "reach adj x u"
        using inv xS(1) unfolding tarjan_inv_def lows_def by metis
      then have "u \<in> popped st v"
        using popped_closed [OF assms(1-4) u(3) less.prems] inv by (auto simp: tarjan_inv_def shape_def)
      then show ?thesis using less.hyps [OF u(2)] u(3) by simp
    qed simp
  qed
qed

lemma comps_close:
  assumes inv: "tarjan_inv adj st" and wf: "wf_adj adj" and call: "t_call st = (v, length (adj ! v)) # rest"
    and low: "t_low st ! v = idx st v"
    and cs': "\<forall>u. cs' ! u = (if u \<in> popped st v then Some (t_count st) else t_component st ! u)"
  shows "comps adj cs' (t_count st + 1)"
proof -
  let ?S = "popped st v" and ?cs = "t_component st" and ?k = "t_count st"
  note c = inv [unfolded tarjan_inv_def comps_def]
  have small: "the (?cs ! x) < ?k" if "x \<in> finished adj st" for x using c that by auto
  have vS: "v \<in> ?S" "v < length adj" using finish_facts(1,2) [OF inv call] by (auto simp: popped_def)
  have sep: "x \<notin> ?S" if "x \<in> finished adj st" for x using that popped_not_finished [OF inv] by blast
  have fin: "x \<in> ?S \<or> x \<in> finished adj st" if "cs' ! x \<noteq> None" "x < length adj" for x
    using that cs' by auto
  have "cs' ! y \<noteq> None \<and> the (cs' ! y) \<le> the (cs' ! x)" if e: "(x, y) \<in> edge_rel adj" and x: "cs' ! x \<noteq> None" for x y
  proof (cases "x \<in> ?S")
    case True
    then have "y \<in> ?S \<or> y \<in> finished adj st" using popped_step [OF inv wf call low True e] by blast
    then show ?thesis using True cs' small [of y] by (auto simp: less_imp_le)
  next
    case False
    then have "x \<in> finished adj st" using fin x edge_relD [OF wf e] by blast
    moreover then have "y \<in> finished adj st" by (rule finished_closed [OF inv wf r_into_rtrancl [OF e]])
    ultimately show ?thesis using sep cs' e c by fastforce
  qed
  moreover have "cs' ! x = cs' ! y \<longleftrightarrow> reach adj x y \<and> reach adj y x"
    if "x < length adj" "y < length adj" "cs' ! x \<noteq> None" "cs' ! y \<noteq> None" for x y
  proof -
    have far: "cs' ! a \<noteq> cs' ! b \<and> \<not> reach adj b a" if "a \<in> ?S" "b \<in> finished adj st" for a b
      using that cs' small [of b] sep finished_closed [OF inv wf, of b a] popped_not_finished [OF inv that(1)] by auto
    have near: "cs' ! a = cs' ! b \<and> reach adj a b" if "a \<in> ?S" "b \<in> ?S" for a b
      using that cs' popped_reaches [OF inv wf call low] by (auto intro: rtrancl_trans)
    have "x \<in> ?S \<or> x \<in> finished adj st" "y \<in> ?S \<or> y \<in> finished adj st" using fin that by auto
    then consider "x \<in> ?S" "y \<in> ?S" | "x \<in> ?S" "y \<in> finished adj st" | "x \<in> finished adj st" "y \<in> ?S"
      | "x \<in> finished adj st" "y \<in> finished adj st" by blast
    then show ?thesis
    proof cases
      case 1
      then show ?thesis using near by blast
    next
      case 2
      then show ?thesis using far [of x y] by blast
    next
      case 3
      then show ?thesis using far [of y x] by fastforce
    next
      case 4
      then have "cs' ! x = ?cs ! x" "cs' ! y = ?cs ! y" using sep cs' by auto
      then show ?thesis using c 4 by auto
    qed
  qed
  moreover have "j < ?k + 1 \<longleftrightarrow> (\<exists>x < length adj. cs' ! x = Some j)" for j
  proof -
    have k: "j < ?k \<longleftrightarrow> (\<exists>x < length adj. ?cs ! x = Some j)" using c by blast
    show ?thesis
    proof (cases "j = ?k")
      case True
      then show ?thesis using cs' vS by auto
    next
      case False
      then have "cs' ! x = Some j \<longleftrightarrow> ?cs ! x = Some j" if "x < length adj" for x
        using that cs' sep [of x] by auto
      then show ?thesis using k False by auto
    qed
  qed
  ultimately show ?thesis unfolding comps_def by blast
qed

lemma close_inv:
  assumes inv: "tarjan_inv adj st" and wf: "wf_adj adj" and call: "t_call st = (v, length (adj ! v)) # rest"
    and low: "t_low st ! v = idx st v"
  shows "\<exists>ys on' cs'. pop_component v (t_count st) (t_stack st) (t_on_stack st) (t_component st) = Some (ys, on', cs')
    \<and> tarjan_inv adj (st\<lparr>t_call := rest, t_low := returned_low st v rest, t_stack := ys, t_on_stack := on',
         t_component := cs', t_count := t_count st + 1\<rparr>)"
proof -
  have sh: "shape adj st" using inv by (simp add: tarjan_inv_def)
  note ff = finish_facts [OF inv call]
  obtain xs ys where split: "t_stack st = xs @ v # ys" using ff(1) by (meson split_list)
  have srt: "sorted_wrt (\<lambda>u v. idx st v < idx st u) (xs @ v # ys)" using sh split by (simp add: shape_def)
  then have S: "set (xs @ [v]) = popped st v" "v \<notin> set xs" "set ys = {x \<in> set (t_stack st). idx st x < idx st v}"
    unfolding popped_def split by (auto simp: sorted_wrt_append)
  have "\<forall>x \<in> set (xs @ [v]). x < length (t_on_stack st)" using sh split by (auto simp: shape_def)
  then obtain on' cs' where pop: "pop_component v (t_count st) (t_stack st) (t_on_stack st) (t_component st) = Some (ys, on', cs')"
    and len: "length on' = length adj" "length cs' = length adj"
    and on': "\<forall>u. on' ! u = (u \<notin> popped st v \<and> t_on_stack st ! u)"
    and cs': "\<forall>u. cs' ! u = (if u \<in> popped st v then Some (t_count st) else t_component st ! u)"
    using pop_component_eq [OF S(2), of "t_on_stack st" "t_component st" "t_count st" ys] sh
    unfolding split S(1) by (auto simp: shape_def)
  define st' where "st' = st\<lparr>t_call := rest, t_low := returned_low st v rest, t_stack := ys, t_on_stack := on',
         t_component := cs', t_count := t_count st + 1\<rparr>"
  have flds: "t_stack st' = ys" "t_call st' = rest" "t_index st' = t_index st" "t_low st' = returned_low st v rest"
    "t_next st' = t_next st" by (simp_all add: st'_def)
  have lw: "t_low st' ! x = t_low st ! x" for x
  proof -
    have "t_low st ! fst p < t_low st ! v" if "rest = p # ps" for p ps
      using ff(4) [of "fst p"] that low inv by (fastforce simp: tarjan_inv_def lows_def)
    then show ?thesis using ff(5) [of x] by (cases rest) (auto simp: flds min_def)
  qed
  have ex: "explored adj st' = explored adj st" using explored_finish [OF call sh, of st'] by (simp add: flds)
  have ys: "\<forall>u. u \<in> set ys \<longleftrightarrow> u < length adj \<and> on' ! u"
    using S(3) sh on' by (auto simp: shape_def popped_def)
  have seen: "t_index st ! u \<noteq> None \<longleftrightarrow> on' ! u \<or> cs' ! u \<noteq> None" "on' ! u \<longrightarrow> cs' ! u = None" if "u < length adj" for u
    using that sh on' cs' popped_not_finished [OF inv, of u v] by (auto simp: shape_def popped_def)
  have "shape adj st'"
  proof -
    have "sorted_wrt (\<lambda>u v. idx st v < idx st u) ys" "\<forall>u \<in> set ys. idx st u < t_next st"
      using srt sh S(3) by (auto simp: sorted_wrt_append shape_def)
    moreover have "sorted_wrt (\<lambda>u v. idx st v < idx st u) (map fst rest)" "\<forall>(u, c) \<in> set rest. c \<le> length (adj ! u)"
      "length (t_index st) = length adj" "length (t_low st) = length adj"
      using sh call by (auto simp: shape_def)
    moreover have "fst ` set rest \<subseteq> set ys" using ff(4) S(3) by auto
    moreover have "length (returned_low st v rest) = length (t_low st)" by (simp add: returned_low_def split: list.split)
    ultimately show ?thesis
      unfolding shape_def using len ys seen by (simp add: st'_def)
  qed
  moreover have "links adj st'"
  proof -
    have "t_low st ! g \<le> idx st y" if "x \<in> set ys" "y \<in> set ys" "(x, y) \<in> explored adj st" "owner st' g x" for x y g
      using that inv inner_owner [OF inv call, of st' x g] S(3) flds by (auto simp: tarjan_inv_def links_def)
    then show ?thesis using inv S(3) call unfolding links_def ex flds(1-3) lw tarjan_inv_def by auto
  qed
  moreover have "lows adj st'"
    unfolding lows_def flds(1-3) lw
  proof
    fix x assume "x \<in> set ys"
    then have x: "x \<in> set (t_stack st)" "idx st x < idx st v" using S(3) by auto
    then have "t_low st ! x \<le> idx st x" "\<exists>u \<in> set (t_stack st). idx st u = t_low st ! x \<and> reach adj x u"
        "x \<notin> gray st \<longrightarrow> t_low st ! x < idx st x"
      using inv by (auto simp: tarjan_inv_def lows_def)
    then show "t_low st ! x \<le> idx st x \<and> (\<exists>u \<in> set ys. idx st u = t_low st ! x \<and> reach adj x u)
        \<and> (x \<notin> fst ` set rest \<longrightarrow> t_low st ! x < idx st x)"
      using x S(3) call by force
  qed
  moreover have "comps adj (t_component st') (t_count st')"
    using comps_close [OF inv wf call low cs'] by (simp add: st'_def)
  ultimately show ?thesis using pop by (auto simp: tarjan_inv_def st'_def)
qed

section \<open>The loop ends and its result is right\<close>

lemma tarjan_step_inv:
  assumes inv: "tarjan_inv adj st" and wf: "wf_adj adj" and "t_call st \<noteq> []"
  shows "\<exists>st'. tarjan_step adj st = Some st' \<and> tarjan_inv adj st'"
proof -
  obtain v child rest where call: "t_call st = (v, child) # rest" using assms(3) by (cases "t_call st") auto
  note ff = finish_facts [OF inv call]
  have sh: "shape adj st" using inv by (simp add: tarjan_inv_def)
  show ?thesis
  proof (cases "child < length (adj ! v)")
    case lt: True
    let ?w = "adj ! v ! child"
    have e: "(v, ?w) \<in> edge_rel adj" using lt ff(2) by (simp add: edge_rel_def)
    show ?thesis
    proof (cases "t_index st ! ?w = None")
      case True
      have "explored adj (st\<lparr>t_call := (v, child + 1) # rest\<rparr>) \<subseteq> explored adj st \<union> gray st \<times> {?w}"
        using explored_bump [OF call lt sh, of "st\<lparr>t_call := (v, child + 1) # rest\<rparr>"] call by auto
      moreover have "\<forall>g \<in> gray st. reach adj g ?w"
      proof
        fix g assume "g \<in> gray st"
        then have "reach adj g v" using inv ff(1,4) call by (fastforce simp: tarjan_inv_def links_def)
        then show "reach adj g ?w" using e by (rule rtrancl_into_rtrancl)
      qed
      ultimately have "tarjan_inv adj (visit ?w (st\<lparr>t_call := (v, child + 1) # rest\<rparr>))"
        using call lt sh edge_relD [OF wf e] True by (intro visit_inv [OF inv _ True _ _ _ _ refl]) (auto simp: shape_def)
      then show ?thesis using True lt call by (simp add: tarjan_step_def Let_def)
    next
      case False
      define l where "l = (if t_on_stack st ! ?w then min (t_low st ! v) (idx st ?w) else t_low st ! v)"
      have "tarjan_inv adj (st\<lparr>t_call := (v, child + 1) # rest, t_low := (t_low st)[v := l]\<rparr>)"
        by (rule scan_inv [OF inv call lt refl False wf _ _ _ refl]) (auto simp: l_def)
      then show ?thesis using False lt call by (auto simp: tarjan_step_def Let_def l_def)
    qed
  next
    case False
    then have call': "t_call st = (v, length (adj ! v)) # rest" using sh call by (auto simp: shape_def)
    have low1: "returned_low st v rest ! v = t_low st ! v" using ff(3) ff(5) [of v] by (cases rest) auto
    have ix: "t_index st ! v = Some (idx st v)" using sh ff(1) by (auto simp: shape_def)
    show ?thesis
    proof (cases "t_low st ! v = idx st v")
      case True
      then show ?thesis
        using close_inv [OF inv wf call' True] low1 ix call'
        by (auto simp: tarjan_step_def Let_def returned_low_def [symmetric])
    next
      case F: False
      then show ?thesis
        using return_inv [OF inv call' F refl] low1 ix call'
        by (auto simp: tarjan_step_def Let_def returned_low_def [symmetric])
    qed
  qed
qed

text \<open>
  What is left to do: two units for every node not yet seen and one for each of its edges, and one
  unit for each active call and one for each edge the call has still to look at.
\<close>

definition unseen :: "adjacency \<Rightarrow> tarjan_state \<Rightarrow> nat set" where
  "unseen adj st = {w. w < length adj \<and> t_index st ! w = None}"

definition work_left :: "adjacency \<Rightarrow> tarjan_state \<Rightarrow> nat" where
  "work_left adj st = (\<Sum>w \<in> unseen adj st. length (adj ! w) + 2) + (\<Sum>(v, c) \<leftarrow> t_call st. length (adj ! v) - c + 1)"

lemma finite_unseen [simp]: "finite (unseen adj st)"
  by (simp add: unseen_def)

lemma unseen_bound: "unseen adj st \<subseteq> {0..<length adj}"
  by (auto simp: unseen_def)

lemma unseen_visit:
  assumes "shape adj st" and "w < length adj" and "t_index st ! w = None"
  shows "unseen adj (visit w (st\<lparr>t_call := cl\<rparr>)) = unseen adj st - {w}" and "w \<in> unseen adj st"
  using assms by (auto simp: unseen_def visit_def shape_def nth_list_update)

lemma unseen_same: "t_index st' = t_index st \<Longrightarrow> unseen adj st' = unseen adj st"
  by (simp add: unseen_def)

lemma tarjan_step_progress:
  assumes inv: "tarjan_inv adj st" and wf: "wf_adj adj" and "t_call st \<noteq> []" and step: "tarjan_step adj st = Some st'"
  shows "work_left adj st' < work_left adj st \<and> unseen adj st' \<subseteq> unseen adj st"
proof -
  obtain v child rest where call: "t_call st = (v, child) # rest" using assms(3) by (cases "t_call st") auto
  have sh: "shape adj st" using inv by (simp add: tarjan_inv_def)
  show ?thesis
  proof (cases "child < length (adj ! v)")
    case lt: True
    let ?w = "adj ! v ! child"
    have w: "?w < length adj" using lt wf finish_facts(2) [OF inv call] by (simp add: wf_adj_def)
    show ?thesis
    proof (cases "t_index st ! ?w = None")
      case True
      then have st': "st' = visit ?w (st\<lparr>t_call := (v, child + 1) # rest\<rparr>)"
        using step lt by (simp add: tarjan_step_def call Let_def)
      note uv = unseen_visit [OF sh w True]
      have "t_call st' = (?w, 0) # (v, child + 1) # rest" by (simp add: st' visit_def)
      moreover have u: "unseen adj st' = unseen adj st - {?w}" using uv(1) st' by simp
      ultimately show ?thesis
        using sum.remove [OF finite_unseen uv(2), of "\<lambda>w. length (adj ! w) + 2"] lt
        by (auto simp: work_left_def call)
    next
      case False
      then have "t_index st' = t_index st" "t_call st' = (v, child + 1) # rest"
        using step lt by (auto simp: tarjan_step_def call Let_def split: if_splits)
      then show ?thesis using lt by (simp add: work_left_def unseen_same [of st' st] call)
    qed
  next
    case False
    then have "t_index st' = t_index st \<and> t_call st' = rest"
      using step
      by (cases "t_index st ! v = Some (returned_low st v rest ! v)")
        (auto simp: tarjan_step_def call Let_def Option.bind_eq_Some_conv returned_low_def [symmetric])
    then show ?thesis by (simp add: work_left_def unseen_same [of st' st] call)
  qed
qed

lemma tarjan_loop_returns:
  assumes "tarjan_inv adj st" and "wf_adj adj"
  shows "\<exists>st'. tarjan_loop adj st = Some st' \<and> tarjan_inv adj st' \<and> t_call st' = [] \<and> unseen adj st' \<subseteq> unseen adj st"
  using assms(1)
proof (induction "work_left adj st" arbitrary: st rule: less_induct)
  case less
  show ?case
  proof (cases "t_call st = []")
    case True
    then show ?thesis using less.prems by (subst tarjan_loop.simps) simp
  next
    case False
    then obtain st1 where st1: "tarjan_step adj st = Some st1" "tarjan_inv adj st1"
      using tarjan_step_inv [OF less.prems assms(2)] by blast
    note p = tarjan_step_progress [OF less.prems assms(2) False st1(1)]
    then show ?thesis using less.hyps [OF _ st1(2)] st1(1) False by (subst tarjan_loop.simps) auto
  qed
qed

lemma tarjan_roots_returns:
  assumes "tarjan_inv adj st" and "wf_adj adj" and "t_call st = []" and "\<forall>r \<in> set rs. r < length adj"
  shows "\<exists>st'. tarjan_roots adj rs st = Some st' \<and> tarjan_inv adj st' \<and> t_call st' = []
    \<and> unseen adj st' \<subseteq> unseen adj st \<and> unseen adj st' \<inter> set rs = {}"
  using assms(1,3,4)
proof (induction rs arbitrary: st)
  case (Cons r rs)
  show ?case
  proof (cases "t_index st ! r = None")
    case False
    then have "r \<notin> unseen adj st" by (simp add: unseen_def)
    then show ?thesis using Cons.IH [OF Cons.prems(1,2)] Cons.prems(3) False by auto
  next
    case True
    have same: "st\<lparr>t_call := []\<rparr> = st" using Cons.prems(2) by simp
    have r: "r < length adj" using Cons.prems(3) by simp
    have "tarjan_inv adj (visit r st)"
      by (rule visit_inv [OF Cons.prems(1) r True, of "[]"]) (use Cons.prems(2) in \<open>auto simp: same\<close>)
    then obtain st1 where st1: "tarjan_loop adj (visit r st) = Some st1" "tarjan_inv adj st1" "t_call st1 = []"
      "unseen adj st1 \<subseteq> unseen adj (visit r st)"
      using tarjan_loop_returns [OF _ assms(2)] by blast
    moreover have "unseen adj (visit r st) = unseen adj st - {r}"
      using unseen_visit(1) [OF _ r True, of "[]"] Cons.prems(1) by (simp add: same tarjan_inv_def)
    ultimately have less: "unseen adj st1 \<subseteq> unseen adj st - {r}" by simp
    obtain st2 where "tarjan_roots adj rs st1 = Some st2" "tarjan_inv adj st2" "t_call st2 = []"
      "unseen adj st2 \<subseteq> unseen adj st1" "unseen adj st2 \<inter> set rs = {}"
      using Cons.IH [OF st1(2,3)] Cons.prems(3) by auto
    then show ?thesis using True st1(1) less by (intro exI [of _ st2]) auto
  qed
qed simp

lemma t_call_init: "t_call (init_state n) = []"
  by (simp add: init_state_def)

lemma tarjan_result:
  assumes "wf_adj adj"
  shows "\<exists>s. tarjan adj = Some s \<and> length (component s) = length adj
    \<and> comps adj (map Some (component s)) (scc_count s)"
proof -
  obtain st where st: "tarjan_roots adj [0..<length adj] (init_state (length adj)) = Some st" "tarjan_inv adj st"
    "t_call st = []" "unseen adj st = {}"
    using tarjan_roots_returns [OF init_inv assms t_call_init, of "[0..<length adj]"] unseen_bound [of adj]
    by (metis atLeastLessThan_iff inf.absorb1 set_upt)
  have sh: "shape adj st" using st(2) by (simp add: tarjan_inv_def)
  then have "t_component st ! v \<noteq> None" if "v < length adj" for v
    using idle_stack [OF st(2,3)] st(4) that by (auto simp: shape_def unseen_def)
  moreover have len: "length (t_component st) = length adj" using sh by (simp add: shape_def)
  ultimately have "map Some (map the (t_component st)) = t_component st" by (intro nth_equalityI) auto
  then show ?thesis using st(1,2) len by (simp add: tarjan_def tarjan_inv_def)
qed

lemma comps_total:
  "comps adj (map Some cs) k \<Longrightarrow> length cs = length adj \<Longrightarrow>
     set cs = {0..<k} \<and> (\<forall>v < length adj. \<forall>w < length adj. cs ! v = cs ! w \<longleftrightarrow> reach adj v w \<and> reach adj w v)"
  unfolding comps_def by (force simp: set_conv_nth)

lemma comps_edges:
  "comps adj (map Some cs) k \<Longrightarrow> length cs = length adj \<Longrightarrow> wf_adj adj \<Longrightarrow> (v, w) \<in> edge_rel adj \<Longrightarrow> cs ! w \<le> cs ! v"
  using edge_relD [of adj v w] by (fastforce simp: comps_def)

text \<open>
  C6. For every graph whose edges stay inside it, the loop of \<open>tarjan\<close> ends and its \<open>expect\<close> never
  fires; the component ids are exactly the numbers below the count, two nodes have the same id
  exactly when each reaches the other, and ids never grow along an edge (the order is reverse
  topological).
\<close>

theorem tarjan_finds_the_components:
  assumes "wf_adj adj"
  shows "\<exists>s. tarjan adj = Some s \<and> length (component s) = length adj \<and> set (component s) = {0..<scc_count s}
    \<and> (\<forall>v < length adj. \<forall>w < length adj. component s ! v = component s ! w \<longleftrightarrow> reach adj v w \<and> reach adj w v)
    \<and> (\<forall>(v, w) \<in> edge_rel adj. component s ! w \<le> component s ! v)"
  using tarjan_result [OF assms] comps_total comps_edges [OF _ _ assms] by fastforce

theorem tarjan_finds_the_components_witness:
  "\<exists>s. tarjan [[1], [2], [1, 3], []] = Some s \<and> component s ! 1 = component s ! 2"
proof -
  have wf: "wf_adj [[1], [2], [1, 3], []]" by (auto simp: wf_adj_def nth_Cons split: nat.splits)
  have "(1, 2) \<in> edge_rel [[1], [2], [1, 3], []]" "(2, 1) \<in> edge_rel [[1], [2], [1, 3], []]"
    by (simp_all add: edge_rel_def)
  then have "reach [[1], [2], [1, 3], []] 1 2" "reach [[1], [2], [1, 3], []] 2 1" by auto
  then show ?thesis using tarjan_finds_the_components [OF wf] by force
qed

section \<open>Sizes and cycles\<close>

lemma fold_tally:
  "\<forall>c \<in> set cs. c < length ns \<Longrightarrow>
   length (fold (\<lambda>c sizes. sizes[c := sizes ! c + 1]) cs ns) = length ns
   \<and> (\<forall>d < length ns. fold (\<lambda>c sizes. sizes[c := sizes ! c + 1]) cs ns ! d = ns ! d + count_list cs d)"
  for ns :: "nat list"
  by (induction cs arbitrary: ns) (auto simp: nth_list_update)

lemma scc_sizes_count:
  assumes "set (component s) = {0..<scc_count s}" and "d < scc_count s"
  shows "scc_sizes s ! d = card {v. v < length (component s) \<and> component s ! v = d}"
proof -
  have "scc_sizes s ! d = count_list (component s) d"
    using fold_tally [of "component s" "replicate (scc_count s) 0"] assms by (simp add: scc_sizes_def)
  then show ?thesis by (simp add: count_list_eq_length_filter length_filter_conv_card eq_commute conj_commute)
qed

lemma on_cycle:
  "(v, v) \<in> (edge_rel adj)\<^sup>+ \<longleftrightarrow> (v, v) \<in> edge_rel adj \<or> (\<exists>w. w \<noteq> v \<and> reach adj v w \<and> reach adj w v)"
proof
  assume "(v, v) \<in> (edge_rel adj)\<^sup>+"
  then obtain w where "(v, w) \<in> edge_rel adj" "reach adj w v" by (meson tranclD)
  then show "(v, v) \<in> edge_rel adj \<or> (\<exists>w. w \<noteq> v \<and> reach adj v w \<and> reach adj w v)"
    by (cases "w = v") auto
next
  assume "(v, v) \<in> edge_rel adj \<or> (\<exists>w. w \<noteq> v \<and> reach adj v w \<and> reach adj w v)"
  then show "(v, v) \<in> (edge_rel adj)\<^sup>+"
  proof
    assume "\<exists>w. w \<noteq> v \<and> reach adj v w \<and> reach adj w v"
    then obtain w where "(v, w) \<in> (edge_rel adj)\<^sup>+" "reach adj w v" by (auto simp: rtrancl_eq_or_trancl)
    then show ?thesis by (rule trancl_rtrancl_trancl)
  qed blast
qed

lemma big_component:
  assumes s: "comps adj (map Some cs) k" "length cs = length adj" and wf: "wf_adj adj" and v: "v < length adj"
  shows "1 < card {w. w < length adj \<and> cs ! w = cs ! v} \<longleftrightarrow> (\<exists>w. w \<noteq> v \<and> reach adj v w \<and> reach adj w v)"
proof -
  let ?S = "{w. w < length adj \<and> cs ! w = cs ! v}"
  have "1 < card ?S \<longleftrightarrow> (\<exists>w \<in> ?S. w \<noteq> v)"
  proof
    assume "1 < card ?S"
    then have "\<not> ?S \<subseteq> {v}" using card_mono [of "{v}" ?S] by auto
    then show "\<exists>w \<in> ?S. w \<noteq> v" by blast
  next
    assume "\<exists>w \<in> ?S. w \<noteq> v"
    then obtain w where "{v, w} \<subseteq> ?S" "w \<noteq> v" using v by blast
    then show "1 < card ?S" using card_mono [of ?S "{v, w}"] by simp
  qed
  moreover have "w < length adj" if "reach adj v w" for w
    using that v edge_relD [OF wf] by (induction rule: rtrancl_induct) auto
  ultimately show ?thesis using comps_total [OF s] v by auto
qed

lemma cyclic_nodes_exact:
  assumes wf: "wf_adj adj" and s: "tarjan adj = Some s"
  shows "cyclic_nodes s adj = filter (\<lambda>v. (v, v) \<in> (edge_rel adj)\<^sup>+) [0..<length adj]"
proof -
  have r: "length (component s) = length adj" "comps adj (map Some (component s)) (scc_count s)"
    using tarjan_result [OF wf] s by auto
  have "scc_sizes s ! (component s ! v) > 1 \<or> v \<in> set (adj ! v) \<longleftrightarrow> (v, v) \<in> (edge_rel adj)\<^sup>+" if "v < length adj" for v
  proof -
    have set: "set (component s) = {0..<scc_count s}" using comps_total [OF r(2,1)] by simp
    then have "component s ! v < scc_count s" using that r(1) nth_mem [of v "component s"] by auto
    moreover have self: "(v, v) \<in> edge_rel adj \<longleftrightarrow> v \<in> set (adj ! v)" using that by (simp add: edge_rel_def)
    ultimately show ?thesis
      using big_component [OF r(2,1) wf that] scc_sizes_count [OF set] that r(1)
      by (auto simp: on_cycle self)
  qed
  then show ?thesis unfolding cyclic_nodes_def r(1) by (intro filter_cong) auto
qed

section \<open>Layers\<close>

lemma fold_nested: "fold (\<lambda>x. fold f (g x)) xs a = fold f (concat (map g xs)) a"
  by (induction xs arbitrary: a) simp_all

lemma rank_targets:
  fixes rank :: "nat list"
  assumes "\<forall>w \<in> set ws. cs ! w < length rank"
  shows "length (fold (\<lambda>w rank. let cw = cs ! w in if cw \<noteq> c then rank[cw := max (rank ! cw) (rank ! c + 1)] else rank) ws rank) = length rank
    \<and> (\<forall>d. fold (\<lambda>w rank. let cw = cs ! w in if cw \<noteq> c then rank[cw := max (rank ! cw) (rank ! c + 1)] else rank) ws rank ! d
        = (if d \<noteq> c \<and> d \<in> (\<lambda>w. cs ! w) ` set ws then max (rank ! d) (rank ! c + 1) else rank ! d))"
  using assms
proof (induction ws arbitrary: rank)
  case (Cons w ws)
  show ?case
  proof (cases "cs ! w = c")
    case True
    then show ?thesis using Cons.IH [of rank] Cons.prems by (auto simp: Let_def)
  next
    case False
    then show ?thesis
      using Cons.IH [of "rank[cs ! w := max (rank ! (cs ! w)) (rank ! c + 1)]"] Cons.prems
      by (auto simp: Let_def nth_list_update max.assoc)
  qed
qed simp

lemma rank_step_nth:
  assumes "length cs = length adj" and "\<forall>(v, w) \<in> edge_rel adj. cs ! w < length rank"
  shows "length (rank_step adj cs c rank) = length rank
    \<and> (\<forall>d. rank_step adj cs c rank ! d = (if d \<noteq> c \<and> (\<exists>(v, w) \<in> edge_rel adj. cs ! v = c \<and> cs ! w = d)
                                       then max (rank ! d) (rank ! c + 1) else rank ! d))"
proof -
  let ?ws = "concat (map (\<lambda>v. adj ! v) (filter (\<lambda>v. cs ! v = c) [0..<length cs]))"
  have ws: "set ?ws = {w. \<exists>v. (v, w) \<in> edge_rel adj \<and> cs ! v = c}" using assms(1) by (auto simp: edge_rel_def)
  then have "d \<in> (\<lambda>w. cs ! w) ` set ?ws \<longleftrightarrow> (\<exists>(v, w) \<in> edge_rel adj. cs ! v = c \<and> cs ! w = d)" for d by blast
  moreover have "\<forall>w \<in> set ?ws. cs ! w < length rank" unfolding ws using assms(2) by blast
  ultimately show ?thesis
    using rank_targets [of ?ws cs rank c] unfolding rank_step_def fold_nested by presburger
qed

text \<open>
  The ranks once every component from \<open>m\<close> up has been processed: each edge that leaves one of them
  is respected, and every positive rank is one more than that of such a component with an edge here.
\<close>

definition ranked :: "adjacency \<Rightarrow> nat list \<Rightarrow> nat \<Rightarrow> nat list \<Rightarrow> bool" where
  "ranked adj cs m rank \<longleftrightarrow>
     (\<forall>(v, w) \<in> edge_rel adj. m \<le> cs ! v \<longrightarrow> cs ! v \<noteq> cs ! w \<longrightarrow> rank ! (cs ! v) < rank ! (cs ! w))
     \<and> (\<forall>d < length rank. 0 < rank ! d \<longrightarrow>
          (\<exists>(v, w) \<in> edge_rel adj. m \<le> cs ! v \<and> cs ! w = d \<and> cs ! v \<noteq> d \<and> rank ! d = rank ! (cs ! v) + 1))"

lemma ranked_step:
  assumes len: "length cs = length adj" and lt: "\<forall>(v, w) \<in> edge_rel adj. cs ! w < length rank"
    and desc: "\<forall>(v, w) \<in> edge_rel adj. cs ! w \<le> cs ! v" and r: "ranked adj cs (Suc c) rank"
  shows "ranked adj cs c (rank_step adj cs c rank)"
proof -
  let ?r = "rank_step adj cs c rank"
  note st = rank_step_nth [OF len lt, of c]
  have old: "?r ! d = rank ! d" if "c \<le> d" for d using st desc that by fastforce
  have up: "rank ! d \<le> ?r ! d" for d using st by simp
  have "?r ! (cs ! v) < ?r ! (cs ! w)" if "(v, w) \<in> edge_rel adj" "c \<le> cs ! v" "cs ! v \<noteq> cs ! w" for v w
  proof (cases "cs ! v = c")
    case True
    then have "rank ! c + 1 \<le> ?r ! (cs ! w)" using st that by auto
    then show ?thesis using True old [of c] by simp
  next
    case False
    then have "rank ! (cs ! v) < rank ! (cs ! w)" using r that by (fastforce simp: ranked_def)
    then show ?thesis using old [OF that(2)] up [of "cs ! w"] by simp
  qed
  moreover have "\<exists>(v, w) \<in> edge_rel adj. c \<le> cs ! v \<and> cs ! w = d \<and> cs ! v \<noteq> d \<and> ?r ! d = ?r ! (cs ! v) + 1"
    if d: "d < length rank" "0 < ?r ! d" for d
  proof (cases "?r ! d = rank ! d")
    case True
    then have "\<exists>(v, w) \<in> edge_rel adj. Suc c \<le> cs ! v \<and> cs ! w = d \<and> cs ! v \<noteq> d \<and> rank ! d = rank ! (cs ! v) + 1"
      using r d unfolding ranked_def by auto
    then obtain v w where "(v, w) \<in> edge_rel adj" "Suc c \<le> cs ! v" "cs ! w = d" "cs ! v \<noteq> d" "rank ! d = rank ! (cs ! v) + 1"
      by blast
    then show ?thesis using True old [of "cs ! v"] by (intro bexI [of _ "(v, w)"]) auto
  next
    case False
    then have hit: "d \<noteq> c \<and> (\<exists>(v, w) \<in> edge_rel adj. cs ! v = c \<and> cs ! w = d)" using st by metis
    moreover from this have "?r ! d = rank ! c + 1" using st False by (simp add: max_def split: if_splits)
    ultimately obtain v w where "(v, w) \<in> edge_rel adj" "cs ! v = c" "cs ! w = d" "d \<noteq> c" "?r ! d = rank ! c + 1"
      by blast
    then show ?thesis using old [of c] by (intro bexI [of _ "(v, w)"]) auto
  qed
  moreover have "length ?r = length rank" using st by blast
  ultimately show ?thesis unfolding ranked_def by (simp only:) blast
qed

lemma ranked_all:
  assumes len: "length cs = length adj" and lt: "\<forall>(v, w) \<in> edge_rel adj. cs ! w < length rank"
    and desc: "\<forall>(v, w) \<in> edge_rel adj. cs ! w \<le> cs ! v" and "ranked adj cs m rank"
  shows "ranked adj cs 0 (fold (rank_step adj cs) (rev [0..<m]) rank)
    \<and> length (fold (rank_step adj cs) (rev [0..<m]) rank) = length rank"
  using assms(2,4)
proof (induction m arbitrary: rank)
  case (Suc m)
  then show ?case using ranked_step [OF len _ desc] rank_step_nth [OF len] by simp
qed simp

lemma ranks_of_components:
  assumes wf: "wf_adj adj"
  shows "\<exists>cs k rank. longest_path_ranks adj = Some (map (\<lambda>c. rank ! c) cs) \<and> length cs = length adj
    \<and> comps adj (map Some cs) k \<and> ranked adj cs 0 rank \<and> length rank = k"
proof -
  obtain s where s: "tarjan adj = Some s" "length (component s) = length adj" "comps adj (map Some (component s)) (scc_count s)"
    using tarjan_result [OF wf] by blast
  let ?cs = "component s" and ?k = "scc_count s"
  have lt: "?cs ! v < ?k \<and> ?cs ! w < ?k" if "(v, w) \<in> edge_rel adj" for v w
    using comps_total [OF s(3,2)] edge_relD [OF wf that] s(2) nth_mem [of v ?cs] nth_mem [of w ?cs] by auto
  then have "\<forall>(v, w) \<in> edge_rel adj. ?cs ! w < length (replicate ?k (0::nat))" by auto
  moreover have "\<forall>(v, w) \<in> edge_rel adj. ?cs ! w \<le> ?cs ! v" using comps_edges [OF s(3,2) wf] by blast
  moreover have "ranked adj ?cs ?k (replicate ?k 0)"
    using lt by (auto simp: ranked_def linorder_not_less [symmetric])
  ultimately have "ranked adj ?cs 0 (fold (rank_step adj ?cs) (rev [0..<?k]) (replicate ?k 0))
      \<and> length (fold (rank_step adj ?cs) (rev [0..<?k]) (replicate ?k 0)) = ?k"
    using ranked_all [OF s(2)] by (metis length_replicate)
  then show ?thesis
    using s by (intro exI [of _ ?cs] exI [of _ ?k] exI [of _ "fold (rank_step adj ?cs) (rev [0..<?k]) (replicate ?k 0)"])
      (simp add: longest_path_ranks_def Let_def)
qed

text \<open>
  C24. \<open>longest_path_ranks\<close> returns for every such graph: the nodes of one cycle share a layer, an
  edge that leaves a component goes to a strictly deeper layer, and a layer is never deeper than
  needed, since a node below the first layer has a predecessor component exactly one layer up.
\<close>

theorem layers_are_longest_paths:
  assumes wf: "wf_adj adj"
  shows "\<exists>r. longest_path_ranks adj = Some r \<and> length r = length adj
    \<and> (\<forall>v < length adj. \<forall>w < length adj. reach adj v w \<and> reach adj w v \<longrightarrow> r ! v = r ! w)
    \<and> (\<forall>(v, w) \<in> edge_rel adj. \<not> reach adj w v \<longrightarrow> r ! v < r ! w)
    \<and> (\<forall>w < length adj. 0 < r ! w \<longrightarrow>
         (\<exists>(u, x) \<in> edge_rel adj. reach adj x w \<and> reach adj w x \<and> \<not> reach adj x u \<and> r ! w = r ! u + 1))"
proof -
  obtain cs k rank where r: "longest_path_ranks adj = Some (map (\<lambda>c. rank ! c) cs)" "length cs = length adj"
    "comps adj (map Some cs) k" "ranked adj cs 0 rank" "length rank = k"
    using ranks_of_components [OF wf] by blast
  have same: "cs ! v = cs ! w \<longleftrightarrow> reach adj v w \<and> reach adj w v" if "v < length adj" "w < length adj" for v w
    using comps_total [OF r(3,2)] that by blast
  have edge: "v < length adj" "w < length adj" "cs ! v = cs ! w \<longleftrightarrow> reach adj w v" if "(v, w) \<in> edge_rel adj" for v w
    using edge_relD [OF wf that] same that by auto
  have up: "rank ! (cs ! v) < rank ! (cs ! w)" if "(v, w) \<in> edge_rel adj" "\<not> reach adj w v" for v w
    using r(4) that edge(3) [OF that(1)] by (auto simp: ranked_def)
  have attained: "\<exists>(u, x) \<in> edge_rel adj. reach adj x w \<and> reach adj w x \<and> \<not> reach adj x u \<and> rank ! (cs ! w) = rank ! (cs ! u) + 1"
    if w: "w < length adj" "0 < rank ! (cs ! w)" for w
  proof -
    have "cs ! w < k" using comps_total [OF r(3,2)] w(1) r(2) nth_mem [of w cs] by auto
    then obtain u x where "(u, x) \<in> edge_rel adj" "cs ! x = cs ! w" "cs ! u \<noteq> cs ! w" "rank ! (cs ! w) = rank ! (cs ! u) + 1"
      using r(4,5) w(2) unfolding ranked_def by blast
    then show ?thesis using edge [of u x] same [of x w] w(1) by (intro bexI [of _ "(u, x)"]) auto
  qed
  define r' where "r' = map (\<lambda>c. rank ! c) cs"
  then have nth: "r' ! v = rank ! (cs ! v)" if "v < length adj" for v using that r(2) by simp
  have "r' ! v < r' ! w" if "(v, w) \<in> edge_rel adj" "\<not> reach adj w v" for v w
    using up [OF that] edge(1,2) [OF that(1)] nth by simp
  moreover have "\<exists>(u, x) \<in> edge_rel adj. reach adj x w \<and> reach adj w x \<and> \<not> reach adj x u \<and> r' ! w = r' ! u + 1"
    if "w < length adj" "0 < r' ! w" for w
    using attained [of w] that nth edge(1) by (auto simp: split_beta)
  moreover have "r' ! v = r' ! w" if "v < length adj" "w < length adj" "reach adj v w" "reach adj w v" for v w
    using same [OF that(1,2)] that nth by metis
  moreover have "longest_path_ranks adj = Some r' \<and> length r' = length adj" using r(1,2) by (simp add: r'_def)
  ultimately show ?thesis by (intro exI [of _ r']) blast
qed

theorem layers_are_longest_paths_witness:
  "\<exists>r. longest_path_ranks [[1], [2], [1, 3], []] = Some r \<and> r ! 2 < r ! 3"
proof -
  have wf: "wf_adj [[1], [2], [1, 3], []]" by (auto simp: wf_adj_def nth_Cons split: nat.splits)
  have "(3, 2) \<notin> (edge_rel [[1], [2], [1, 3], []])\<^sup>*"
    by (auto simp: edge_rel_def elim: converse_rtranclE)
  moreover have "(2, 3) \<in> edge_rel [[1], [2], [1, 3], []]" by (simp add: edge_rel_def)
  ultimately show ?thesis using layers_are_longest_paths [OF wf] by blast
qed


section \<open>The cycle report\<close>

lemma adjacency_fold:
  fixes index :: "u32 \<Rightarrow> nat option"
  assumes "\<forall>x i. index x = Some i \<longrightarrow> i < length adj"
  shows "length (fold (\<lambda>(s, t) adj. case (index s, index t) of (Some si, Some ti) \<Rightarrow> adj[si := adj ! si @ [ti]] | _ \<Rightarrow> adj) edges adj) = length adj
    \<and> (\<forall>i < length adj. set (fold (\<lambda>(s, t) adj. case (index s, index t) of (Some si, Some ti) \<Rightarrow> adj[si := adj ! si @ [ti]] | _ \<Rightarrow> adj) edges adj ! i)
        = set (adj ! i) \<union> {j. \<exists>(s, t) \<in> set edges. index s = Some i \<and> index t = Some j})"
  using assms
proof (induction edges arbitrary: adj)
  case (Cons e es)
  obtain s t where e: "e = (s, t)" by force
  show ?case
  proof (cases "index s = None \<or> index t = None")
    case True
    then show ?thesis using Cons.IH [of adj] Cons.prems by (auto simp: e split: option.splits)
  next
    case False
    then obtain si ti where st: "index s = Some si" "index t = Some ti" by auto
    then show ?thesis
      using Cons.IH [of "adj[si := adj ! si @ [ti]]"] Cons.prems by (auto simp: e nth_list_update)
  qed
qed simp

lemma positions:
  assumes "distinct xs"
  shows "map_of (rev (zip xs [0..<length xs])) x = Some i \<longleftrightarrow> i < length xs \<and> xs ! i = x"
proof -
  have "distinct (map fst (rev (zip xs [0..<length xs])))" using assms by (simp add: rev_map [symmetric])
  then have "map_of (rev (zip xs [0..<length xs])) x = Some i \<longleftrightarrow> (x, i) \<in> set (zip xs [0..<length xs])"
    by (simp add: map_of_eq_Some_iff)
  then show ?thesis by (auto simp: set_zip)
qed

lemma positions_bound: "map_of (rev (zip xs [0..<length xs])) x = Some i \<Longrightarrow> i < length xs"
  by (auto dest!: map_of_SomeD simp: set_zip)

lemma directed_adjacency_facts:
  "length (directed_adjacency ids edges) = length ids" "wf_adj (directed_adjacency ids edges)"
  "distinct ids \<Longrightarrow> edge_rel (directed_adjacency ids edges) =
     {(i, j). i < length ids \<and> j < length ids \<and> (ids ! i, ids ! j) \<in> set edges}"
proof -
  note f = adjacency_fold [of "map_of (rev (zip ids [0..<length ids]))" "replicate (length ids) []" edges]
  have b: "\<forall>x i. map_of (rev (zip ids [0..<length ids])) x = Some i \<longrightarrow> i < length ids"
    by (blast dest: positions_bound)
  show len: "length (directed_adjacency ids edges) = length ids"
    using f b by (simp add: directed_adjacency_def Let_def del: map_of_eq_Some_iff)
  have nth: "set (directed_adjacency ids edges ! i) = {j. \<exists>(s, t) \<in> set edges.
      map_of (rev (zip ids [0..<length ids])) s = Some i \<and> map_of (rev (zip ids [0..<length ids])) t = Some j}"
    if "i < length ids" for i
    using f b that by (simp add: directed_adjacency_def Let_def)
  then show "wf_adj (directed_adjacency ids edges)" using positions_bound by (fastforce simp: wf_adj_def len)
  show "edge_rel (directed_adjacency ids edges) =
     {(i, j). i < length ids \<and> j < length ids \<and> (ids ! i, ids ! j) \<in> set edges}" if "distinct ids"
    using nth by (auto simp: edge_rel_def len positions [OF that])
qed

text \<open>Paths between positions are paths between the ids.\<close>

lemma reach_ids:
  assumes "distinct ids" and "i < length ids" and "j < length ids"
  shows "reach (directed_adjacency ids edges) i j \<longleftrightarrow> (ids ! i, ids ! j) \<in> (set edges \<inter> set ids \<times> set ids)\<^sup>*"
proof
  let ?R = "edge_rel (directed_adjacency ids edges)" and ?E = "set edges \<inter> set ids \<times> set ids"
  note R = directed_adjacency_facts(3) [OF assms(1), of edges]
  show "(ids ! i, ids ! j) \<in> ?E\<^sup>*" if "(i, j) \<in> ?R\<^sup>*"
    using that
  proof (induction rule: rtrancl_induct)
    case (step y z)
    then have "(ids ! y, ids ! z) \<in> ?E" unfolding R by auto
    with step.IH show ?case by (rule rtrancl_into_rtrancl)
  qed simp
  have "\<forall>j < length ids. ids ! j = y \<longrightarrow> (i, j) \<in> ?R\<^sup>*" if "(ids ! i, y) \<in> ?E\<^sup>*" for y
    using that
  proof (induction rule: rtrancl_induct)
    case base
    then show ?case using assms by (auto simp: nth_eq_iff_index_eq)
  next
    case (step y z)
    then obtain k where k: "k < length ids" "ids ! k = y" by (auto simp: in_set_conv_nth)
    then have "(i, k) \<in> ?R\<^sup>*" using step.IH by blast
    moreover have "(k, j) \<in> ?R" if "j < length ids" "ids ! j = z" for j
      using that step.hyps(2) k unfolding R by auto
    ultimately show ?case by (blast intro: rtrancl_into_rtrancl)
  qed
  then show "(i, j) \<in> ?R\<^sup>*" if "(ids ! i, ids ! j) \<in> ?E\<^sup>*" using that assms(3) by blast
qed

lemma cycle_ids:
  assumes "distinct ids" and "i < length ids"
  shows "(i, i) \<in> (edge_rel (directed_adjacency ids edges))\<^sup>+ \<longleftrightarrow> (ids ! i, ids ! i) \<in> (set edges \<inter> set ids \<times> set ids)\<^sup>+"
proof -
  note R = directed_adjacency_facts(3) [OF assms(1), of edges]
  have "(\<exists>k. (i, k) \<in> edge_rel (directed_adjacency ids edges) \<and> reach (directed_adjacency ids edges) k i) \<longleftrightarrow>
    (\<exists>x. (ids ! i, x) \<in> set edges \<inter> set ids \<times> set ids \<and> (x, ids ! i) \<in> (set edges \<inter> set ids \<times> set ids)\<^sup>*)"
    using reach_ids [OF assms(1) _ assms(2), of _ edges] assms(2) unfolding R by (auto simp: in_set_conv_nth)
  then show ?thesis by (meson rtrancl_into_trancl2 tranclD)
qed

lemma class_positions:
  assumes "distinct ids" and "v < length ids" and "length cs = length ids"
    and "comps (directed_adjacency ids edges) (map Some cs) k"
  shows "(\<lambda>w. ids ! w) ` {w. w < length ids \<and> cs ! w = cs ! v}
    = {y. (ids ! v, y) \<in> (set edges \<inter> set ids \<times> set ids)\<^sup>* \<and> (y, ids ! v) \<in> (set edges \<inter> set ids \<times> set ids)\<^sup>*}"
proof -
  let ?E = "set edges \<inter> set ids \<times> set ids"
  have in_ids: "y \<in> set ids" if "(ids ! v, y) \<in> ?E\<^sup>*" for y
    using that assms(2) by (induction rule: rtrancl_induct) auto
  have "cs ! w = cs ! v \<longleftrightarrow> (ids ! v, ids ! w) \<in> ?E\<^sup>* \<and> (ids ! w, ids ! v) \<in> ?E\<^sup>*" if "w < length ids" for w
    using comps_total [OF assms(4)] assms(1-3) that reach_ids by (metis directed_adjacency_facts(1))
  then show ?thesis using in_ids by (auto simp: in_set_conv_nth image_iff) (metis in_set_conv_nth in_ids)+
qed

definition cycle_group :: "u32 list \<Rightarrow> nat list \<Rightarrow> nat \<Rightarrow> u32 list" where
  "cycle_group ids cs c = sort (map (\<lambda>v. ids ! v) (filter (\<lambda>v. cs ! v = c) [0..<length cs]))"

lemma cycle_group_facts:
  assumes "distinct ids" and "length cs = length ids"
  shows "sorted (cycle_group ids cs c)" "distinct (cycle_group ids cs c)"
    "set (cycle_group ids cs c) = (\<lambda>w. ids ! w) ` {w. w < length ids \<and> cs ! w = c}"
    "length (cycle_group ids cs c) = card {w. w < length ids \<and> cs ! w = c}"
proof -
  show "sorted (cycle_group ids cs c)" by (simp add: cycle_group_def)
  show "distinct (cycle_group ids cs c)"
    using assms by (auto simp: cycle_group_def distinct_map inj_on_def nth_eq_iff_index_eq)
  show "set (cycle_group ids cs c) = (\<lambda>w. ids ! w) ` {w. w < length ids \<and> cs ! w = c}"
    using assms(2) by (auto simp: cycle_group_def)
  have "length (cycle_group ids cs c) = card (set (filter (\<lambda>v. cs ! v = c) [0..<length cs]))"
    by (subst distinct_card) (simp_all add: cycle_group_def)
  also have "set (filter (\<lambda>v. cs ! v = c) [0..<length cs]) = {w. w < length ids \<and> cs ! w = c}" using assms(2) by auto
  finally show "length (cycle_group ids cs c) = card {w. w < length ids \<and> cs ! w = c}" .
qed

definition cycle_keys :: "nat list \<Rightarrow> nat list \<Rightarrow> nat list" where
  "cycle_keys sizes cs = remdups (filter (\<lambda>c. sizes ! c > 1) cs)"

lemma cycle_report_for_eq:
  assumes "tarjan (directed_adjacency ids edges) = Some s"
  shows "cycle_report_for order ids edges =
    Some \<lparr>cyclic_node_ids = sort (map (\<lambda>v. ids ! v) (cyclic_nodes s (directed_adjacency ids edges))),
          cr_components = sort_key (\<lambda>g. (- int (length g), hd g))
            (map (cycle_group ids (component s)) (order (cycle_keys (scc_sizes s) (component s))))\<rparr>"
  using assms by (simp add: cycle_report_for_def Let_def cycle_keys_def cycle_group_def [abs_def])

lemma big_member: "1 < card {w. P w} \<Longrightarrow> \<exists>v. P v"
  by (rule ccontr) simp

lemma cycle_keys_facts:
  assumes "set (component s) = {0..<scc_count s}"
  shows "set (cycle_keys (scc_sizes s) (component s)) = {c. 1 < card {w. w < length (component s) \<and> component s ! w = c}}"
proof -
  let ?cs = "component s"
  have "scc_sizes s ! c = card {w. w < length ?cs \<and> ?cs ! w = c}" if "c \<in> set ?cs" for c
    using scc_sizes_count [OF assms, of c] assms that by simp
  moreover have "c \<in> set ?cs" if "1 < card {w. w < length ?cs \<and> ?cs ! w = c}" for c
    using big_member [OF that] by auto
  ultimately show ?thesis by (auto simp: cycle_keys_def)
qed

lemma cycle_groups_distinct:
  assumes "distinct ids" and "length cs = length ids" and "distinct keys" and "\<forall>c \<in> set keys. 1 < card {w. w < length ids \<and> cs ! w = c}"
  shows "distinct (map (cycle_group ids cs) keys)"
proof -
  have "inj_on (cycle_group ids cs) (set keys)"
  proof (rule inj_onI)
    fix c d assume c: "c \<in> set keys" and eq: "cycle_group ids cs c = cycle_group ids cs d"
    from big_member [OF bspec [OF assms(4) c]] obtain v where v: "v < length ids" "cs ! v = c" by blast
    then have "ids ! v \<in> (\<lambda>w. ids ! w) ` {w. w < length ids \<and> cs ! w = d}"
      using cycle_group_facts(3) [OF assms(1,2)] eq by (metis (mono_tags, lifting) image_eqI mem_Collect_eq)
    then show "c = d" using v assms(1) by (auto simp: nth_eq_iff_index_eq)
  qed
  then show ?thesis using assms(3) by (simp add: distinct_map)
qed

lemma cycle_groups_set:
  assumes ids: "distinct ids" and cs: "length cs = length ids" "comps (directed_adjacency ids edges) (map Some cs) k"
  defines "E \<equiv> set edges \<inter> set ids \<times> set ids"
  shows "cycle_group ids cs ` {c. 1 < card {w. w < length ids \<and> cs ! w = c}}
    = {g. sorted g \<and> distinct g \<and> 1 < length g \<and> (\<exists>x \<in> set g. set g = {y. (x, y) \<in> E\<^sup>* \<and> (y, x) \<in> E\<^sup>*})}"
proof (intro equalityI subsetI)
  fix g assume "g \<in> cycle_group ids cs ` {c. 1 < card {w. w < length ids \<and> cs ! w = c}}"
  then obtain c where c: "1 < card {w. w < length ids \<and> cs ! w = c}" "g = cycle_group ids cs c" by blast
  from big_member [OF c(1)] obtain v where v: "v < length ids" "cs ! v = c" by blast
  have "set g = {y. (ids ! v, y) \<in> E\<^sup>* \<and> (y, ids ! v) \<in> E\<^sup>*}"
    using class_positions [OF ids v(1) cs] v(2) c(2) cycle_group_facts(3) [OF ids cs(1)] by (simp add: E_def)
  then show "g \<in> {g. sorted g \<and> distinct g \<and> 1 < length g \<and> (\<exists>x \<in> set g. set g = {y. (x, y) \<in> E\<^sup>* \<and> (y, x) \<in> E\<^sup>*})}"
    using c cycle_group_facts [OF ids cs(1), of c] by auto
next
  fix g assume "g \<in> {g. sorted g \<and> distinct g \<and> 1 < length g \<and> (\<exists>x \<in> set g. set g = {y. (x, y) \<in> E\<^sup>* \<and> (y, x) \<in> E\<^sup>*})}"
  then obtain x where g: "sorted g" "distinct g" "1 < length g" "x \<in> set g" "set g = {y. (x, y) \<in> E\<^sup>* \<and> (y, x) \<in> E\<^sup>*}" by blast
  have "\<not> set g \<subseteq> {x}" using g(2,3) card_mono [of "{x}" "set g"] distinct_card [of g] by auto
  then obtain y where "(x, y) \<in> E\<^sup>*" "y \<noteq> x" using g(5) by blast
  then have "x \<in> set ids" by (auto simp: E_def elim: converse_rtranclE)
  then obtain v where v: "v < length ids" "ids ! v = x" by (auto simp: in_set_conv_nth)
  have "set (cycle_group ids cs (cs ! v)) = set g"
    using class_positions [OF ids v(1) cs] v(2) cycle_group_facts(3) [OF ids cs(1)] g(5) by (simp add: E_def)
  then have eq: "cycle_group ids cs (cs ! v) = g"
    using sorted_distinct_set_unique cycle_group_facts(1,2) [OF ids cs(1)] g(1,2) by blast
  then show "g \<in> cycle_group ids cs ` {c. 1 < card {w. w < length ids \<and> cs ! w = c}}"
    using cycle_group_facts(4) [OF ids cs(1), of "cs ! v"] g(3) by auto
qed

text \<open>
  C25. The cycle report of a graph with distinct node ids returns, whatever the iteration order of
  the hash map: it lists, ascending and without repeats, exactly the ids on a directed cycle of the
  edges between known nodes, and its groups are, each once and largest first, the sorted classes of
  at least two mutually reachable ids.
\<close>

theorem cycle_report_is_exact:
  assumes ids: "distinct node_ids" and order: "\<forall>xs. mset (order xs) = mset xs"
  shows "\<exists>r. cycle_report_for order node_ids edges = Some r
    \<and> sorted (cyclic_node_ids r) \<and> distinct (cyclic_node_ids r)
    \<and> set (cyclic_node_ids r) = {x. (x, x) \<in> (set edges \<inter> set node_ids \<times> set node_ids)\<^sup>+}
    \<and> distinct (cr_components r) \<and> sorted_wrt (\<lambda>g h. length h \<le> length g) (cr_components r)
    \<and> set (cr_components r) = {g. sorted g \<and> distinct g \<and> 1 < length g
         \<and> (\<exists>x \<in> set g. set g = {y. (x, y) \<in> (set edges \<inter> set node_ids \<times> set node_ids)\<^sup>* \<and> (y, x) \<in> (set edges \<inter> set node_ids \<times> set node_ids)\<^sup>*})}"
proof -
  let ?adj = "directed_adjacency node_ids edges" and ?E = "set edges \<inter> set node_ids \<times> set node_ids"
  note df = directed_adjacency_facts(1,2) [of node_ids edges]
  obtain s where s: "tarjan ?adj = Some s" "length (component s) = length node_ids" "comps ?adj (map Some (component s)) (scc_count s)"
    using tarjan_result [OF df(2)] df(1) by auto
  let ?cs = "component s" and ?keys = "order (cycle_keys (scc_sizes s) (component s))"
  have cs: "set ?cs = {0..<scc_count s}" using comps_total [OF s(3)] s(2) df(1) by simp
  have perm: "mset ?keys = mset (cycle_keys (scc_sizes s) ?cs)" using order by blast
  then have keys: "set ?keys = {c. 1 < card {w. w < length node_ids \<and> ?cs ! w = c}}"
    using cycle_keys_facts [OF cs] s(2) by (metis mset_eq_setD)
  have "distinct ?keys" using mset_eq_imp_distinct_iff [OF perm] by (simp add: cycle_keys_def)
  define gs where "gs = sort_key (\<lambda>g. (- int (length g), hd g)) (map (cycle_group node_ids ?cs) ?keys)"
  have "sorted_wrt (\<lambda>g h. (- int (length g), hd g) \<le> (- int (length h), hd h)) gs"
    using sorted_sort_key [of "\<lambda>g. (- int (length g), hd g)"] by (simp add: gs_def sorted_map)
  then have "sorted_wrt (\<lambda>g h. length h \<le> length g) gs" by (rule sorted_wrt_mono_rel [rotated]) auto
  moreover have "distinct gs" using cycle_groups_distinct [OF ids s(2) \<open>distinct ?keys\<close>] keys by (simp add: gs_def)
  moreover have "set gs = {g. sorted g \<and> distinct g \<and> 1 < length g \<and> (\<exists>x \<in> set g. set g = {y. (x, y) \<in> ?E\<^sup>* \<and> (y, x) \<in> ?E\<^sup>*})}"
    using cycle_groups_set [OF ids s(2,3)] keys by (simp add: gs_def)
  moreover have "set (map (\<lambda>v. node_ids ! v) (cyclic_nodes s ?adj)) = {x. (x, x) \<in> ?E\<^sup>+}"
  proof -
    have "x \<in> set node_ids" if "(x, x) \<in> ?E\<^sup>+" for x using tranclD [OF that] by auto
    then show ?thesis
      using cycle_ids [OF ids, of _ edges] by (auto simp: cyclic_nodes_exact [OF df(2) s(1)] df(1) in_set_conv_nth image_iff)
  qed
  moreover have "distinct (map (\<lambda>v. node_ids ! v) (cyclic_nodes s ?adj))"
    using ids by (auto simp: cyclic_nodes_exact [OF df(2) s(1)] df(1) distinct_map inj_on_def nth_eq_iff_index_eq)
  ultimately show ?thesis by (simp add: cycle_report_for_eq [OF s(1)] gs_def)
qed

theorem cycle_report_is_exact_witness:
  "\<exists>r. cycle_report_for rev [10, 11] [(11, 11)] = Some r \<and> 11 \<in> set (cyclic_node_ids r)"
  using cycle_report_is_exact [of "[10, 11]" rev "[(11, 11)]"] by auto

end
