(* ===== verification/Reasoner.thy ===== *)
theory Reasoner
  imports Prelude "HOL-Library.Monad_Syntax"
begin

text \<open>
  \<open>crates/visionclaw-ontology/src/reasoning/custom_reasoner.rs\<close>: inference over the class hierarchy,
  run by the ontology pipeline after each import. Hash maps and the hash sets inside them are lists
  in their iteration order; a set that the code builds itself is a set, and \<open>enum\<close> lists it in the
  order in which the code happens to iterate. \<open>get_all_subclasses\<close> has no visited set: it is a
  partial function into \<open>option\<close>, and \<open>None\<close> is the recursion that never ends.
\<close>

section \<open>The reasoner\<close>

record ontology =
  classes :: "string list"
  subclass_of :: "(string \<times> string list) list"
  disjoint_classes :: "string list list"
  equivalent_classes :: "(string \<times> string list) list"

datatype axiom_type = SubClassOf | DisjointWith | EquivalentTo | FunctionalProperty

record inferred_axiom =
  axiom_type :: axiom_type
  subject :: string
  object :: "string option"

definition parents_of :: "ontology \<Rightarrow> string \<Rightarrow> string list" where
  "parents_of ont c = (case map_of (subclass_of ont) c of Some ps \<Rightarrow> ps | None \<Rightarrow> [])"

definition all_parents :: "ontology \<Rightarrow> string set" where
  "all_parents ont = (\<Union>(c, ps) \<in> set (subclass_of ont). set ps)"

lemma finite_all_parents [simp]: "finite (all_parents ont)"
  by (auto simp: all_parents_def)

lemma parents_of_subset: "set (parents_of ont c) \<subseteq> all_parents ont"
  unfolding parents_of_def all_parents_def by (cases "map_of (subclass_of ont) c") (auto dest!: map_of_SomeD)

text \<open>Classes that a search may still have to visit: they bound the recursions below.\<close>

definition pending :: "ontology \<Rightarrow> string list \<Rightarrow> string set \<Rightarrow> nat" where
  "pending ont ps visited = card ((all_parents ont \<union> set ps) - visited)"

lemma pending_less:
  "p \<notin> visited \<Longrightarrow> insert p visited \<subseteq> later \<Longrightarrow> set qs \<subseteq> all_parents ont \<union> set ps \<Longrightarrow> pending ont qs later < pending ont (p # ps) visited"
  unfolding pending_def by (intro psubset_card_mono) auto

lemma pending_skip: "p \<in> visited \<Longrightarrow> pending ont (p # ps) visited = pending ont ps visited"
  by (auto simp: pending_def intro: arg_cong [where f = card])

text \<open>The loop over the parents of a class, with the recursive call of \<open>collect_ancestors\<close> inside.\<close>

function (sequential) collect_ancestors :: "ontology \<Rightarrow> string list \<Rightarrow> string set \<Rightarrow> string set" where
  "collect_ancestors ont [] ancestors = ancestors"
| "collect_ancestors ont (p # ps) ancestors =
     (if p \<in> ancestors then collect_ancestors ont ps ancestors
      else collect_ancestors ont ps (collect_ancestors ont (parents_of ont p) (insert p ancestors)))"
  by pat_completeness auto

lemma collect_ancestors_grows:
  "collect_ancestors_dom (ont, ps, ancestors) \<Longrightarrow> ancestors \<subseteq> collect_ancestors ont ps ancestors"
  by (induction rule: collect_ancestors.pinduct) (auto simp: collect_ancestors.psimps)

termination collect_ancestors
proof (relation "measures [\<lambda>(ont, ps, ancestors). pending ont ps ancestors, \<lambda>(ont, ps, ancestors). length ps]")
  fix ont :: ontology and p :: string and ps ancestors
  assume new: "p \<notin> ancestors"
  show "((ont, parents_of ont p, insert p ancestors), (ont, p # ps, ancestors))
      \<in> measures [\<lambda>(ont, ps, ancestors). pending ont ps ancestors, \<lambda>(ont, ps, ancestors). length ps]"
    using pending_less [OF new, of "insert p ancestors" "parents_of ont p"] parents_of_subset [of ont p] by auto
  show "((ont, ps, collect_ancestors ont (parents_of ont p) (insert p ancestors)), (ont, p # ps, ancestors))
      \<in> measures [\<lambda>(ont, ps, ancestors). pending ont ps ancestors, \<lambda>(ont, ps, ancestors). length ps]"
    if "collect_ancestors_dom (ont, parents_of ont p, insert p ancestors)"
    using pending_less [OF new collect_ancestors_grows [OF that], of ps] by auto
qed (simp_all add: pending_skip)

text \<open>The transitive cache, as the list of its entries.\<close>

definition compute_transitive_closure :: "ontology \<Rightarrow> (string \<times> string set) list" where
  "compute_transitive_closure ont = map (\<lambda>c. (c, collect_ancestors ont (parents_of ont c) {})) (classes ont)"

definition infer_transitive_subclass :: "(string set \<Rightarrow> string list) \<Rightarrow> ontology \<Rightarrow> inferred_axiom list" where
  "infer_transitive_subclass enum ont =
     concat (map (\<lambda>(child, ancestors).
       map (\<lambda>a. \<lparr>axiom_type = SubClassOf, subject = child, object = Some a\<rparr>)
         (filter (\<lambda>a. a \<notin> set (parents_of ont child)) (enum ancestors)))
       (compute_transitive_closure ont))"

partial_function (option) subclasses_from ::
    "ontology \<Rightarrow> string \<Rightarrow> (string \<times> string list) list \<Rightarrow> string set \<Rightarrow> string set option" where
  "subclasses_from ont c entries found =
     (case entries of
        [] \<Rightarrow> Some found
      | (child, ps) # es \<Rightarrow>
          if c \<in> set ps
          then subclasses_from ont child (subclass_of ont) {} \<bind>
                 (\<lambda>below. subclasses_from ont c es (insert child found \<union> below))
          else subclasses_from ont c es found)"

definition get_all_subclasses :: "ontology \<Rightarrow> string \<Rightarrow> string set option" where
  "get_all_subclasses ont c = subclasses_from ont c (subclass_of ont) {}"

definition disjoint_below :: "(string set \<Rightarrow> string list) \<Rightarrow> ontology \<Rightarrow> string list \<Rightarrow> string \<Rightarrow> string \<Rightarrow> inferred_axiom list option" where
  "disjoint_below enum ont disjoint a b = do {
     below \<leftarrow> get_all_subclasses ont a;
     Some (map (\<lambda>s. \<lparr>axiom_type = DisjointWith, subject = s, object = Some b\<rparr>)
       (filter (\<lambda>s. s \<noteq> a \<and> s \<notin> set disjoint) (enum below)))
   }"

fun disjoint_pairs :: "(string set \<Rightarrow> string list) \<Rightarrow> ontology \<Rightarrow> string list \<Rightarrow> (string \<times> string) list \<Rightarrow> inferred_axiom list option" where
  "disjoint_pairs enum ont disjoint [] = Some []"
| "disjoint_pairs enum ont disjoint ((a, b) # rest) = do {
     xs \<leftarrow> disjoint_below enum ont disjoint a b;
     ys \<leftarrow> disjoint_below enum ont disjoint b a;
     zs \<leftarrow> disjoint_pairs enum ont disjoint rest;
     Some (xs @ ys @ zs)
   }"

definition index_pairs :: "string list \<Rightarrow> (string \<times> string) list" where
  "index_pairs cs = concat (map (\<lambda>i. map (\<lambda>j. (cs ! i, cs ! j)) [i + 1..<length cs]) [0..<length cs])"

fun disjoint_sets :: "(string set \<Rightarrow> string list) \<Rightarrow> ontology \<Rightarrow> string list list \<Rightarrow> inferred_axiom list option" where
  "disjoint_sets enum ont [] = Some []"
| "disjoint_sets enum ont (d # ds) = do {
     xs \<leftarrow> disjoint_pairs enum ont d (index_pairs d);
     ys \<leftarrow> disjoint_sets enum ont ds;
     Some (xs @ ys)
   }"

definition infer_disjoint :: "(string set \<Rightarrow> string list) \<Rightarrow> ontology \<Rightarrow> inferred_axiom list option" where
  "infer_disjoint enum ont = disjoint_sets enum ont (disjoint_classes ont)"

definition equivalents_of :: "ontology \<Rightarrow> string \<Rightarrow> string list" where
  "equivalents_of ont c = (case map_of (equivalent_classes ont) c of Some cs \<Rightarrow> cs | None \<Rightarrow> [])"

definition equivalent_via :: "ontology \<Rightarrow> string \<Rightarrow> string list \<Rightarrow> string \<Rightarrow> inferred_axiom list" where
  "equivalent_via ont a equivalents b =
     (if a \<in> set (equivalents_of ont b) then [] else [\<lparr>axiom_type = EquivalentTo, subject = b, object = Some a\<rparr>])
     @ map (\<lambda>c. \<lparr>axiom_type = EquivalentTo, subject = a, object = Some c\<rparr>)
         (filter (\<lambda>c. c \<noteq> a \<and> c \<notin> set equivalents) (equivalents_of ont b))"

definition infer_equivalent :: "ontology \<Rightarrow> inferred_axiom list" where
  "infer_equivalent ont =
     concat (map (\<lambda>(a, equivalents). concat (map (equivalent_via ont a equivalents) equivalents)) (equivalent_classes ont))"

definition infer_axioms :: "(string set \<Rightarrow> string list) \<Rightarrow> ontology \<Rightarrow> inferred_axiom list option" where
  "infer_axioms enum ont = do {
     let subs = infer_transitive_subclass enum ont;
     disj \<leftarrow> infer_disjoint enum ont;
     Some (subs @ disj @ infer_equivalent ont)
   }"

definition are_disjoint :: "string \<Rightarrow> string \<Rightarrow> ontology \<Rightarrow> bool" where
  "are_disjoint a b ont = list_ex (\<lambda>d. a \<in> set d \<and> b \<in> set d) (disjoint_classes ont)"

text \<open>
  The recursion of \<open>is_subclass_of\<close>: the loop over the parents, which stops at the first that
  succeeds, with the visited set handed on.
\<close>

function (sequential) search_up :: "ontology \<Rightarrow> string \<Rightarrow> string list \<Rightarrow> string set \<Rightarrow> bool \<times> string set" where
  "search_up ont target [] visited = (False, visited)"
| "search_up ont target (c # cs) visited =
     (if c = target then (True, visited)
      else if c \<in> visited then search_up ont target cs visited
      else case search_up ont target (parents_of ont c) (insert c visited) of
             (True, visited1) \<Rightarrow> (True, visited1)
           | (False, visited1) \<Rightarrow> search_up ont target cs visited1)"
  by pat_completeness auto

lemma search_up_grows:
  "search_up_dom (ont, target, cs, visited) \<Longrightarrow> visited \<subseteq> snd (search_up ont target cs visited)"
proof (induction rule: search_up.pinduct)
  case (2 ont target c cs visited)
  obtain found visited1 where r: "search_up ont target (parents_of ont c) (insert c visited) = (found, visited1)" by force
  then show ?case
    using 2 by (cases found) (auto simp: search_up.psimps, metis subsetD)
qed (simp add: search_up.psimps)

termination search_up
proof (relation "measures [\<lambda>(ont, target, cs, visited). pending ont cs visited, \<lambda>(ont, target, cs, visited). length cs]")
  fix ont :: ontology and target c :: string and cs visited
  show "((ont, target, cs, visited), (ont, target, c # cs, visited))
      \<in> measures [\<lambda>(ont, target, cs, visited). pending ont cs visited, \<lambda>(ont, target, cs, visited). length cs]"
    if "c \<in> visited"
    using pending_skip [OF that, of ont cs] by simp
  assume new: "c \<notin> visited"
  show "((ont, target, parents_of ont c, insert c visited), (ont, target, c # cs, visited))
      \<in> measures [\<lambda>(ont, target, cs, visited). pending ont cs visited, \<lambda>(ont, target, cs, visited). length cs]"
    using pending_less [OF new, of "insert c visited" "parents_of ont c"] parents_of_subset [of ont c] by auto
  show "((ont, target, cs, visited1), (ont, target, c # cs, visited))
      \<in> measures [\<lambda>(ont, target, cs, visited). pending ont cs visited, \<lambda>(ont, target, cs, visited). length cs]"
    if "search_up_dom (ont, target, parents_of ont c, insert c visited)"
      "(found, visited1) = search_up ont target (parents_of ont c) (insert c visited)" for found visited1
  proof -
    have "insert c visited \<subseteq> visited1" using search_up_grows [OF that(1)] by (simp add: that(2) [symmetric])
    then show ?thesis using pending_less [OF new, of visited1 cs] by simp
  qed
qed simp_all

definition is_subclass_of :: "(string \<rightharpoonup> string set) \<Rightarrow> ontology \<Rightarrow> string \<Rightarrow> string \<Rightarrow> bool" where
  "is_subclass_of cache ont child parent =
     (if parent \<in> set (parents_of ont child) then True
      else case cache child of
             Some ancestors \<Rightarrow> parent \<in> ancestors
           | None \<Rightarrow> fst (search_up ont parent [child] {}))"

section \<open>Ancestors\<close>

definition isa :: "ontology \<Rightarrow> (string \<times> string) set" where
  "isa ont = {(c, p). p \<in> set (parents_of ont c)}"

lemma chain_subset: "B \<subseteq> C \<union> Y \<Longrightarrow> C \<subseteq> insert p A \<union> Z \<Longrightarrow> Z \<subseteq> X \<Longrightarrow> p \<in> X \<Longrightarrow> B \<subseteq> A \<union> (X \<union> Y)"
  by blast

lemma collect_ancestors_facts:
  "ancestors \<subseteq> collect_ancestors ont ps ancestors \<and> set ps \<subseteq> collect_ancestors ont ps ancestors
   \<and> collect_ancestors ont ps ancestors \<subseteq> ancestors \<union> (isa ont)\<^sup>* `` set ps
   \<and> (\<forall>x \<in> collect_ancestors ont ps ancestors - ancestors. set (parents_of ont x) \<subseteq> collect_ancestors ont ps ancestors)"
proof (induction ont ps ancestors rule: collect_ancestors.induct)
  case (2 ont p ps ancestors)
  show ?case
  proof (cases "p \<in> ancestors")
    case True
    then show ?thesis using 2(1) by auto
  next
    case False
    let ?C = "collect_ancestors ont (parents_of ont p) (insert p ancestors)"
    let ?B = "collect_ancestors ont ps ?C"
    have C: "insert p ancestors \<subseteq> ?C" "set (parents_of ont p) \<subseteq> ?C"
      "?C \<subseteq> insert p ancestors \<union> (isa ont)\<^sup>* `` set (parents_of ont p)"
      "\<forall>x \<in> ?C - insert p ancestors. set (parents_of ont x) \<subseteq> ?C"
      using 2(2) [OF False] by blast+
    have B: "?C \<subseteq> ?B" "set ps \<subseteq> ?B" "?B \<subseteq> ?C \<union> (isa ont)\<^sup>* `` set ps" "\<forall>x \<in> ?B - ?C. set (parents_of ont x) \<subseteq> ?B"
      using 2(3) [OF False] by blast+
    have up: "(isa ont)\<^sup>* `` set (parents_of ont p) \<subseteq> (isa ont)\<^sup>* `` {p}"
      by (auto simp: isa_def intro: converse_rtrancl_into_rtrancl)
    have "(isa ont)\<^sup>* `` set (p # ps) = (isa ont)\<^sup>* `` {p} \<union> (isa ont)\<^sup>* `` set ps" "p \<in> (isa ont)\<^sup>* `` {p}" by auto
    then have "?B \<subseteq> ancestors \<union> (isa ont)\<^sup>* `` set (p # ps)" using chain_subset [OF B(3) C(3) up] by simp
    moreover have "set (parents_of ont x) \<subseteq> ?B" if "x \<in> ?B - ancestors" for x
      using that B C by blast
    ultimately show ?thesis using False B C by auto
  qed
qed simp

lemma collect_ancestors_exact: "collect_ancestors ont (parents_of ont c) {} = (isa ont)\<^sup>+ `` {c}"
proof
  note f = collect_ancestors_facts [of "{}" ont "parents_of ont c"]
  have "(isa ont)\<^sup>* `` set (parents_of ont c) \<subseteq> (isa ont)\<^sup>+ `` {c}"
    by (auto simp: isa_def intro: rtrancl_into_trancl2)
  then show "collect_ancestors ont (parents_of ont c) {} \<subseteq> (isa ont)\<^sup>+ `` {c}" using f by blast
  have "a \<in> collect_ancestors ont (parents_of ont c) {}" if "(c, a) \<in> (isa ont)\<^sup>+" for a
    using that by (induction rule: trancl_induct) (use f in \<open>auto simp: isa_def\<close>)
  then show "(isa ont)\<^sup>+ `` {c} \<subseteq> collect_ancestors ont (parents_of ont c) {}" by blast
qed

lemma finite_isa: "finite (isa ont)"
proof -
  have "isa ont \<subseteq> fst ` set (subclass_of ont) \<times> all_parents ont"
  proof
    fix e assume "e \<in> isa ont"
    then obtain c p where e: "e = (c, p)" "p \<in> set (parents_of ont c)" by (auto simp: isa_def)
    then have "c \<in> fst ` set (subclass_of ont)"
      by (cases "map_of (subclass_of ont) c") (auto simp: parents_of_def map_of_eq_None_iff dest: map_of_SomeD intro: rev_image_eqI)
    then show "e \<in> fst ` set (subclass_of ont) \<times> all_parents ont" using e parents_of_subset by blast
  qed
  then show ?thesis by (rule finite_subset) simp
qed

lemma finite_below: "finite {x. (x, c) \<in> (isa ont)\<^sup>+}" "finite ((isa ont)\<^sup>+ `` {c})"
proof -
  have fin: "finite ((isa ont)\<^sup>+)" using finite_isa by simp
  have "{x. (x, c) \<in> (isa ont)\<^sup>+} \<subseteq> fst ` (isa ont)\<^sup>+" "(isa ont)\<^sup>+ `` {c} \<subseteq> snd ` (isa ont)\<^sup>+" by force+
  then show "finite {x. (x, c) \<in> (isa ont)\<^sup>+}" "finite ((isa ont)\<^sup>+ `` {c})" using fin by (meson finite_imageI finite_subset)+
qed

lemma search_up_facts:
  "search_up ont target cs visited = (found, visited1) \<Longrightarrow>
     (if found then \<exists>c \<in> set cs. (c, target) \<in> (isa ont)\<^sup>*
      else visited \<subseteq> visited1 \<and> set cs \<subseteq> visited1 \<and> target \<notin> set cs
        \<and> (\<forall>x \<in> visited1 - visited. x \<noteq> target \<and> set (parents_of ont x) \<subseteq> visited1))"
proof (induction ont target cs visited arbitrary: found visited1 rule: search_up.induct)
  case (2 ont target c cs visited)
  show ?case
  proof (cases "c = target \<or> c \<in> visited")
    case True
    then show ?thesis using 2(1,4) by (auto split: if_splits)
  next
    case False
    obtain f1 v1 where r: "search_up ont target (parents_of ont c) (insert c visited) = (f1, v1)" by force
    show ?thesis
    proof (cases f1)
      case True
      then obtain p where "p \<in> set (parents_of ont c)" "(p, target) \<in> (isa ont)\<^sup>*"
        using 2(2) [OF _ _ r] False by auto
      then have "(c, target) \<in> (isa ont)\<^sup>*" by (auto simp: isa_def intro: converse_rtrancl_into_rtrancl)
      then show ?thesis using 2(4) False r True by simp
    next
      case nf: False
      have v1: "insert c visited \<subseteq> v1" "set (parents_of ont c) \<subseteq> v1"
        "\<forall>x \<in> v1 - insert c visited. x \<noteq> target \<and> set (parents_of ont x) \<subseteq> v1"
        using 2(2) [OF _ _ r] False nf by auto
      have "search_up ont target cs v1 = (found, visited1)" using 2(4) False r nf by simp
      note rest = 2(3) [OF _ _ r [symmetric] _ this]
      show ?thesis
      proof (cases found)
        case True
        then show ?thesis using rest False nf by auto
      next
        case F: False
        then have v2: "v1 \<subseteq> visited1" "set cs \<subseteq> visited1" "target \<notin> set cs"
          "\<forall>x \<in> visited1 - v1. x \<noteq> target \<and> set (parents_of ont x) \<subseteq> visited1"
          using rest False nf by auto
        have "x \<noteq> target \<and> set (parents_of ont x) \<subseteq> visited1" if "x \<in> visited1 - visited" for x
        proof (cases "x \<in> v1")
          case True
          then show ?thesis using v1 v2(1) that False by (cases "x = c") auto
        next
          case xf: False
          then show ?thesis using v2(4) that by blast
        qed
        then show ?thesis using F v1(1) v2 False by auto
      qed
    qed
  qed
qed simp

text \<open>
  C30. A fresh reasoner answers \<open>is_subclass_of\<close> with the reflexive and transitive closure of the
  asserted hierarchy, cycles included, and the search always ends.
\<close>

theorem is_subclass_of_exact: "is_subclass_of Map.empty ont child parent \<longleftrightarrow> (child, parent) \<in> (isa ont)\<^sup>*"
proof -
  obtain found seen where r: "search_up ont parent [child] {} = (found, seen)" by force
  note f = search_up_facts [OF r]
  have "found \<longleftrightarrow> (child, parent) \<in> (isa ont)\<^sup>*"
  proof (cases found)
    case False
    have "x \<in> seen" if "(child, x) \<in> (isa ont)\<^sup>*" for x
      using that by (induction rule: rtrancl_induct) (use f False in \<open>auto simp: isa_def\<close>)
    then show ?thesis using f False by auto
  qed (use f in simp)
  then show ?thesis using r by (auto simp: is_subclass_of_def isa_def)
qed
section \<open>Descendants, where the recursion ends\<close>

definition cycle_below :: "ontology \<Rightarrow> string \<Rightarrow> bool" where
  "cycle_below ont c \<longleftrightarrow> (\<exists>x. (x, c) \<in> (isa ont)\<^sup>* \<and> (x, x) \<in> (isa ont)\<^sup>+)"

lemma isa_entries:
  assumes "distinct (map fst (subclass_of ont))"
  shows "(c, p) \<in> isa ont \<longleftrightarrow> (\<exists>ps. (c, ps) \<in> set (subclass_of ont) \<and> p \<in> set ps)"
  using assms by (auto simp: isa_def parents_of_def split: option.splits dest: map_of_SomeD)

lemma below_entries:
  assumes "distinct (map fst (subclass_of ont))"
  shows "{x. \<exists>(y, ps) \<in> set (subclass_of ont). c \<in> set ps \<and> (x, y) \<in> (isa ont)\<^sup>*} = {x. (x, c) \<in> (isa ont)\<^sup>+}"
proof -
  have "(x, c) \<in> (isa ont)\<^sup>+ \<longleftrightarrow> (\<exists>y. (x, y) \<in> (isa ont)\<^sup>* \<and> (y, c) \<in> isa ont)" for x
    by (meson rtrancl_into_trancl1 tranclD2)
  then show ?thesis using isa_entries [OF assms] by blast
qed

lemma cycle_below_step: "\<forall>y. (y, c) \<in> isa ont \<longrightarrow> \<not> cycle_below ont y \<Longrightarrow> \<not> cycle_below ont c"
proof
  assume no: "\<forall>y. (y, c) \<in> isa ont \<longrightarrow> \<not> cycle_below ont y" and "cycle_below ont c"
  then obtain x where x: "(x, c) \<in> (isa ont)\<^sup>*" "(x, x) \<in> (isa ont)\<^sup>+" by (auto simp: cycle_below_def)
  obtain y where "(y, c) \<in> isa ont" "(x, y) \<in> (isa ont)\<^sup>*"
  proof (cases "x = c")
    case True
    then show ?thesis using x(2) that by (metis tranclD2)
  next
    case False
    then show ?thesis using x(1) that by (metis rtranclE)
  qed
  then show False using no x(2) by (auto simp: cycle_below_def)
qed

text \<open>If the recursion returns, there was no cycle below the classes it visited, and the result is exact.\<close>

lemma subclasses_from_correct:
  assumes "subclasses_from ont c entries found = Some r" and "distinct (map fst (subclass_of ont))"
  shows "r = found \<union> {x. \<exists>(y, ps) \<in> set entries. c \<in> set ps \<and> (x, y) \<in> (isa ont)\<^sup>*}
     \<and> (\<forall>(y, ps) \<in> set entries. c \<in> set ps \<longrightarrow> \<not> cycle_below ont y)"
  using assms(2)
proof (induct rule: subclasses_from.raw_induct [OF _ assms(1), rotated, consumes 0])
  case (1 go ont c entries found r)
  note dist = 1(3)
  show ?case
  proof (cases entries)
    case Nil
    then show ?thesis using 1(2) by simp
  next
    case (Cons e es)
    obtain child ps where e: "e = (child, ps)" by force
    show ?thesis
    proof (cases "c \<in> set ps")
      case False
      then have "go ont c es found = Some r" using 1(2) Cons e by simp
      from 1(1) [OF this dist] show ?thesis using False Cons e by auto
    next
      case True
      then obtain below where b: "go ont child (subclass_of ont) {} = Some below" "go ont c es (insert child found \<union> below) = Some r"
        using 1(2) Cons e by (auto simp: Option.bind_eq_Some_conv)
      have sub: "below = {x. (x, child) \<in> (isa ont)\<^sup>+}"
        using 1(1) [OF b(1) dist] below_entries [OF dist] by simp
      have "\<forall>y. (y, child) \<in> isa ont \<longrightarrow> \<not> cycle_below ont y"
        using 1(1) [OF b(1) dist] isa_entries [OF dist] by blast
      then have "\<not> cycle_below ont child" by (rule cycle_below_step)
      moreover have "insert child below = {x. (x, child) \<in> (isa ont)\<^sup>*}" by (auto simp: sub rtrancl_eq_or_trancl)
      ultimately show ?thesis using 1(1) [OF b(2) dist] True Cons e by auto
    qed
  qed
qed

lemma subclasses_from_returns:
  assumes dist: "distinct (map fst (subclass_of ont))"
  shows "\<forall>(y, ps) \<in> set entries. c \<in> set ps \<longrightarrow> \<not> cycle_below ont y \<Longrightarrow> set entries \<subseteq> set (subclass_of ont) \<Longrightarrow>
    \<exists>r. subclasses_from ont c entries found = Some r"
proof (induction "card {x. (x, c) \<in> (isa ont)\<^sup>+}" arbitrary: c entries found rule: less_induct)
  case less
  have inner: "\<exists>below. subclasses_from ont child (subclass_of ont) {} = Some below"
    if child: "(child, c) \<in> isa ont" "\<not> cycle_below ont child" for child
  proof -
    have "{x. (x, child) \<in> (isa ont)\<^sup>+} \<subset> {x. (x, c) \<in> (isa ont)\<^sup>+}"
    proof
      show "{x. (x, child) \<in> (isa ont)\<^sup>+} \<subseteq> {x. (x, c) \<in> (isa ont)\<^sup>+}" using child(1) by (auto intro: trancl_into_trancl)
      have "(child, child) \<notin> (isa ont)\<^sup>+" using child(2) by (auto simp: cycle_below_def)
      then show "{x. (x, child) \<in> (isa ont)\<^sup>+} \<noteq> {x. (x, c) \<in> (isa ont)\<^sup>+}" using child(1) by blast
    qed
    then have "card {x. (x, child) \<in> (isa ont)\<^sup>+} < card {x. (x, c) \<in> (isa ont)\<^sup>+}" by (intro psubset_card_mono finite_below)
    moreover have "\<not> cycle_below ont y" if "(y, child) \<in> isa ont" for y
    proof
      assume "cycle_below ont y"
      then obtain x where "(x, y) \<in> (isa ont)\<^sup>*" "(x, x) \<in> (isa ont)\<^sup>+" by (auto simp: cycle_below_def)
      then show False using child(2) that by (meson cycle_below_def rtrancl.rtrancl_into_rtrancl)
    qed
    then have "\<forall>(y, ps) \<in> set (subclass_of ont). child \<in> set ps \<longrightarrow> \<not> cycle_below ont y" using isa_entries [OF dist] by blast
    ultimately show ?thesis using less.hyps [of child "subclass_of ont" "{}"] by blast
  qed
  show ?case using less.prems
  proof (induction entries arbitrary: found)
    case Nil
    then show ?case by (subst subclasses_from.simps) simp
  next
    case (Cons e es)
    obtain child ps where e: "e = (child, ps)" by force
    have es: "\<And>found. \<exists>r. subclasses_from ont c es found = Some r" using Cons by auto
    show ?case
    proof (cases "c \<in> set ps")
      case True
      then have "(child, c) \<in> isa ont" "\<not> cycle_below ont child" using Cons.prems e isa_entries [OF dist] by auto
      from inner [OF this] obtain below where "subclasses_from ont child (subclass_of ont) {} = Some below" by blast
      then show ?thesis using True e es by (subst subclasses_from.simps) simp
    next
      case False
      then show ?thesis using e es by (subst subclasses_from.simps) simp
    qed
  qed
qed

lemma get_all_subclasses_exact:
  assumes dist: "distinct (map fst (subclass_of ont))"
  shows "get_all_subclasses ont c = (if cycle_below ont c then None else Some {x. (x, c) \<in> (isa ont)\<^sup>+})"
proof (cases "cycle_below ont c")
  case True
  have "get_all_subclasses ont c \<noteq> Some r" for r
  proof
    assume "get_all_subclasses ont c = Some r"
    then have "\<forall>(y, ps) \<in> set (subclass_of ont). c \<in> set ps \<longrightarrow> \<not> cycle_below ont y"
      using subclasses_from_correct [OF _ dist] unfolding get_all_subclasses_def by blast
    then have "\<forall>y. (y, c) \<in> isa ont \<longrightarrow> \<not> cycle_below ont y" using isa_entries [OF dist] by blast
    then show False using cycle_below_step True by blast
  qed
  then show ?thesis using True by (cases "get_all_subclasses ont c") auto
next
  case False
  then have "\<not> cycle_below ont y" if "(y, c) \<in> isa ont" for y
    using that by (meson cycle_below_def rtrancl.rtrancl_into_rtrancl)
  then have "\<forall>(y, ps) \<in> set (subclass_of ont). c \<in> set ps \<longrightarrow> \<not> cycle_below ont y" using isa_entries [OF dist] by blast
  then obtain r where r: "get_all_subclasses ont c = Some r"
    using subclasses_from_returns [OF dist, of "subclass_of ont" c "{}"] unfolding get_all_subclasses_def by blast
  then have "r = {} \<union> {x. \<exists>(y, ps) \<in> set (subclass_of ont). c \<in> set ps \<and> (x, y) \<in> (isa ont)\<^sup>*}"
    using subclasses_from_correct [OF _ dist] unfolding get_all_subclasses_def by blast
  also have "\<dots> = {x. (x, c) \<in> (isa ont)\<^sup>+}" using below_entries [OF dist] by simp
  finally show ?thesis using r False by simp
qed
section \<open>The inferred axioms\<close>

definition lists_sets :: "(string set \<Rightarrow> string list) \<Rightarrow> bool" where
  "lists_sets enum \<longleftrightarrow> (\<forall>A. finite A \<longrightarrow> set (enum A) = A)"

abbreviation sub_axiom :: "string \<Rightarrow> string \<Rightarrow> inferred_axiom" where
  "sub_axiom c a \<equiv> \<lparr>axiom_type = SubClassOf, subject = c, object = Some a\<rparr>"

abbreviation disjoint_axiom :: "string \<Rightarrow> string \<Rightarrow> inferred_axiom" where
  "disjoint_axiom s b \<equiv> \<lparr>axiom_type = DisjointWith, subject = s, object = Some b\<rparr>"

abbreviation equivalent_axiom :: "string \<Rightarrow> string \<Rightarrow> inferred_axiom" where
  "equivalent_axiom a b \<equiv> \<lparr>axiom_type = EquivalentTo, subject = a, object = Some b\<rparr>"

lemma infer_transitive_subclass_exact:
  assumes "lists_sets enum"
  shows "set (infer_transitive_subclass enum ont)
    = {sub_axiom c a | c a. c \<in> set (classes ont) \<and> (c, a) \<in> (isa ont)\<^sup>+ \<and> (c, a) \<notin> isa ont}"
proof -
  have "set (enum ((isa ont)\<^sup>+ `` {c})) = (isa ont)\<^sup>+ `` {c}" for c
    using assms finite_below(2) by (simp add: lists_sets_def)
  then show ?thesis
    by (auto simp: infer_transitive_subclass_def compute_transitive_closure_def collect_ancestors_exact isa_def [of ont])
qed

definition inherited_disjoint :: "ontology \<Rightarrow> string list \<Rightarrow> string \<Rightarrow> string \<Rightarrow> inferred_axiom set" where
  "inherited_disjoint ont d a b = (\<lambda>s. disjoint_axiom s b) ` {s. (s, a) \<in> (isa ont)\<^sup>+ \<and> s \<noteq> a \<and> s \<notin> set d}"

lemma disjoint_below_exact:
  assumes "lists_sets enum" and "distinct (map fst (subclass_of ont))"
  shows "if cycle_below ont a then disjoint_below enum ont d a b = None
     else \<exists>axs. disjoint_below enum ont d a b = Some axs \<and> set axs = inherited_disjoint ont d a b"
proof -
  have "set (enum {x. (x, a) \<in> (isa ont)\<^sup>+}) = {x. (x, a) \<in> (isa ont)\<^sup>+}"
    using assms(1) finite_below(1) by (simp add: lists_sets_def)
  then show ?thesis by (auto simp: disjoint_below_def get_all_subclasses_exact [OF assms(2)] inherited_disjoint_def)
qed

lemma disjoint_pairs_exact:
  assumes enum: "lists_sets enum" and dist: "distinct (map fst (subclass_of ont))"
  shows "if \<exists>(a, b) \<in> set prs. cycle_below ont a \<or> cycle_below ont b then disjoint_pairs enum ont d prs = None
    else \<exists>axs. disjoint_pairs enum ont d prs = Some axs
      \<and> set axs = (\<Union>(a, b) \<in> set prs. inherited_disjoint ont d a b \<union> inherited_disjoint ont d b a)"
proof (induction prs)
  case (Cons ab rest)
  obtain a b where ab: "ab = (a, b)" by force
  note below = disjoint_below_exact [OF assms, of a d b] disjoint_below_exact [OF assms, of b d a]
  show ?case
  proof (cases "cycle_below ont a \<or> cycle_below ont b")
    case True
    then have "disjoint_pairs enum ont d (ab # rest) = None"
      using below by (cases "disjoint_below enum ont d a b") (auto simp: ab split: if_splits)
    then show ?thesis using True ab by auto
  next
    case False
    then obtain xs ys where "disjoint_below enum ont d a b = Some xs" "set xs = inherited_disjoint ont d a b"
      "disjoint_below enum ont d b a = Some ys" "set ys = inherited_disjoint ont d b a"
      using below by auto
    then show ?thesis using Cons False by (auto simp: ab split: if_splits)
  qed
qed simp

lemma index_pairs_set: "(x, y) \<in> set (index_pairs cs) \<longleftrightarrow> (\<exists>i j. i < j \<and> j < length cs \<and> x = cs ! i \<and> y = cs ! j)"
proof -
  have "(x, y) \<in> set (index_pairs cs) \<longleftrightarrow> (\<exists>i \<in> {0..<length cs}. \<exists>j \<in> {i + 1..<length cs}. (x, y) = (cs ! i, cs ! j))"
    by (simp only: index_pairs_def set_concat set_map set_upt UN_iff bex_simps image_iff)
  also have "\<dots> \<longleftrightarrow> (\<exists>i j. i < j \<and> j < length cs \<and> x = cs ! i \<and> y = cs ! j)"
    by (simp add: Bex_def Suc_le_eq) (blast intro: less_trans)
  finally show ?thesis .
qed

lemma index_pairs_distinct:
  assumes "distinct cs"
  shows "(x, y) \<in> set (index_pairs cs) \<or> (y, x) \<in> set (index_pairs cs) \<longleftrightarrow> x \<in> set cs \<and> y \<in> set cs \<and> x \<noteq> y"
proof
  show "x \<in> set cs \<and> y \<in> set cs \<and> x \<noteq> y" if "(x, y) \<in> set (index_pairs cs) \<or> (y, x) \<in> set (index_pairs cs)"
    using that assms by (auto simp: index_pairs_set nth_eq_iff_index_eq)
  assume "x \<in> set cs \<and> y \<in> set cs \<and> x \<noteq> y"
  then obtain i j where "i < length cs" "j < length cs" "cs ! i = x" "cs ! j = y" "i \<noteq> j" by (metis in_set_conv_nth)
  then show "(x, y) \<in> set (index_pairs cs) \<or> (y, x) \<in> set (index_pairs cs)"
    unfolding index_pairs_set by (metis linorder_neqE_nat)
qed

text \<open>A disjointness statement whose pairs lead the recursion into a cycle.\<close>

definition diverging :: "ontology \<Rightarrow> string list \<Rightarrow> bool" where
  "diverging ont d \<longleftrightarrow> (\<exists>a \<in> set d. \<exists>b \<in> set d. a \<noteq> b \<and> cycle_below ont a)"

lemma disjoint_sets_exact:
  assumes enum: "lists_sets enum" and dist: "distinct (map fst (subclass_of ont))" and "\<forall>d \<in> set ds. distinct d"
  shows "if \<exists>d \<in> set ds. diverging ont d then disjoint_sets enum ont ds = None
    else \<exists>axs. disjoint_sets enum ont ds = Some axs
      \<and> set axs = (\<Union>d \<in> set ds. \<Union>a \<in> set d. \<Union>b \<in> set d - {a}. inherited_disjoint ont d a b)"
  using assms(3)
proof (induction ds)
  case (Cons d ds)
  have prs: "(x, y) \<in> set (index_pairs d) \<or> (y, x) \<in> set (index_pairs d) \<longleftrightarrow> x \<in> set d \<and> y \<in> set d \<and> x \<noteq> y" for x y
    using index_pairs_distinct [of d] Cons.prems by simp
  have div: "(\<exists>(a, b) \<in> set (index_pairs d). cycle_below ont a \<or> cycle_below ont b) \<longleftrightarrow> diverging ont d"
  proof -
    have "(\<exists>(a, b) \<in> set (index_pairs d). cycle_below ont a \<or> cycle_below ont b)
      \<longleftrightarrow> (\<exists>a b. ((a, b) \<in> set (index_pairs d) \<or> (b, a) \<in> set (index_pairs d)) \<and> cycle_below ont a)" by blast
    then show ?thesis unfolding prs diverging_def by blast
  qed
  have u: "(\<Union>(a, b) \<in> set (index_pairs d). inherited_disjoint ont d a b \<union> inherited_disjoint ont d b a)
    = (\<Union>a \<in> set d. \<Union>b \<in> set d - {a}. inherited_disjoint ont d a b)"
  proof -
    have "(\<Union>(a, b) \<in> set (index_pairs d). inherited_disjoint ont d a b \<union> inherited_disjoint ont d b a)
      = {ax. \<exists>a b. ((a, b) \<in> set (index_pairs d) \<or> (b, a) \<in> set (index_pairs d)) \<and> ax \<in> inherited_disjoint ont d a b}"
      by blast
    then show ?thesis unfolding prs by blast
  qed
  show ?case
  proof (cases "diverging ont d")
    case True
    then show ?thesis using disjoint_pairs_exact [OF enum dist, of "index_pairs d" d] div by auto
  next
    case False
    then obtain xs where "disjoint_pairs enum ont d (index_pairs d) = Some xs"
      "set xs = (\<Union>a \<in> set d. \<Union>b \<in> set d - {a}. inherited_disjoint ont d a b)"
      using disjoint_pairs_exact [OF enum dist, of "index_pairs d" d] div u by (auto split: if_splits)
    then show ?thesis using Cons False by (auto split: if_splits)
  qed
qed simp

definition equivalence :: "ontology \<Rightarrow> (string \<times> string) set" where
  "equivalence ont = {(a, b). b \<in> set (equivalents_of ont a)}"

lemma infer_equivalent_exact:
  assumes "distinct (map fst (equivalent_classes ont))"
  shows "set (infer_equivalent ont) = {equivalent_axiom b a | a b. (a, b) \<in> equivalence ont \<and> (b, a) \<notin> equivalence ont}
     \<union> {equivalent_axiom a c | a b c. (a, b) \<in> equivalence ont \<and> (b, c) \<in> equivalence ont \<and> c \<noteq> a \<and> (a, c) \<notin> equivalence ont}"
proof -
  have entries: "(a, bs) \<in> set (equivalent_classes ont) \<and> b \<in> set bs \<longleftrightarrow> bs = equivalents_of ont a \<and> (a, b) \<in> equivalence ont" for a b bs
  proof -
    have "(a, bs) \<in> set (equivalent_classes ont) \<longleftrightarrow> map_of (equivalent_classes ont) a = Some bs" using assms by simp
    then show ?thesis by (auto simp del: map_of_eq_Some_iff simp: equivalence_def equivalents_of_def split: option.splits)
  qed
  have via: "set (equivalent_via ont a bs b) = {ax. ax = equivalent_axiom b a \<and> (b, a) \<notin> equivalence ont
      \<or> (\<exists>c. ax = equivalent_axiom a c \<and> (b, c) \<in> equivalence ont \<and> c \<noteq> a \<and> c \<notin> set bs)}" for a bs b
    by (auto simp: equivalent_via_def equivalence_def)
  have "ax \<in> set (infer_equivalent ont) \<longleftrightarrow>
      (\<exists>a bs b. ((a, bs) \<in> set (equivalent_classes ont) \<and> b \<in> set bs) \<and> ax \<in> set (equivalent_via ont a bs b))" for ax
    by (simp add: infer_equivalent_def split_beta) (metis fst_conv snd_conv prod.collapse)
  then have "ax \<in> set (infer_equivalent ont) \<longleftrightarrow>
      (\<exists>a b. (a, b) \<in> equivalence ont \<and> ax \<in> set (equivalent_via ont a (equivalents_of ont a) b))" for ax
    unfolding entries by blast
  then show ?thesis unfolding via by (auto simp: equivalence_def)
qed

text \<open>
  C16. When no disjointness statement leads into a cycle, inference returns exactly: the indirect
  superclasses of the declared classes; for each class of a disjointness statement, that its
  subclasses outside the statement are disjoint from the other members; and the missing symmetric and
  one-step transitive equivalences.
\<close>

theorem infer_axioms_exact:
  assumes enum: "lists_sets enum" and keys: "distinct (map fst (subclass_of ont))" "distinct (map fst (equivalent_classes ont))"
    and sets: "\<forall>d \<in> set (disjoint_classes ont). distinct d \<and> \<not> diverging ont d"
  shows "\<exists>axs. infer_axioms enum ont = Some axs \<and> set axs =
      {sub_axiom c a | c a. c \<in> set (classes ont) \<and> (c, a) \<in> (isa ont)\<^sup>+ \<and> (c, a) \<notin> isa ont}
    \<union> {disjoint_axiom s b | s a b d. d \<in> set (disjoint_classes ont) \<and> a \<in> set d \<and> b \<in> set d \<and> a \<noteq> b
         \<and> (s, a) \<in> (isa ont)\<^sup>+ \<and> s \<notin> set d}
    \<union> {equivalent_axiom b a | a b. (a, b) \<in> equivalence ont \<and> (b, a) \<notin> equivalence ont}
    \<union> {equivalent_axiom a c | a b c. (a, b) \<in> equivalence ont \<and> (b, c) \<in> equivalence ont \<and> c \<noteq> a \<and> (a, c) \<notin> equivalence ont}"
proof -
  obtain ds where ds: "infer_disjoint enum ont = Some ds"
    "set ds = (\<Union>d \<in> set (disjoint_classes ont). \<Union>a \<in> set d. \<Union>b \<in> set d - {a}. inherited_disjoint ont d a b)"
    using disjoint_sets_exact [OF enum keys(1), of "disjoint_classes ont"] sets by (auto simp: infer_disjoint_def split: if_splits)
  have "set ds = {disjoint_axiom s b | s a b d. d \<in> set (disjoint_classes ont) \<and> a \<in> set d \<and> b \<in> set d \<and> a \<noteq> b
         \<and> (s, a) \<in> (isa ont)\<^sup>+ \<and> s \<notin> set d}"
    unfolding ds(2) inherited_disjoint_def by blast
  then show ?thesis
    using ds(1) infer_transitive_subclass_exact [OF enum, of ont] infer_equivalent_exact [OF keys(2)]
    by (simp add: infer_axioms_def Un_assoc)
qed

text \<open>A listing of finite sets of strings, for the examples.\<close>

lemma sorted_listing: "\<exists>enum. lists_sets enum"
proof -
  have "\<exists>xs. finite A \<longrightarrow> set xs = A" for A :: "string set" using finite_list by blast
  then show ?thesis unfolding lists_sets_def by metis
qed

text \<open>
  A cycle in the asserted hierarchy below a member of a disjointness statement with another
  member makes inference recurse for ever: the call does not return for any iteration order.
\<close>

theorem inference_diverges_on_cycles:
  assumes enum: "lists_sets enum" and keys: "distinct (map fst (subclass_of ont))"
    and sets: "\<forall>d \<in> set (disjoint_classes ont). distinct d"
    and d: "d \<in> set (disjoint_classes ont)" "a \<in> set d" "b \<in> set d" "a \<noteq> b"
    and cycle: "(x, a) \<in> (isa ont)\<^sup>*" "(x, x) \<in> (isa ont)\<^sup>+"
  shows "infer_axioms enum ont = None"
proof -
  have "diverging ont d" using d cycle by (auto simp: diverging_def cycle_below_def)
  then have "infer_disjoint enum ont = None"
    using disjoint_sets_exact [OF enum keys sets] d(1) by (auto simp: infer_disjoint_def split: if_splits)
  then show ?thesis by (simp add: infer_axioms_def)
qed

definition example_ontology :: "(string \<times> string list) list \<Rightarrow> ontology" where
  "example_ontology subs = \<lparr>classes = [''a'', ''b'', ''c''], subclass_of = subs, disjoint_classes = [[''a'', ''b'']], equivalent_classes = []\<rparr>"

theorem infer_axioms_exact_witness:
  "\<exists>enum axs. infer_axioms enum (example_ontology [(''c'', [''a''])]) = Some axs \<and> disjoint_axiom ''c'' ''b'' \<in> set axs"
proof -
  obtain enum where enum: "lists_sets enum" using sorted_listing by blast
  let ?o = "example_ontology [(''c'', [''a''])]"
  have isa: "isa ?o = {(''c'', ''a'')}" by (auto simp: isa_def parents_of_def example_ontology_def split: if_splits)
  have "(isa ?o)\<^sup>+ = isa ?o" unfolding isa by (rule trancl_id) (auto simp: trans_def)
  moreover from this have "\<not> diverging ?o [''a'', ''b'']" by (auto simp: diverging_def cycle_below_def isa)
  ultimately show ?thesis
    using infer_axioms_exact [OF enum, of ?o] by (fastforce simp: example_ontology_def isa [unfolded example_ontology_def])
qed

theorem inference_diverges_on_cycles_witness:
  "\<exists>enum. infer_axioms enum (example_ontology [(''a'', [''c'']), (''c'', [''a''])]) = None"
proof -
  obtain enum where enum: "lists_sets enum" using sorted_listing by blast
  let ?o = "example_ontology [(''a'', [''c'']), (''c'', [''a''])]"
  have "(''a'', ''c'') \<in> isa ?o" "(''c'', ''a'') \<in> isa ?o" by (simp_all add: isa_def parents_of_def example_ontology_def)
  then have "(''a'', ''a'') \<in> (isa ?o)\<^sup>+" by (meson r_into_trancl trancl_into_trancl)
  then show ?thesis
    using inference_diverges_on_cycles [OF enum, of ?o "[''a'', ''b'']" "''a''" "''b''" "''a''"] by (auto simp: example_ontology_def)
qed

end
