(* ===== verification/Closure.thy ===== *)
theory Closure
  imports Prelude "HOL-Library.List_Lexorder" "HOL-Library.Char_ord"
begin

text \<open>
  \<open>crates/vault/src/closure.rs\<close> with the slug functions it uses from \<open>crates/vault-core/src/slug.rs\<close>:
  the superclass closure of the vault's corpus, whose order the published index carries, and the
  relations a class inherits. An \<open>IndexMap\<close> is an association list in insertion order; the two hash
  maps that are only looked up are maps. Strings compare by bytes, as in Rust.
\<close>

section \<open>The computation\<close>

record ref =
  ref_iri :: string
  ref_label :: string

record class_record =
  rec_iri :: string
  rec_title :: string
  rec_label :: string
  has_ontology :: bool
  sub_class_of :: "ref list"
  relations :: "string \<rightharpoonup> ref list"

record closure =
  ancestors :: "(string \<times> string list) list"
  direct_parents :: "(string \<times> string list) list"
  inferred_superclasses :: "(string \<times> string list) list"
  inherited_relations :: "(string \<times> (string \<times> ref list) list) list"
  labels :: "string \<rightharpoonup> string"
  iris :: "string \<rightharpoonup> string"

definition INHERITED_RELATION_CAP :: nat where
  "INHERITED_RELATION_CAP = 8"

definition RELATION_KEYS :: "(string \<times> string) list" where
  "RELATION_KEYS =
     [(''has-part'', ''hasPart''), (''requires'', ''requires''), (''enables'', ''enables''), (''depends-on'', ''dependsOn''),
      (''implements'', ''implements''), (''contrasts-with'', ''contrastsWith''), (''bridges-to'', ''bridgesTo''),
      (''uses'', ''uses''), (''supports'', ''supports''), (''standardized-by'', ''standardizedBy''),
      (''part-of'', ''partOf''), (''related-to'', ''relatedTo'')]"

definition ref_slug :: "string \<Rightarrow> string" where
  "ref_slug iri = rev (takeWhile (\<lambda>c. c \<noteq> CHR '':'') (rev iri))"

text \<open>No letter outside ASCII has one of these lower-case forms, so the ASCII mapping decides alike.\<close>

definition is_thing :: "string \<Rightarrow> bool" where
  "is_thing slug = (to_ascii_lowercase slug \<in> {''thing'', ''owl-thing'', ''owl:thing''})"

definition class_slug :: "class_record \<Rightarrow> string" where
  "class_slug r = ref_slug (rec_iri r)"

definition relation :: "class_record \<Rightarrow> string \<Rightarrow> ref list" where
  "relation r key = (case relations r key of Some rs \<Rightarrow> rs | None \<Rightarrow> [])"

record index_state =
  class_by_slug :: "(string \<times> class_record) list"
  parent_map :: "(string \<times> string list) list"
  ix_labels :: "string \<rightharpoonup> string"
  ix_iris :: "string \<rightharpoonup> string"

definition or_insert :: "'a \<Rightarrow> 'b \<Rightarrow> ('a \<rightharpoonup> 'b) \<Rightarrow> ('a \<rightharpoonup> 'b)" where
  "or_insert k v m = (if m k = None then m(k \<mapsto> v) else m)"

definition index_parent :: "string \<Rightarrow> ref \<Rightarrow> string list \<times> index_state \<Rightarrow> string list \<times> index_state" where
  "index_parent slug parent ps_ix =
     (let (parents, ix) = ps_ix; p = ref_slug (ref_iri parent)
      in if p = [] \<or> is_thing p \<or> p = slug then (parents, ix)
         else (if p \<in> set parents then parents else parents @ [p],
               ix\<lparr>ix_labels := or_insert p (if ref_label parent = [] then p else ref_label parent) (ix_labels ix),
                  ix_iris := or_insert p (ref_iri parent) (ix_iris ix)\<rparr>))"

definition index_record :: "class_record \<Rightarrow> index_state \<Rightarrow> index_state" where
  "index_record r ix =
     (if \<not> has_ontology r \<or> rec_iri r = [] then ix
      else let slug = class_slug r
           in if slug \<in> fst ` set (class_by_slug ix) then ix
              else let label = (if rec_label r = [] then if rec_title r = [] then slug else rec_title r else rec_label r);
                       ix1 = ix\<lparr>ix_labels := (ix_labels ix)(slug \<mapsto> label), ix_iris := (ix_iris ix)(slug \<mapsto> rec_iri r)\<rparr>;
                       (parents, ix2) = fold (index_parent slug) (sub_class_of r) ([], ix1)
                   in ix2\<lparr>parent_map := parent_map ix2 @ [(slug, parents)],
                          class_by_slug := class_by_slug ix2 @ [(slug, r)]\<rparr>)"

definition parents_in :: "(string \<times> string list) list \<Rightarrow> string \<Rightarrow> string list" where
  "parents_in pm slug = (case map_of pm slug of Some ps \<Rightarrow> ps | None \<Rightarrow> [])"

text \<open>The grandparents of one level of the search, each once, in the order they are met.\<close>

definition next_level :: "(string \<times> string list) list \<Rightarrow> string set \<Rightarrow> string list \<Rightarrow> string list" where
  "next_level pm visited frontier =
     fold (\<lambda>p. fold (\<lambda>gp next. if gp \<notin> visited \<and> gp \<notin> set next then next @ [gp] else next) (parents_in pm p)) frontier []"

definition known_parents :: "(string \<times> string list) list \<Rightarrow> string set" where
  "known_parents pm = (\<Union>(c, ps) \<in> set pm. set ps)"

lemma next_level_fold:
  "set (fold (\<lambda>p. fold (\<lambda>gp next. if gp \<notin> visited \<and> gp \<notin> set next then next @ [gp] else next) (f p)) ps acc)
     = set acc \<union> ((\<Union>p \<in> set ps. set (f p)) - visited)
   \<and> (distinct acc \<longrightarrow> distinct (fold (\<lambda>p. fold (\<lambda>gp next. if gp \<notin> visited \<and> gp \<notin> set next then next @ [gp] else next) (f p)) ps acc))"
proof (induction ps arbitrary: acc)
  case (Cons p ps)
  have "set (fold (\<lambda>gp next. if gp \<notin> visited \<and> gp \<notin> set next then next @ [gp] else next) gs a) = set a \<union> (set gs - visited)
    \<and> (distinct a \<longrightarrow> distinct (fold (\<lambda>gp next. if gp \<notin> visited \<and> gp \<notin> set next then next @ [gp] else next) gs a))" for gs a
    by (induction gs arbitrary: a) auto
  then show ?case using Cons by auto
qed simp

lemma next_level_facts:
  "set (next_level pm visited frontier) = (\<Union>p \<in> set frontier. set (parents_in pm p)) - visited"
  "distinct (next_level pm visited frontier)"
  using next_level_fold [of visited "parents_in pm" frontier "[]"] by (simp_all add: next_level_def)

lemma known_parents_facts: "finite (known_parents pm)" "set (parents_in pm c) \<subseteq> known_parents pm"
  unfolding known_parents_def parents_in_def by (auto, cases "map_of pm c") (auto dest!: map_of_SomeD)

function walk_up :: "(string \<times> string list) list \<Rightarrow> string set \<Rightarrow> string list \<Rightarrow> string list" where
  "walk_up pm visited frontier =
     (if frontier = [] then []
      else let visited1 = visited \<union> set frontier
           in frontier @ walk_up pm visited1 (sort (next_level pm visited1 frontier)))"
  by pat_completeness auto

termination
proof (relation "measures [\<lambda>(pm, visited, frontier). card (known_parents pm - (visited \<union> set frontier)), \<lambda>(pm, visited, frontier). length frontier]")
  fix pm :: "(string \<times> string list) list" and visited visited1 and frontier :: "string list"
  assume ne: "frontier \<noteq> []" and v1: "visited1 = visited \<union> set frontier"
  let ?next = "next_level pm visited1 frontier"
  have sub: "set ?next \<subseteq> known_parents pm - visited1"
    using known_parents_facts(2) by (fastforce simp: next_level_facts(1))
  show "((pm, visited1, sort ?next), (pm, visited, frontier))
      \<in> measures [\<lambda>(pm, visited, frontier). card (known_parents pm - (visited \<union> set frontier)), \<lambda>(pm, visited, frontier). length frontier]"
  proof (cases "?next = []")
    case True
    then show ?thesis using ne v1 by simp
  next
    case False
    then have "known_parents pm - (visited1 \<union> set ?next) \<subset> known_parents pm - visited1" using sub by (cases ?next) auto
    then have "card (known_parents pm - (visited1 \<union> set ?next)) < card (known_parents pm - visited1)"
      by (intro psubset_card_mono) (simp_all add: known_parents_facts)
    then show ?thesis by (simp add: v1)
  qed
qed simp

declare walk_up.simps [simp del]

definition ancestors_in :: "(string \<times> string list) list \<Rightarrow> string \<Rightarrow> string list" where
  "ancestors_in pm slug = walk_up pm {slug} (filter (\<lambda>p. p \<notin> {slug}) (parents_in pm slug))"

text \<open>One ancestor's refs under a key: taken in slug order until the cap; the flag ends the search.\<close>

fun collect_refs :: "ref list \<Rightarrow> string set \<Rightarrow> ref list \<Rightarrow> string set \<times> ref list \<times> bool" where
  "collect_refs [] seen collected = (seen, collected, False)"
| "collect_refs (r # rs) seen collected =
     (let t = ref_slug (ref_iri r)
      in if t \<in> seen then collect_refs rs seen collected
         else if length (collected @ [r]) \<ge> INHERITED_RELATION_CAP then (insert t seen, collected @ [r], True)
         else collect_refs rs (insert t seen) (collected @ [r]))"

fun collect_from :: "(string \<times> class_record) list \<Rightarrow> string \<Rightarrow> string list \<Rightarrow> string set \<Rightarrow> ref list \<Rightarrow> ref list" where
  "collect_from cs key [] seen collected = collected"
| "collect_from cs key (a # as) seen collected =
     (case map_of cs a of
        None \<Rightarrow> collect_from cs key as seen collected
      | Some r \<Rightarrow>
          (case collect_refs (sort_key (\<lambda>x. ref_slug (ref_iri x)) (relation r key)) seen collected of
             (seen1, collected1, full) \<Rightarrow> if full then collected1 else collect_from cs key as seen1 collected1))"

definition inherited_under :: "(string \<times> class_record) list \<Rightarrow> string list \<Rightarrow> string \<Rightarrow> class_record \<Rightarrow> string \<Rightarrow> ref list" where
  "inherited_under cs ancs slug r key =
     collect_from cs key ancs (insert slug ((\<lambda>x. ref_slug (ref_iri x)) ` set (relation r key))) []"

definition compute_inherited ::
    "(string \<times> class_record) list \<Rightarrow> (string \<times> string list) list \<Rightarrow> (string \<times> (string \<times> ref list) list) list" where
  "compute_inherited cs ancs =
     filter (\<lambda>(slug, inherited). inherited \<noteq> [])
       (map (\<lambda>(slug, r). (slug,
          filter (\<lambda>(key, refs). refs \<noteq> [])
            (map (\<lambda>(_, key). (key, inherited_under cs (parents_in ancs slug) slug r key)) RELATION_KEYS))) cs)"

definition compute :: "class_record list \<Rightarrow> closure" where
  "compute records =
     (let ix = fold index_record records \<lparr>class_by_slug = [], parent_map = [], ix_labels = Map.empty, ix_iris = Map.empty\<rparr>;
          slugs = map fst (class_by_slug ix); pm = parent_map ix;
          ancs = map (\<lambda>slug. (slug, ancestors_in pm slug)) slugs
      in \<lparr>ancestors = ancs,
          direct_parents = map (\<lambda>slug. (slug, parents_in pm slug)) slugs,
          inferred_superclasses = map (\<lambda>slug. (slug, filter (\<lambda>a. a \<notin> set (parents_in pm slug)) (ancestors_in pm slug))) slugs,
          inherited_relations = compute_inherited (class_by_slug ix) ancs,
          labels = ix_labels ix, iris = ix_iris ix\<rparr>)"

definition parents_of :: "closure \<Rightarrow> string \<Rightarrow> string list" where
  "parents_of c slug = parents_in (direct_parents c) slug"

definition inferred_of :: "closure \<Rightarrow> string \<Rightarrow> string list" where
  "inferred_of c slug = parents_in (inferred_superclasses c) slug"

definition iri_of :: "closure \<Rightarrow> string \<Rightarrow> string" where
  "iri_of c slug = (case iris c slug of Some i \<Rightarrow> i | None \<Rightarrow> ''urn:ngm:class:'' @ slug)"

definition label_of :: "closure \<Rightarrow> string \<Rightarrow> string" where
  "label_of c slug = (case labels c slug of Some l \<Rightarrow> l | None \<Rightarrow> slug)"

section \<open>Levels of the search\<close>

definition up :: "(string \<times> string list) list \<Rightarrow> (string \<times> string) set" where
  "up pm = {(c, p). p \<in> set (parents_in pm c)}"

definition ball :: "(string \<times> string list) list \<Rightarrow> string \<Rightarrow> nat \<Rightarrow> string set" where
  "ball pm s n = {x. \<exists>m \<le> n. (s, x) \<in> up pm ^^ m}"

definition at_distance :: "('a \<times> 'a) set \<Rightarrow> 'a \<Rightarrow> nat \<Rightarrow> 'a set" where
  "at_distance R s n = {x. (s, x) \<in> R ^^ n \<and> (\<forall>m < n. (s, x) \<notin> R ^^ m)}"

lemma ball_0 [simp]: "ball pm s 0 = {s}"
  by (auto simp: ball_def)

lemma ball_Suc: "ball pm s (Suc n) = ball pm s n \<union> {x. (s, x) \<in> up pm ^^ Suc n}"
  by (auto simp: ball_def le_Suc_eq simp del: relpow.simps)

lemma at_distance_ball: "at_distance (up pm) s (Suc n) = ball pm s (Suc n) - ball pm s n"
  by (auto simp: at_distance_def ball_def le_Suc_eq less_Suc_eq_le simp del: relpow.simps)

lemma next_level_ball:
  assumes "set frontier = ball pm s (Suc n) - ball pm s n"
  shows "set (next_level pm (ball pm s (Suc n)) frontier) = ball pm s (Suc (Suc n)) - ball pm s (Suc n)"
proof -
  have "(\<Union>p \<in> set frontier. set (parents_in pm p)) - ball pm s (Suc n) = ball pm s (Suc (Suc n)) - ball pm s (Suc n)"
  proof
    show "(\<Union>p \<in> set frontier. set (parents_in pm p)) - ball pm s (Suc n) \<subseteq> ball pm s (Suc (Suc n)) - ball pm s (Suc n)"
    proof
      fix x assume x: "x \<in> (\<Union>p \<in> set frontier. set (parents_in pm p)) - ball pm s (Suc n)"
      then obtain p where "p \<in> ball pm s (Suc n)" "(p, x) \<in> up pm" using assms by (auto simp: up_def)
      then obtain m where "m \<le> Suc n" "(s, p) \<in> up pm ^^ m" "(p, x) \<in> up pm" by (auto simp: ball_def)
      then have "Suc m \<le> Suc (Suc n)" "(s, x) \<in> up pm ^^ Suc m" by auto
      then have "x \<in> ball pm s (Suc (Suc n))" unfolding ball_def by blast
      then show "x \<in> ball pm s (Suc (Suc n)) - ball pm s (Suc n)" using x by blast
    qed
    show "ball pm s (Suc (Suc n)) - ball pm s (Suc n) \<subseteq> (\<Union>p \<in> set frontier. set (parents_in pm p)) - ball pm s (Suc n)"
    proof
      fix x assume x: "x \<in> ball pm s (Suc (Suc n)) - ball pm s (Suc n)"
      then have "(s, x) \<in> up pm ^^ Suc (Suc n)" by (auto simp: ball_Suc)
      then obtain p where p: "(s, p) \<in> up pm ^^ Suc n" "(p, x) \<in> up pm" by auto
      have "p \<notin> ball pm s n"
      proof
        assume "p \<in> ball pm s n"
        then obtain m where "m \<le> n" "(s, p) \<in> up pm ^^ m" by (auto simp: ball_def)
        then have "Suc m \<le> Suc n" "(s, x) \<in> up pm ^^ Suc m" using p(2) by auto
        then show False using x unfolding ball_def by blast
      qed
      then have "p \<in> set frontier" using p(1) assms by (simp add: ball_Suc)
      then show "x \<in> (\<Union>p \<in> set frontier. set (parents_in pm p)) - ball pm s (Suc n)" using p(2) x by (auto simp: up_def)
    qed
  qed
  then show ?thesis by (simp add: next_level_facts(1))
qed

text \<open>Once a level is empty, everything reachable has been met.\<close>

lemma ball_closed:
  assumes "ball pm s (Suc n) = ball pm s n"
  shows "(s, x) \<in> (up pm)\<^sup>* \<Longrightarrow> x \<in> ball pm s n"
proof (induction rule: rtrancl_induct)
  case base
  show ?case by (auto simp: ball_def intro: exI [of _ 0])
next
  case (step y z)
  then obtain m where "m \<le> n" "(s, y) \<in> up pm ^^ m" by (auto simp: ball_def)
  then have "Suc m \<le> Suc n" "(s, z) \<in> up pm ^^ Suc m" using step(2) by auto
  then have "z \<in> ball pm s (Suc n)" unfolding ball_def by blast
  then show ?case using assms by simp
qed

lemma walk_up_levels:
  assumes "visited = ball pm s n" and "set frontier = ball pm s (Suc n) - ball pm s n" and "distinct frontier"
  shows "\<exists>levels. walk_up pm visited frontier = concat levels
    \<and> (\<forall>i < length levels. levels ! i \<noteq> [] \<and> distinct (levels ! i) \<and> set (levels ! i) = at_distance (up pm) s (Suc (n + i))
         \<and> (if i = 0 then levels ! i = frontier else sorted (levels ! i)))
    \<and> distinct (concat levels) \<and> set (concat levels) = {x. (s, x) \<in> (up pm)\<^sup>*} - ball pm s n"
  using assms
proof (induction pm visited frontier arbitrary: n rule: walk_up.induct)
  case (1 pm visited frontier)
  have reach: "ball pm s k \<subseteq> {x. (s, x) \<in> (up pm)\<^sup>*}" for k
    by (auto simp: ball_def relpow_imp_rtrancl)
  show ?case
  proof (cases "frontier = []")
    case True
    then have "ball pm s (Suc n) = ball pm s n" using 1(3) by (auto simp: ball_Suc)
    then have "{x. (s, x) \<in> (up pm)\<^sup>*} - ball pm s n = {}" using ball_closed by blast
    then show ?thesis using True by (intro exI [of _ "[]"]) (simp add: walk_up.simps)
  next
    case False
    let ?v1 = "visited \<union> set frontier"
    let ?next = "sort (next_level pm ?v1 frontier)"
    have v1: "?v1 = ball pm s (Suc n)" using 1(2,3) by (auto simp: ball_Suc)
    then have nx: "set ?next = ball pm s (Suc (Suc n)) - ball pm s (Suc n)" "distinct ?next"
      using next_level_ball [OF 1(3)] next_level_facts(2) by simp_all
    obtain levels where l: "walk_up pm ?v1 ?next = concat levels"
      "\<forall>i < length levels. levels ! i \<noteq> [] \<and> distinct (levels ! i) \<and> set (levels ! i) = at_distance (up pm) s (Suc (Suc n + i))
         \<and> (if i = 0 then levels ! i = ?next else sorted (levels ! i))"
      "distinct (concat levels)" "set (concat levels) = {x. (s, x) \<in> (up pm)\<^sup>*} - ball pm s (Suc n)"
      using 1(1) [OF False refl v1 nx] by blast
    have srt: "sorted (levels ! i)" if "i < length levels" for i
      using l(2) that by (cases "i = 0") auto
    have "\<forall>i < length (frontier # levels). (frontier # levels) ! i \<noteq> [] \<and> distinct ((frontier # levels) ! i)
        \<and> set ((frontier # levels) ! i) = at_distance (up pm) s (Suc (n + i))
        \<and> (if i = 0 then (frontier # levels) ! i = frontier else sorted ((frontier # levels) ! i))"
    proof (intro allI impI)
      fix i assume "i < length (frontier # levels)"
      then show "(frontier # levels) ! i \<noteq> [] \<and> distinct ((frontier # levels) ! i)
        \<and> set ((frontier # levels) ! i) = at_distance (up pm) s (Suc (n + i))
        \<and> (if i = 0 then (frontier # levels) ! i = frontier else sorted ((frontier # levels) ! i))"
        using l(2) srt False 1(3,4) by (cases i) (auto simp: at_distance_ball)
    qed
    moreover have "set frontier \<inter> set (concat levels) = {}" using 1(3) l(4) by auto
    moreover have "set (concat (frontier # levels)) = {x. (s, x) \<in> (up pm)\<^sup>*} - ball pm s n"
      using 1(3) l(4) reach [of "Suc n"] by (auto simp: ball_Suc)
    moreover have "walk_up pm visited frontier = concat (frontier # levels)"
      using False l(1) by (subst walk_up.simps) (simp add: Let_def)
    moreover from calculation(2) have "distinct (concat (frontier # levels))" using 1(4) l(3) by simp
    ultimately show ?thesis by (intro exI [of _ "frontier # levels"]) blast
  qed
qed

lemma ancestors_in_levels:
  assumes "distinct (parents_in pm s)" and "s \<notin> set (parents_in pm s)"
  shows "\<exists>levels. ancestors_in pm s = concat levels
    \<and> (\<forall>i < length levels. levels ! i \<noteq> [] \<and> distinct (levels ! i) \<and> set (levels ! i) = at_distance (up pm) s (i + 1)
         \<and> (if i = 0 then levels ! i = parents_in pm s else sorted (levels ! i)))
    \<and> distinct (concat levels) \<and> set (concat levels) = {x. (s, x) \<in> (up pm)\<^sup>+} - {s}"
proof -
  have f: "filter (\<lambda>p. p \<notin> {s}) (parents_in pm s) = parents_in pm s" using assms(2) by (auto simp: filter_id_conv)
  have "set (parents_in pm s) = ball pm s (Suc 0) - ball pm s 0" using assms(2) by (auto simp: ball_Suc up_def)
  from walk_up_levels [OF refl this assms(1)] obtain levels where
    "walk_up pm (ball pm s 0) (parents_in pm s) = concat levels"
    "\<forall>i < length levels. levels ! i \<noteq> [] \<and> distinct (levels ! i) \<and> set (levels ! i) = at_distance (up pm) s (Suc (0 + i))
       \<and> (if i = 0 then levels ! i = parents_in pm s else sorted (levels ! i))"
    "distinct (concat levels)" "set (concat levels) = {x. (s, x) \<in> (up pm)\<^sup>*} - ball pm s 0" by blast
  then show ?thesis unfolding ancestors_in_def f by (intro exI [of _ levels]) (auto simp: rtrancl_eq_or_trancl)
qed
section \<open>The indexed hierarchy\<close>

definition defines_class :: "class_record \<Rightarrow> bool" where
  "defines_class r \<longleftrightarrow> has_ontology r \<and> rec_iri r \<noteq> []"

text \<open>The first record that defines a slug.\<close>

definition record_for :: "class_record list \<Rightarrow> string \<Rightarrow> class_record option" where
  "record_for records slug = find (\<lambda>r. defines_class r \<and> class_slug r = slug) records"

definition useful_parent :: "string \<Rightarrow> string \<Rightarrow> bool" where
  "useful_parent slug p \<longleftrightarrow> p \<noteq> [] \<and> \<not> is_thing p \<and> p \<noteq> slug"

text \<open>First occurrences, in order.\<close>

fun firsts :: "'a list \<Rightarrow> 'a list" where
  "firsts [] = []"
| "firsts (x # xs) = x # firsts (filter (\<lambda>y. y \<noteq> x) xs)"

definition asserted_parents :: "class_record \<Rightarrow> string list" where
  "asserted_parents r = filter (useful_parent (class_slug r)) (map (\<lambda>x. ref_slug (ref_iri x)) (sub_class_of r))"

lemma firsts_facts: "set (firsts xs) = set xs \<and> distinct (firsts xs)"
proof (induction xs rule: length_induct)
  case (1 xs)
  show ?case
  proof (cases xs)
    case (Cons y ys)
    have "length (filter (\<lambda>z. z \<noteq> y) ys) < length xs" using Cons by (simp add: le_imp_less_Suc)
    then have "set (firsts (filter (\<lambda>z. z \<noteq> y) ys)) = set (filter (\<lambda>z. z \<noteq> y) ys) \<and> distinct (firsts (filter (\<lambda>z. z \<noteq> y) ys))"
      using 1 by blast
    then show ?thesis using Cons by auto
  qed simp
qed

lemma firsts_snoc: "firsts (xs @ [x]) = (if x \<in> set xs then firsts xs else firsts xs @ [x])"
proof (induction xs rule: length_induct)
  case (1 xs)
  show ?case
  proof (cases xs)
    case (Cons y ys)
    have "length (filter (\<lambda>z. z \<noteq> y) ys) < length xs" using Cons by (simp add: le_imp_less_Suc)
    then show ?thesis using 1 Cons by auto
  qed simp
qed

lemma index_parent_parents:
  "fst (fold (index_parent slug) rs (firsts ps, ix))
     = firsts (ps @ filter (useful_parent slug) (map (\<lambda>x. ref_slug (ref_iri x)) rs))
   \<and> parent_map (snd (fold (index_parent slug) rs (firsts ps, ix))) = parent_map ix
   \<and> class_by_slug (snd (fold (index_parent slug) rs (firsts ps, ix))) = class_by_slug ix"
proof (induction rs arbitrary: ps ix)
  case (Cons r rs)
  let ?p = "ref_slug (ref_iri r)"
  show ?case
  proof (cases "useful_parent slug ?p")
    case True
    then have "fst (index_parent slug r (firsts ps, ix)) = firsts (ps @ [?p])"
      "parent_map (snd (index_parent slug r (firsts ps, ix))) = parent_map ix"
      "class_by_slug (snd (index_parent slug r (firsts ps, ix))) = class_by_slug ix"
      using firsts_facts [of ps] by (auto simp: index_parent_def useful_parent_def Let_def firsts_snoc)
    then show ?thesis
      using Cons [of "ps @ [?p]" "snd (index_parent slug r (firsts ps, ix))"] True
      by (metis (no_types, lifting) append.assoc append_Cons append_Nil filter.simps(2) fold_simps(2) list.simps(9) prod.collapse)
  next
    case False
    then have "index_parent slug r (firsts ps, ix) = (firsts ps, ix)"
      by (auto simp: index_parent_def useful_parent_def Let_def)
    then show ?thesis using Cons [of ps ix] False by simp
  qed
qed simp

lemma index_record_tables:
  "class_by_slug (index_record r ix) =
     (if defines_class r \<and> class_slug r \<notin> fst ` set (class_by_slug ix) then class_by_slug ix @ [(class_slug r, r)] else class_by_slug ix)"
  "parent_map (index_record r ix) =
     (if defines_class r \<and> class_slug r \<notin> fst ` set (class_by_slug ix) then parent_map ix @ [(class_slug r, firsts (asserted_parents r))]
      else parent_map ix)"
  using index_parent_parents [of "class_slug r" "sub_class_of r" "[]"]
  by (auto simp: index_record_def defines_class_def asserted_parents_def Let_def split_beta)

lemma index_record_lookup:
  assumes "map fst (parent_map ix) = map fst (class_by_slug ix)"
  shows "map_of (class_by_slug (index_record r ix)) slug = (case map_of (class_by_slug ix) slug of
       Some x \<Rightarrow> Some x | None \<Rightarrow> if defines_class r \<and> class_slug r = slug then Some r else None)"
    and "map_of (parent_map (index_record r ix)) slug = (case map_of (parent_map ix) slug of
       Some x \<Rightarrow> Some x | None \<Rightarrow> if defines_class r \<and> class_slug r = slug then Some (firsts (asserted_parents r)) else None)"
proof -
  have keys: "k \<in> fst ` set (class_by_slug ix) \<longleftrightarrow> map_of (class_by_slug ix) k \<noteq> None"
    "k \<in> fst ` set (class_by_slug ix) \<longleftrightarrow> map_of (parent_map ix) k \<noteq> None" for k
    using assms by (metis list.set_map map_of_eq_None_iff)+
  show "map_of (class_by_slug (index_record r ix)) slug = (case map_of (class_by_slug ix) slug of
       Some x \<Rightarrow> Some x | None \<Rightarrow> if defines_class r \<and> class_slug r = slug then Some r else None)"
    unfolding index_record_tables keys(1) by (auto simp: map_add_def split: option.split)
  show "map_of (parent_map (index_record r ix)) slug = (case map_of (parent_map ix) slug of
       Some x \<Rightarrow> Some x | None \<Rightarrow> if defines_class r \<and> class_slug r = slug then Some (firsts (asserted_parents r)) else None)"
    unfolding index_record_tables keys(2) by (auto simp: map_add_def split: option.split)
qed

lemma index_all:
  assumes "map fst (parent_map ix) = map fst (class_by_slug ix)" and "distinct (map fst (class_by_slug ix))"
  shows "map fst (parent_map (fold index_record records ix)) = map fst (class_by_slug (fold index_record records ix))
    \<and> distinct (map fst (class_by_slug (fold index_record records ix)))
    \<and> map_of (class_by_slug (fold index_record records ix)) slug =
          (case map_of (class_by_slug ix) slug of Some r \<Rightarrow> Some r | None \<Rightarrow> record_for records slug)
    \<and> map_of (parent_map (fold index_record records ix)) slug =
          (case map_of (parent_map ix) slug of Some ps \<Rightarrow> Some ps | None \<Rightarrow> map_option (\<lambda>r. firsts (asserted_parents r)) (record_for records slug))"
  using assms
proof (induction records arbitrary: ix)
  case Nil
  then show ?case by (auto simp: record_for_def split: option.split)
next
  case (Cons r records)
  have keys: "map fst (parent_map (index_record r ix)) = map fst (class_by_slug (index_record r ix))"
    "distinct (map fst (class_by_slug (index_record r ix)))"
    using Cons.prems by (auto simp: index_record_tables)
  have rec: "record_for (r # records) slug = (if defines_class r \<and> class_slug r = slug then Some r else record_for records slug)"
    by (simp add: record_for_def)
  have none: "map_of (class_by_slug ix) slug = None \<longleftrightarrow> map_of (parent_map ix) slug = None"
    using Cons.prems(1) by (metis list.set_map map_of_eq_None_iff)
  note ih = Cons.IH [OF keys] index_record_lookup [OF Cons.prems(1), of r slug]
  show ?case
    using ih(1) none unfolding ih(2,3) rec fold_simps by (cases "map_of (class_by_slug ix) slug"; cases "map_of (parent_map ix) slug") auto
qed
definition asserted :: "class_record list \<Rightarrow> (string \<times> string) set" where
  "asserted records = {(c, p). \<exists>r. record_for records c = Some r \<and> p \<in> set (asserted_parents r)}"

definition indexed :: "class_record list \<Rightarrow> index_state" where
  "indexed records =
     fold index_record records \<lparr>class_by_slug = [], parent_map = [], ix_labels = Map.empty, ix_iris = Map.empty\<rparr>"

lemma indexed_facts:
  "map fst (parent_map (indexed records)) = map fst (class_by_slug (indexed records))"
  "distinct (map fst (class_by_slug (indexed records)))"
  "map_of (class_by_slug (indexed records)) slug = record_for records slug"
  "map_of (parent_map (indexed records)) slug = map_option (\<lambda>r. firsts (asserted_parents r)) (record_for records slug)"
  using index_all [of "\<lparr>class_by_slug = [], parent_map = [], ix_labels = Map.empty, ix_iris = Map.empty\<rparr>" records slug]
  by (simp_all add: indexed_def)

lemma record_for_slug: "record_for records slug = Some r \<Longrightarrow> class_slug r = slug"
  by (auto simp: record_for_def find_Some_iff)

lemma indexed_parents:
  "parents_in (parent_map (indexed records)) slug =
     (case record_for records slug of Some r \<Rightarrow> firsts (asserted_parents r) | None \<Rightarrow> [])"
  by (simp add: parents_in_def indexed_facts(4) split: option.split)

lemma up_indexed: "up (parent_map (indexed records)) = asserted records"
proof -
  have "p \<in> set (parents_in (parent_map (indexed records)) c) \<longleftrightarrow> (\<exists>r. record_for records c = Some r \<and> p \<in> set (asserted_parents r))" for c p
    by (cases "record_for records c") (simp_all add: indexed_parents firsts_facts)
  then show ?thesis by (simp add: up_def asserted_def)
qed

lemma map_of_slugs: "map_of (map (\<lambda>s. (s, f s)) (map fst xs)) slug = (if map_of xs slug = None then None else Some (f slug))"
  by (induction xs) auto

lemma compute_indexed:
  "compute records = (let ix = indexed records; slugs = map fst (class_by_slug ix); pm = parent_map ix;
          ancs = map (\<lambda>slug. (slug, ancestors_in pm slug)) slugs
      in \<lparr>ancestors = ancs,
          direct_parents = map (\<lambda>slug. (slug, parents_in pm slug)) slugs,
          inferred_superclasses = map (\<lambda>slug. (slug, filter (\<lambda>a. a \<notin> set (parents_in pm slug)) (ancestors_in pm slug))) slugs,
          inherited_relations = compute_inherited (class_by_slug ix) ancs,
          labels = ix_labels ix, iris = ix_iris ix\<rparr>)"
  by (simp only: compute_def indexed_def)

text \<open>
  C15. For every class of the corpus \<open>compute\<close> returns, cycles or not, each of its transitive
  superclasses once, never itself, nearest first: the first level is the direct parents in the order
  asserted, each later level holds exactly the classes at that distance, in alphabetical order; the
  inferred superclasses are the same list without the direct parents.
\<close>

theorem ancestors_by_proximity:
  assumes "record_for records slug = Some r"
  shows "\<exists>levels. map_of (ancestors (compute records)) slug = Some (concat levels)
    \<and> map_of (direct_parents (compute records)) slug = Some (firsts (asserted_parents r))
    \<and> map_of (inferred_superclasses (compute records)) slug = Some (filter (\<lambda>a. (slug, a) \<notin> asserted records) (concat levels))
    \<and> (\<forall>i < length levels. levels ! i \<noteq> [] \<and> distinct (levels ! i) \<and> set (levels ! i) = at_distance (asserted records) slug (i + 1)
         \<and> (if i = 0 then levels ! i = firsts (asserted_parents r) else sorted (levels ! i)))
    \<and> distinct (concat levels) \<and> set (concat levels) = {x. (slug, x) \<in> (asserted records)\<^sup>+} - {slug}"
proof -
  let ?pm = "parent_map (indexed records)"
  have p: "parents_in ?pm slug = firsts (asserted_parents r)" using assms by (simp add: indexed_parents)
  have "distinct (parents_in ?pm slug)" "slug \<notin> set (parents_in ?pm slug)"
    using firsts_facts [of "asserted_parents r"] record_for_slug [OF assms]
    by (auto simp: p asserted_parents_def useful_parent_def)
  from ancestors_in_levels [OF this] obtain levels where l: "ancestors_in ?pm slug = concat levels"
    "\<forall>i < length levels. levels ! i \<noteq> [] \<and> distinct (levels ! i) \<and> set (levels ! i) = at_distance (asserted records) slug (i + 1)
         \<and> (if i = 0 then levels ! i = firsts (asserted_parents r) else sorted (levels ! i))"
    "distinct (concat levels)" "set (concat levels) = {x. (slug, x) \<in> (asserted records)\<^sup>+} - {slug}"
    unfolding up_indexed p by blast
  have "(slug, a) \<notin> asserted records \<longleftrightarrow> a \<notin> set (parents_in ?pm slug)" for a
    using up_indexed [of records] by (auto simp: up_def)
  then show ?thesis
    using l p assms by (intro exI [of _ levels])
      (simp add: compute_indexed Let_def map_of_slugs indexed_facts(3) del: map_map)
qed

section \<open>Inherited relations\<close>

text \<open>The refs whose slug was not seen before.\<close>

fun fresh_refs :: "string set \<Rightarrow> ref list \<Rightarrow> ref list" where
  "fresh_refs seen [] = []"
| "fresh_refs seen (r # rs) =
     (if ref_slug (ref_iri r) \<in> seen then fresh_refs seen rs else r # fresh_refs (insert (ref_slug (ref_iri r)) seen) rs)"

lemma collect_refs_fresh:
  "length collected < INHERITED_RELATION_CAP \<Longrightarrow>
   (if INHERITED_RELATION_CAP \<le> length collected + length (fresh_refs seen rs)
    then \<exists>seen1. collect_refs rs seen collected = (seen1, take INHERITED_RELATION_CAP (collected @ fresh_refs seen rs), True)
    else \<exists>seen1. collect_refs rs seen collected = (seen1, collected @ fresh_refs seen rs, False)
      \<and> (\<forall>rs'. fresh_refs seen (rs @ rs') = fresh_refs seen rs @ fresh_refs seen1 rs'))"
proof (induction rs arbitrary: seen collected)
  case (Cons r rs)
  let ?t = "ref_slug (ref_iri r)"
  show ?case
  proof (cases "?t \<in> seen")
    case True
    then have "collect_refs (r # rs) seen collected = collect_refs rs seen collected"
      "\<And>rs'. fresh_refs seen ((r # rs) @ rs') = fresh_refs seen (rs @ rs')" "fresh_refs seen (r # rs) = fresh_refs seen rs" by simp_all
    then show ?thesis using Cons by presburger
  next
    case new: False
    show ?thesis
    proof (cases "length (collected @ [r]) \<ge> INHERITED_RELATION_CAP")
      case True
      then have "length collected + 1 = INHERITED_RELATION_CAP" using Cons.prems by simp
      then have "INHERITED_RELATION_CAP - length collected = Suc 0" "INHERITED_RELATION_CAP \<le> Suc (length collected)" by simp_all
      then show ?thesis using new by (simp add: Let_def)
    next
      case False
      then show ?thesis using Cons.IH [of "collected @ [r]" "insert ?t seen"] new by (auto simp: Let_def)
    qed
  qed
qed simp

lemma collect_from_fresh:
  "length collected < INHERITED_RELATION_CAP \<Longrightarrow>
   collect_from cs key as seen collected = take INHERITED_RELATION_CAP (collected @ fresh_refs seen
     (concat (map (\<lambda>a. case map_of cs a of None \<Rightarrow> [] | Some r \<Rightarrow> sort_key (\<lambda>x. ref_slug (ref_iri x)) (relation r key)) as)))"
proof (induction as arbitrary: seen collected)
  case (Cons a as)
  show ?case
  proof (cases "map_of cs a")
    case None
    then show ?thesis using Cons by simp
  next
    case (Some r)
    let ?rs = "sort_key (\<lambda>x. ref_slug (ref_iri x)) (relation r key)"
    let ?rest = "concat (map (\<lambda>a. case map_of cs a of None \<Rightarrow> [] | Some r \<Rightarrow> sort_key (\<lambda>x. ref_slug (ref_iri x)) (relation r key)) as)"
    note one = collect_refs_fresh [OF Cons.prems, of seen ?rs]
    show ?thesis
    proof (cases "INHERITED_RELATION_CAP \<le> length collected + length (fresh_refs seen ?rs)")
      case True
      then obtain seen1 where "collect_refs ?rs seen collected = (seen1, take INHERITED_RELATION_CAP (collected @ fresh_refs seen ?rs), True)"
        using one by auto
      moreover have "\<exists>zs. fresh_refs seen (xs @ ys) = fresh_refs seen xs @ zs" for xs ys seen
        by (induction xs arbitrary: seen) auto
      then obtain zs where "fresh_refs seen (?rs @ ?rest) = fresh_refs seen ?rs @ zs" by blast
      ultimately show ?thesis using Some True by simp
    next
      case False
      then obtain seen1 where "collect_refs ?rs seen collected = (seen1, collected @ fresh_refs seen ?rs, False)"
        "fresh_refs seen (?rs @ ?rest) = fresh_refs seen ?rs @ fresh_refs seen1 ?rest"
        using one by auto
      then show ?thesis using Some False Cons.IH [of "collected @ fresh_refs seen ?rs" seen1] by simp
    qed
  qed
qed simp

lemma map_of_filter_map:
  assumes "distinct (map fst xs)" and "(k, v) \<in> set xs"
  shows "map_of (filter (\<lambda>(k, y). P y) (map (\<lambda>(k, v). (k, f k v)) xs)) k = (if P (f k v) then Some (f k v) else None)"
proof -
  let ?ys = "filter (\<lambda>(k, y). P y) (map (\<lambda>(k, v). (k, f k v)) xs)"
  have "map fst (map (\<lambda>(k, v). (k, f k v)) xs) = map fst xs" by (induction xs) auto
  then have dist: "distinct (map fst ?ys)" using assms(1) distinct_map_filter by metis
  show ?thesis
  proof (cases "P (f k v)")
    case True
    then have "(k, f k v) \<in> set ?ys" using assms(2) by force
    then show ?thesis using True dist by simp
  next
    case False
    have "w = v" if "(k, w) \<in> set xs" for w using that assms by (metis eq_key_imp_eq_value)
    then have "k \<notin> fst ` set ?ys" using False by auto
    then show ?thesis using False by (simp add: map_of_eq_None_iff)
  qed
qed

text \<open>
  C31. What a class inherits under a relation: going through its ancestors nearest first and each
  ancestor's targets in alphabetical order, the first eight that it does not state itself, each
  target once and never the class itself.
\<close>

theorem inherited_relations_exact:
  assumes "record_for records slug = Some r" and "(k, key) \<in> set RELATION_KEYS"
    and "map_of (ancestors (compute records)) slug = Some ancs"
  shows "(case map_of (inherited_relations (compute records)) slug of None \<Rightarrow> []
          | Some inherited \<Rightarrow> (case map_of inherited key of None \<Rightarrow> [] | Some refs \<Rightarrow> refs))
    = take 8 (fresh_refs (insert slug ((\<lambda>x. ref_slug (ref_iri x)) ` set (relation r key)))
        (concat (map (\<lambda>a. case record_for records a of None \<Rightarrow> []
                          | Some ra \<Rightarrow> sort_key (\<lambda>x. ref_slug (ref_iri x)) (relation ra key)) ancs)))"
proof -
  let ?cs = "class_by_slug (indexed records)" and ?pm = "parent_map (indexed records)"
  define inh where "inh = (\<lambda>s r. filter (\<lambda>(key, refs). refs \<noteq> [])
     (map (\<lambda>(_, key). (key, inherited_under ?cs (ancestors_in ?pm s) s r key)) RELATION_KEYS))"
  have entry: "(slug, r) \<in> set ?cs" using assms(1) indexed_facts(3) [of records slug] by (metis map_of_SomeD)
  have ancs: "ancestors_in ?pm slug = ancs" "parents_in (map (\<lambda>s. (s, ancestors_in ?pm s)) (map fst ?cs)) s =
     (if map_of ?cs s = None then [] else ancestors_in ?pm s)" for s
    using assms(1,3) by (simp_all add: compute_indexed Let_def map_of_slugs indexed_facts(3) parents_in_def del: map_map)
  have "inherited_relations (compute records) = filter (\<lambda>(s, i). i \<noteq> []) (map (\<lambda>(s, r). (s, inh s r)) ?cs)"
  proof -
    have some: "map_of ?cs s \<noteq> None" if "(s, x) \<in> set ?cs" for s x using that by (auto simp: map_of_eq_None_iff rev_image_eqI)
    have eq: "map (\<lambda>(s, r). (s, filter (\<lambda>(key, refs). refs \<noteq> []) (map (\<lambda>(_, key). (key, inherited_under ?cs
        (parents_in (map (\<lambda>s. (s, ancestors_in ?pm s)) (map fst ?cs)) s) s r key)) RELATION_KEYS))) ?cs = map (\<lambda>(s, r). (s, inh s r)) ?cs"
    proof (intro map_cong refl)
      fix p assume "p \<in> set ?cs"
      then have "p = (fst p, snd p)" "map_of ?cs (fst p) \<noteq> None" using some [of "fst p" "snd p"] by simp_all
      then obtain s x where p: "p = (s, x)" "map_of ?cs s \<noteq> None" by blast
      show "(case p of (s, r) \<Rightarrow> (s, filter (\<lambda>(key, refs). refs \<noteq> []) (map (\<lambda>(_, key). (key, inherited_under ?cs
        (parents_in (map (\<lambda>s. (s, ancestors_in ?pm s)) (map fst ?cs)) s) s r key)) RELATION_KEYS))) = (case p of (s, r) \<Rightarrow> (s, inh s r))"
        using p(2) unfolding ancs(2) p(1) inh_def by (simp only: if_False prod.case simp_thms)
    qed
    have "inherited_relations (compute records) = compute_inherited ?cs (map (\<lambda>s. (s, ancestors_in ?pm s)) (map fst ?cs))"
      by (simp only: compute_indexed Let_def closure.simps)
    then show ?thesis unfolding compute_inherited_def eq .
  qed
  then have lookup: "map_of (inherited_relations (compute records)) slug = (if inh slug r \<noteq> [] then Some (inh slug r) else None)"
    using map_of_filter_map [OF indexed_facts(2) entry, of "\<lambda>i. i \<noteq> []" inh] by simp
  have keys: "distinct (map fst (map prod.swap RELATION_KEYS))" by (simp add: RELATION_KEYS_def)
  have "inh slug r = filter (\<lambda>(key, refs). refs \<noteq> []) (map (\<lambda>(key, k). (key, inherited_under ?cs ancs slug r key)) (map prod.swap RELATION_KEYS))"
  proof -
    have "map (\<lambda>(_, key). (key, inherited_under ?cs ancs slug r key)) RELATION_KEYS
      = map (\<lambda>(key, k). (key, inherited_under ?cs ancs slug r key)) (map prod.swap RELATION_KEYS)"
      by (simp add: RELATION_KEYS_def)
    then show ?thesis unfolding inh_def ancs(1) by (rule arg_cong)
  qed
  moreover have "(key, k) \<in> set (map prod.swap RELATION_KEYS)" using assms(2) by force
  ultimately have "map_of (inh slug r) key =
     (if inherited_under ?cs ancs slug r key \<noteq> [] then Some (inherited_under ?cs ancs slug r key) else None)"
    using map_of_filter_map [OF keys, of key k "\<lambda>i. i \<noteq> []" "\<lambda>key _. inherited_under ?cs ancs slug r key"] by simp
  then have "(case map_of (inherited_relations (compute records)) slug of None \<Rightarrow> []
      | Some inherited \<Rightarrow> (case map_of inherited key of None \<Rightarrow> [] | Some refs \<Rightarrow> refs)) = inherited_under ?cs ancs slug r key"
    using lookup by (cases "inh slug r = []") (auto split: if_splits)
  then show ?thesis
    by (simp add: inherited_under_def collect_from_fresh indexed_facts(3) INHERITED_RELATION_CAP_def)
qed

definition example_record :: "string \<Rightarrow> string list \<Rightarrow> string list \<Rightarrow> class_record" where
  "example_record slug ups uses = \<lparr>rec_iri = ''urn:ngm:class:'' @ slug, rec_title = slug, rec_label = [], has_ontology = True,
     sub_class_of = map (\<lambda>u. \<lparr>ref_iri = u, ref_label = []\<rparr>) ups,
     relations = [''uses'' \<mapsto> map (\<lambda>u. \<lparr>ref_iri = u, ref_label = []\<rparr>) uses]\<rparr>"

lemma example_slugs: "ref_slug ''urn:ngm:class:a'' = ''a''" "ref_slug ''urn:ngm:class:b'' = ''b''"
  by (simp_all add: ref_slug_def)

theorem ancestors_by_proximity_witness:
  "\<exists>levels. map_of (ancestors (compute [example_record ''a'' [''b''] [], example_record ''b'' [''a''] []])) ''a'' = Some (concat levels)
     \<and> ''a'' \<notin> set (concat levels)"
proof -
  let ?rs = "[example_record ''a'' [''b''] [], example_record ''b'' [''a''] []]"
  have "record_for ?rs ''a'' = Some (example_record ''a'' [''b''] [])"
    by (simp add: record_for_def defines_class_def example_record_def class_slug_def example_slugs)
  from ancestors_by_proximity [OF this] show ?thesis by blast
qed

theorem inherited_relations_exact_witness:
  "\<exists>refs. (case map_of (inherited_relations (compute [example_record ''a'' [''b''] [], example_record ''b'' [] [''c'']])) ''a'' of
     None \<Rightarrow> [] | Some inherited \<Rightarrow> (case map_of inherited ''uses'' of None \<Rightarrow> [] | Some refs \<Rightarrow> refs)) = refs \<and> length refs \<le> 8"
proof -
  let ?rs = "[example_record ''a'' [''b''] [], example_record ''b'' [] [''c'']]"
  have r: "record_for ?rs ''a'' = Some (example_record ''a'' [''b''] [])"
    by (simp add: record_for_def defines_class_def example_record_def class_slug_def example_slugs)
  have k: "(''uses'', ''uses'') \<in> set RELATION_KEYS" by (simp add: RELATION_KEYS_def)
  have "map_of (class_by_slug (indexed ?rs)) ''a'' \<noteq> None" using r indexed_facts(3) [of ?rs "''a''"] by simp
  then have "map_of (ancestors (compute ?rs)) ''a'' = Some (ancestors_in (parent_map (indexed ?rs)) ''a'')"
    by (simp add: compute_indexed Let_def map_of_slugs del: map_map)
  from inherited_relations_exact [OF r k this] show ?thesis by simp
qed

end
