(* ===== verification/Broker.thy ===== *)
theory Broker
  imports Prelude
begin

text \<open>
  \<open>src/domain/broker\<close>: the case aggregate (\<open>broker_case.rs\<close>), decision outcomes and
  their orchestration (\<open>broker_decision.rs\<close>) and the precedent registry
  (\<open>precedent_registry.rs\<close>). A method that takes \<open>&mut self\<close> returns its result and
  the aggregate it leaves behind, also when the result is an error, so that an error after a
  mutation is visible. Wall-clock reads are arguments.
\<close>

section \<open>Values\<close>

type_synonym datetime = int

datatype case_category =
    ContributorMeshShare | WorkflowReview | PolicyExceptionCategory | TrustAlert
  | ManualSubmission | KnowledgeEnrichment | DecisionElevation

datatype subject_kind = WorkArtifact | SkillPackage | AutomationProposal | PolicyException | Opaque

datatype share_state = Private | Team | Mesh

fun can_advance_to :: "share_state \<Rightarrow> share_state \<Rightarrow> bool" where
  "can_advance_to Private Team = True"
| "can_advance_to Team Mesh = True"
| "can_advance_to Private Mesh = True"
| "can_advance_to _ _ = False"

record subject_ref =
  subj_kind :: subject_kind
  subj_id :: string
  from_state :: "share_state option"
  to_state :: "share_state option"

datatype case_state = Open | UnderReview | Decided | Delegated | Promoted | PrecedentState | CaseClosed

definition is_terminal :: "case_state \<Rightarrow> bool" where
  "is_terminal s = (s \<in> {Decided, Delegated, Promoted, PrecedentState, CaseClosed})"

datatype decision_outcome =
    Approve | Reject | Amend string | Delegate string | Promote string | Precedent string

fun action_str :: "decision_outcome \<Rightarrow> string" where
  "action_str Approve = ''approve''"
| "action_str Reject = ''reject''"
| "action_str (Amend _) = ''amend''"
| "action_str (Delegate _) = ''delegate''"
| "action_str (Promote _) = ''promote''"
| "action_str (Precedent _) = ''precedent''"

definition from_action :: "string \<Rightarrow> string option \<Rightarrow> decision_outcome option" where
  "from_action action detail =
     (let s = to_ascii_lowercase (trim action)
      in if s \<in> {''approve'', ''approved'', ''accept'', ''accepted''} then Some Approve
         else if starts_with ''reject'' s then Some Reject
         else if s = ''amend'' then map_option Amend detail
         else if s = ''delegate'' then map_option Delegate detail
         else if s = ''promote'' then Some (Promote (case detail of Some d \<Rightarrow> d | None \<Rightarrow> []))
         else if s = ''precedent'' then map_option Precedent detail
         else None)"

datatype case_invariant_error =
    SelfReview string
  | AlreadyTerminal case_state
  | BrokenProvenance "string option" "string option"
  | InvalidTransition case_state case_state
  | MissingAmendmentDiff
  | MissingDelegateTarget

record decision_history_entry =
  decision_id :: string
  outcome :: decision_outcome
  broker_pubkey :: string
  decided_at :: datetime
  prior_decision_id :: "string option"
  reasoning :: string

section \<open>The case aggregate\<close>

record broker_case =
  case_id :: string
  category :: case_category
  subject :: subject_ref
  title :: string
  summary :: string
  case_state :: case_state
  priority :: u8
  created_by :: string
  created_at :: datetime
  updated_at :: datetime
  assigned_to :: "string option"
  history :: "decision_history_entry list"
  case_metadata :: "string \<rightharpoonup> string"

definition new_case ::
  "string \<Rightarrow> case_category \<Rightarrow> subject_ref \<Rightarrow> string \<Rightarrow> string \<Rightarrow> string \<Rightarrow> u8 \<Rightarrow> datetime \<Rightarrow> broker_case" where
  "new_case i cat subj t sm creator prio now =
     \<lparr>case_id = i, category = cat, subject = subj, title = t, summary = sm, case_state = Open,
      priority = prio, created_by = creator, created_at = now, updated_at = now,
      assigned_to = None, history = [], case_metadata = Map.empty\<rparr>"

definition claim :: "string \<Rightarrow> datetime \<Rightarrow> broker_case \<Rightarrow> (case_invariant_error + unit) \<times> broker_case" where
  "claim b now c =
     (if b = created_by c then (Err (SelfReview b), c)
      else case case_state c of
             Open \<Rightarrow> (Ok (), c\<lparr>case_state := UnderReview, assigned_to := Some b, updated_at := now\<rparr>)
           | UnderReview \<Rightarrow>
               (if assigned_to c = Some b then (Ok (), c)
                else (Err (InvalidTransition (case_state c) UnderReview), c))
           | other \<Rightarrow> (Err (AlreadyTerminal other), c))"

definition release_claim :: "datetime \<Rightarrow> broker_case \<Rightarrow> (case_invariant_error + unit) \<times> broker_case" where
  "release_claim now c =
     (if case_state c \<noteq> UnderReview then (Err (InvalidTransition (case_state c) Open), c)
      else (Ok (), c\<lparr>case_state := Open, assigned_to := None, updated_at := now\<rparr>))"

fun outcome_state :: "decision_outcome \<Rightarrow> case_state" where
  "outcome_state Approve = Decided"
| "outcome_state Reject = Decided"
| "outcome_state (Amend _) = Decided"
| "outcome_state (Delegate _) = Delegated"
| "outcome_state (Promote _) = Promoted"
| "outcome_state (Precedent _) = PrecedentState"

fun payload_error :: "decision_outcome \<Rightarrow> case_invariant_error option" where
  "payload_error (Amend diff) = (if trim diff = [] then Some MissingAmendmentDiff else None)"
| "payload_error (Delegate to) = (if trim to = [] then Some MissingDelegateTarget else None)"
| "payload_error _ = None"

definition latest_decision_id :: "broker_case \<Rightarrow> string option" where
  "latest_decision_id c = (if history c = [] then None else Some (decision_id (last (history c))))"

definition record_decision ::
  "string \<Rightarrow> decision_outcome \<Rightarrow> string \<Rightarrow> string \<Rightarrow> datetime \<Rightarrow> broker_case
     \<Rightarrow> (case_invariant_error + decision_history_entry) \<times> broker_case" where
  "record_decision did out broker why now c =
     (if broker = created_by c then (Err (SelfReview broker), c)
      else if is_terminal (case_state c) then (Err (AlreadyTerminal (case_state c)), c)
      else case payload_error out of
             Some e \<Rightarrow> (Err e, c)
           | None \<Rightarrow>
               (let entry = \<lparr>decision_id = did, outcome = out, broker_pubkey = broker, decided_at = now,
                             prior_decision_id = latest_decision_id c, reasoning = why\<rparr>
                in (Ok entry, c\<lparr>history := history c @ [entry], case_state := outcome_state out,
                                updated_at := now\<rparr>)))"

section \<open>Orchestration\<close>

datatype orchestration_error =
    Invariant case_invariant_error
  | ShareTransitionRejected share_state share_state
  | UnsupportedSubject case_category

record share_transition_plan =
  plan_case_id :: string
  plan_subject :: subject_ref
  plan_from :: share_state
  plan_to :: share_state
  approved_by :: string

record decision_outcome_report =
  report_case_id :: string
  report_entry :: decision_history_entry
  share_plan :: "share_transition_plan option"

definition build_share_plan :: "broker_case \<Rightarrow> string \<Rightarrow> orchestration_error + share_transition_plan option" where
  "build_share_plan c approver =
     (case (from_state (subject c), to_state (subject c)) of
        (Some frm, Some to) \<Rightarrow>
          (if \<not> can_advance_to frm to then Err (ShareTransitionRejected frm to)
           else Ok (Some \<lparr>plan_case_id = case_id c, plan_subject = subject c, plan_from = frm,
                          plan_to = to, approved_by = approver\<rparr>))
      | _ \<Rightarrow> Ok None)"

definition implies_share :: "decision_outcome \<Rightarrow> bool" where
  "implies_share out = (case out of Approve \<Rightarrow> True | Promote _ \<Rightarrow> True | _ \<Rightarrow> False)"

definition decide ::
  "string \<Rightarrow> decision_outcome \<Rightarrow> string \<Rightarrow> string \<Rightarrow> datetime \<Rightarrow> broker_case
     \<Rightarrow> (orchestration_error + decision_outcome_report) \<times> broker_case" where
  "decide did out broker why now c =
     (case record_decision did out broker why now c of
        (Inl e, c') \<Rightarrow> (Err (Invariant e), c')
      | (Inr entry, c') \<Rightarrow>
          (case (if category c' = ContributorMeshShare \<and> implies_share out
                 then build_share_plan c' broker else Ok None) of
             Inl e \<Rightarrow> (Err e, c')
           | Inr sp \<Rightarrow> (Ok \<lparr>report_case_id = case_id c', report_entry = entry, share_plan = sp\<rparr>, c')))"

definition case_from_intent ::
  "string \<Rightarrow> string \<Rightarrow> share_state \<Rightarrow> share_state \<Rightarrow> string \<Rightarrow> string \<Rightarrow> string \<Rightarrow> datetime \<Rightarrow> broker_case" where
  "case_from_intent cid artifact frm to creator t sm now =
     new_case cid ContributorMeshShare
       \<lparr>subj_kind = WorkArtifact, subj_id = artifact, from_state = Some frm, to_state = Some to\<rparr>
       t sm creator 50 now"

section \<open>Precedents\<close>

record precedent_registry =
  scopes :: "string \<rightharpoonup> u32"
  threshold :: u32

definition DEFAULT_THRESHOLD :: u32 where "DEFAULT_THRESHOLD = 3"

definition new_precedents :: "u32 \<Rightarrow> precedent_registry" where
  "new_precedents t = \<lparr>scopes = Map.empty, threshold = t\<rparr>"

definition scope_count :: "string \<Rightarrow> precedent_registry \<Rightarrow> u32" where
  "scope_count sc r = (case scopes r sc of Some n \<Rightarrow> n | None \<Rightarrow> 0)"

definition register :: "string \<Rightarrow> precedent_registry \<Rightarrow> precedent_registry" where
  "register sc r = r\<lparr>scopes := (scopes r)(sc \<mapsto> scope_count sc r + 1)\<rparr>"

definition qualifies :: "string \<Rightarrow> precedent_registry \<Rightarrow> bool" where
  "qualifies sc r = (case scopes r sc of Some n \<Rightarrow> n \<ge> threshold r | None \<Rightarrow> False)"

text \<open>\<open>str::splitn(n, sep)\<close>: at most \<open>n\<close> parts, the last one unsplit.\<close>

fun splitn :: "nat \<Rightarrow> char \<Rightarrow> string \<Rightarrow> string list" where
  "splitn 0 c s = []"
| "splitn (Suc 0) c s = [s]"
| "splitn (Suc (Suc n)) c s =
     (if c \<in> set s then takeWhile (\<lambda>x. x \<noteq> c) s # splitn (Suc n) c (tl (dropWhile (\<lambda>x. x \<noteq> c) s))
      else [s])"

definition scope_from_metadata :: "string \<Rightarrow> string \<Rightarrow> string" where
  "scope_from_metadata etype urn =
     (let cls = (case strip_prefix ''urn:visionclaw:'' urn of
                   None \<Rightarrow> ''unknown''
                 | Some rest \<Rightarrow> (case splitn 3 (CHR '':'') rest of
                                   a # b # _ \<Rightarrow> a @ '':'' @ b
                                 | _ \<Rightarrow> ''unknown''))
      in etype @ '':'' @ cls)"

section \<open>The share ladder is a linear order\<close>

fun rung :: "share_state \<Rightarrow> nat" where
  "rung Private = 0" | "rung Team = 1" | "rung Mesh = 2"

lemma rung_inject: "rung a = rung b \<longleftrightarrow> a = b"
  by (cases a; cases b) simp_all

instantiation share_state :: linorder
begin

definition less_eq_share_state :: "share_state \<Rightarrow> share_state \<Rightarrow> bool" where
  "a \<le> b \<longleftrightarrow> rung a \<le> rung b"

definition less_share_state :: "share_state \<Rightarrow> share_state \<Rightarrow> bool" where
  "a < b \<longleftrightarrow> rung a < rung b"

instance
  by standard (auto simp: less_eq_share_state_def less_share_state_def rung_inject)

end

lemma can_advance_iff: "can_advance_to a b \<longleftrightarrow> a < b"
  by (cases a; cases b) (simp_all add: less_share_state_def)

section \<open>Histories of a case\<close>

datatype case_op =
    Claim string datetime
  | ReleaseClaim datetime
  | Decide string decision_outcome string string datetime

fun case_step :: "case_op \<Rightarrow> broker_case \<Rightarrow> broker_case" where
  "case_step (Claim b now) c = snd (claim b now c)"
| "case_step (ReleaseClaim now) c = snd (release_claim now c)"
| "case_step (Decide did out broker why now) c = snd (decide did out broker why now c)"

text \<open>
  The invariant: nobody reviews or decides their own case; a case has a decision exactly when
  it is in the terminal state of that decision's outcome, and then only one; an open case has
  no assignee and a case under review has one; the chain of prior decisions starts empty.
\<close>

definition case_inv :: "broker_case \<Rightarrow> bool" where
  "case_inv c \<longleftrightarrow>
     (\<forall>e \<in> set (history c). broker_pubkey e \<noteq> created_by c \<and> payload_error (outcome e) = None)
   \<and> assigned_to c \<noteq> Some (created_by c)
   \<and> (case history c of
        [] \<Rightarrow> (case_state c = Open \<and> assigned_to c = None)
              \<or> (case_state c = UnderReview \<and> assigned_to c \<noteq> None)
      | [e] \<Rightarrow> case_state c = outcome_state (outcome e) \<and> prior_decision_id e = None
      | _ \<Rightarrow> False)"

lemma snd_decide: "snd (decide did out broker why now c) = snd (record_decision did out broker why now c)"
  by (auto simp: decide_def split: prod.splits sum.splits)

lemma terminal_outcome [simp]: "is_terminal (outcome_state out)"
  by (cases out) (simp_all add: is_terminal_def)

lemma not_terminal_states [simp]: "\<not> is_terminal Open" "\<not> is_terminal UnderReview"
  by (simp_all add: is_terminal_def)

lemma not_terminal: "\<not> is_terminal s \<longleftrightarrow> s = Open \<or> s = UnderReview"
  by (cases s) (simp_all add: is_terminal_def)

lemma case_inv_open:
  "case_inv c \<Longrightarrow> \<not> is_terminal (case_state c) \<Longrightarrow> history c = []"
  by (auto simp: case_inv_def split: list.splits)

lemma claim_inv [inv_intros]: "case_inv c \<Longrightarrow> case_inv (snd (claim b now c))"
  by (auto simp: claim_def case_inv_def split: case_state.splits list.splits dest: outcome_state.elims)

lemma release_claim_inv [inv_intros]: "case_inv c \<Longrightarrow> case_inv (snd (release_claim now c))"
  by (auto simp: release_claim_def case_inv_def split: list.splits elim: outcome_state.elims)

lemma record_decision_inv [inv_intros]:
  assumes "case_inv c"
  shows "case_inv (snd (record_decision did out broker why now c))"
proof (cases "broker \<noteq> created_by c \<and> \<not> is_terminal (case_state c) \<and> payload_error out = None")
  case True
  with case_inv_open [OF assms] assms show ?thesis
    by (auto simp: record_decision_def case_inv_def latest_decision_id_def Let_def)
qed (use assms in \<open>auto simp: record_decision_def Let_def split: option.split\<close>)

lemma case_step_inv [inv_intros]: "case_inv c \<Longrightarrow> case_inv (case_step x c)"
  by (cases x) (auto simp: snd_decide intro: inv_intros)

lemma new_case_inv: "case_inv (new_case i cat subj t sm creator prio now)"
  by (simp add: case_inv_def new_case_def)

interpretation cases: guarded_component case_step "new_case i cat subj t sm creator prio now" case_inv
  for i cat subj t sm creator prio now
  by unfold_locales (rule new_case_inv, rule case_step_inv)

text \<open>The history only grows, and the identity of a case never changes.\<close>

lemma case_step_append:
  "\<exists>es. history (case_step x c) = history c @ es \<and> created_by (case_step x c) = created_by c
      \<and> subject (case_step x c) = subject c \<and> category (case_step x c) = category c"
  by (cases x)
    (auto simp: claim_def release_claim_def snd_decide record_decision_def Let_def
      split: case_state.splits option.splits)

lemma case_history_append:
  "\<exists>es. history (fold case_step ops c) = history c @ es \<and> created_by (fold case_step ops c) = created_by c"
proof (induction ops arbitrary: c)
  case (Cons x ops)
  then show ?case using case_step_append [of x c] by (metis append.assoc fold_simps(2))
qed simp

fun detail_of :: "decision_outcome \<Rightarrow> string option" where
  "detail_of Approve = None"
| "detail_of Reject = None"
| "detail_of (Amend d) = Some d"
| "detail_of (Delegate d) = Some d"
| "detail_of (Promote d) = Some d"
| "detail_of (Precedent d) = Some d"

lemma action_words_plain:
  "\<forall>a \<in> {''approve'', ''reject'', ''amend'', ''delegate'', ''promote'', ''precedent''}.
     to_ascii_lowercase (trim a) = a"
  by code_simp

lemma action_words:
  "to_ascii_lowercase (trim (action_str out)) = action_str out"
  "starts_with ''reject'' (action_str out) \<longleftrightarrow> out = Reject"
  using action_words_plain by (cases out, simp_all add: starts_with_def)+

lemma from_action_str: "from_action (action_str out) (detail_of out) = Some out"
  unfolding from_action_def Let_def action_words by (cases out) simp_all

lemma scope_count_register:
  "scope_count sc (register sc' r) = (if sc = sc' then scope_count sc r + 1 else scope_count sc r)"
  "scopes (register sc' r) sc = None \<longleftrightarrow> sc \<noteq> sc' \<and> scopes r sc = None"
  "threshold (register sc' r) = threshold r"
  by (simp_all add: register_def scope_count_def)

lemma registered_counts:
  "scope_count sc (fold register scs r) = scope_count sc r + word_of_nat (count_list scs sc)
   \<and> (scopes (fold register scs r) sc = None \<longleftrightarrow> scopes r sc = None \<and> sc \<notin> set scs)
   \<and> threshold (fold register scs r) = threshold r"
  by (induction scs arbitrary: r) (auto simp: scope_count_register)

lemma qualifies_iff: "qualifies sc r \<longleftrightarrow> scopes r sc \<noteq> None \<and> threshold r \<le> scope_count sc r"
  by (auto simp: qualifies_def scope_count_def split: option.split)

section \<open>Properties\<close>

text \<open>
  C12. A case keeps its governance rules through any history of claims, releases and decisions,
  in any order and by anyone: nobody is assigned to or decides a case they created; the
  history is append-only; there is at most one decision, with no prior decision, exactly when
  the case is in a terminal state, and the state is the one that decision's outcome stands for.
\<close>
theorem broker_case_integrity:
  assumes "c = fold case_step ops (new_case i cat subj t sm creator prio now)"
  shows "created_by c = creator \<and> assigned_to c \<noteq> Some creator
    \<and> (\<forall>e \<in> set (history c). broker_pubkey e \<noteq> creator \<and> payload_error (outcome e) = None)
    \<and> (if is_terminal (case_state c)
       then (\<exists>e. history c = [e] \<and> case_state c = outcome_state (outcome e) \<and> prior_decision_id e = None)
       else history c = [])
    \<and> (\<exists>es. history (fold case_step ops' c) = history c @ es)"
proof -
  have inv: "case_inv c" using cases.history_inv assms by blast
  have creator: "created_by c = creator"
    using case_history_append [of ops "new_case i cat subj t sm creator prio now"] assms
    by (auto simp: new_case_def)
  have "if is_terminal (case_state c)
     then (\<exists>e. history c = [e] \<and> case_state c = outcome_state (outcome e) \<and> prior_decision_id e = None)
     else history c = []"
    using inv by (auto simp: case_inv_def split: list.splits)
  then show ?thesis
    using inv creator case_history_append [of ops' c] by (auto simp: case_inv_def)
qed

theorem broker_case_integrity_witness:
  "let c = fold case_step [Claim ''alice'' 1, Decide ''d1'' Approve ''alice'' ''ok'' 2, Claim ''bob'' 3,
              Decide ''d2'' Reject ''bob'' ''no'' 4]
             (case_from_intent ''c1'' ''a1'' Private Team ''alice'' ''t'' ''s'' 0)
   in created_by c = ''alice'' \<and> assigned_to c = Some ''bob'' \<and> (\<exists>e. history c = [e])"
proof -
  let ?ops = "[Claim ''alice'' 1, Decide ''d1'' Approve ''alice'' ''ok'' 2, Claim ''bob'' 3,
              Decide ''d2'' Reject ''bob'' ''no'' 4]"
  let ?c = "fold case_step ?ops (case_from_intent ''c1'' ''a1'' Private Team ''alice'' ''t'' ''s'' 0)"
  have "assigned_to ?c = Some ''bob'' \<and> is_terminal (case_state ?c)"
    by (simp add: case_from_intent_def new_case_def claim_def snd_decide record_decision_def is_terminal_def
        Let_def)
  then show ?thesis
    using broker_case_integrity [OF refl, of ?ops "''c1''" ContributorMeshShare
        "\<lparr>subj_kind = WorkArtifact, subj_id = ''a1'', from_state = Some Private, to_state = Some Team\<rparr>"
        "''t''" "''s''" "''alice''" 50 0 "[]"]
    unfolding Let_def case_from_intent_def by auto
qed

text \<open>
  What \<open>decide\<close> accepts and returns: it succeeds exactly when the broker is not the
  creator, the case is not terminal, the outcome's payload is present and, for an approval or
  promotion of a contributor share with both states named, the share moves up the ladder. On
  success a share plan exists exactly in that last situation and carries that upward move and
  the approving broker; an invariant error leaves the case as it was.
\<close>
theorem decide_exact:
  assumes "res = decide did out broker why now c"
    and "share = (category c = ContributorMeshShare \<and> implies_share out)"
  shows "(is_ok (fst res) \<longleftrightarrow>
       broker \<noteq> created_by c \<and> \<not> is_terminal (case_state c) \<and> payload_error out = None
       \<and> (\<forall>a b. share \<and> from_state (subject c) = Some a \<and> to_state (subject c) = Some b \<longrightarrow> a < b))
    \<and> (\<forall>rep. fst res = Ok rep \<longrightarrow>
         (share_plan rep \<noteq> None \<longleftrightarrow>
            share \<and> from_state (subject c) \<noteq> None \<and> to_state (subject c) \<noteq> None)
         \<and> (\<forall>p. share_plan rep = Some p \<longrightarrow>
               plan_from p < plan_to p \<and> plan_case_id p = case_id c \<and> approved_by p = broker)
         \<and> history (snd res) = history c @ [report_entry rep])
    \<and> (\<forall>e. fst res = Err (Invariant e) \<longrightarrow> snd res = c)"
proof (cases "broker \<noteq> created_by c \<and> \<not> is_terminal (case_state c) \<and> payload_error out = None")
  case True
  then show ?thesis
    unfolding assms
    by (auto simp: decide_def record_decision_def build_share_plan_def is_ok_def can_advance_iff Let_def
        split: option.splits if_splits)
next
  case False
  then show ?thesis
    unfolding assms
    by (auto simp: decide_def record_decision_def is_ok_def split: option.splits if_splits)
qed

theorem decide_exact_witness:
  "let c = case_from_intent ''c1'' ''a1'' Private Team ''alice'' ''t'' ''s'' 0
   in is_ok (fst (decide ''d'' Approve ''bob'' ''ok'' 1 c))
      \<and> \<not> is_ok (fst (decide ''d'' Approve ''alice'' ''ok'' 1 c))"
  using decide_exact [OF refl refl, of "''d''" Approve "''bob''" "''ok''" 1
      "case_from_intent ''c1'' ''a1'' Private Team ''alice'' ''t'' ''s'' 0"]
    decide_exact [OF refl refl, of "''d''" Approve "''alice''" "''ok''" 1
      "case_from_intent ''c1'' ''a1'' Private Team ''alice'' ''t'' ''s'' 0"]
  by (simp add: case_from_intent_def new_case_def is_terminal_def less_share_state_def Let_def)

text \<open>
  A refused share plan still decides the case. When an approval names a share transition
  that does not move up the ladder, \<open>decide\<close> reports an error, but the decision is already in
  the history and the case is terminal: no corrected decision can be recorded any more.
\<close>
theorem rejected_share_plan_still_decides:
  assumes "broker \<noteq> created_by c" and "\<not> is_terminal (case_state c)"
    and "category c = ContributorMeshShare"
    and "from_state (subject c) = Some a" and "to_state (subject c) = Some b" and "\<not> a < b"
  shows "fst (decide did Approve broker why now c) = Err (ShareTransitionRejected a b)
    \<and> case_state (snd (decide did Approve broker why now c)) = Decided
    \<and> fst (decide did' out' broker why' now' (snd (decide did Approve broker why now c)))
        = Err (Invariant (AlreadyTerminal Decided))"
  using assms
  by (simp add: decide_def record_decision_def build_share_plan_def can_advance_iff implies_share_def
      is_terminal_def Let_def)

theorem rejected_share_plan_still_decides_witness:
  "case_state (snd (decide ''d'' Approve ''bob'' ''ok'' 1
      (case_from_intent ''c1'' ''a1'' Mesh Team ''alice'' ''t'' ''s'' 0))) = Decided"
  using rejected_share_plan_still_decides [of "''bob''"
      "case_from_intent ''c1'' ''a1'' Mesh Team ''alice'' ''t'' ''s'' 0" Mesh Team "''d''" "''ok''" 1
      "''d''" Approve "''ok''" 1]
  by (simp add: case_from_intent_def new_case_def is_terminal_def less_share_state_def)

text \<open>
  A scope qualifies for automatic approval exactly when it was registered as a precedent at
  least \<open>threshold\<close> times and at least once, whatever other scopes were registered in between.
\<close>
theorem precedents_qualify_at_threshold:
  assumes "length scs < 2 ^ 32"
  shows "qualifies sc (fold register scs (new_precedents t)) \<longleftrightarrow> max 1 (unat t) \<le> count_list scs sc"
proof -
  have "count_list scs sc < 2 ^ 32" using assms count_le_length [of scs sc] by linarith
  then have "unat (word_of_nat (count_list scs sc) :: u32) = count_list scs sc"
    by (simp add: unat_of_nat)
  then show ?thesis
    using registered_counts [of sc scs "new_precedents t"] count_list_0_iff [of scs sc]
    by (auto simp: qualifies_iff new_precedents_def scope_count_def word_le_nat_alt)
qed

theorem precedents_qualify_at_threshold_witness:
  "qualifies ''a'' (fold register [''a'', ''b'', ''a'', ''a''] (new_precedents DEFAULT_THRESHOLD))
   \<and> \<not> qualifies ''b'' (fold register [''a'', ''b'', ''a'', ''a''] (new_precedents DEFAULT_THRESHOLD))"
  using precedents_qualify_at_threshold [of "[''a'', ''b'', ''a'', ''a'']" "''a''" DEFAULT_THRESHOLD]
    precedents_qualify_at_threshold [of "[''a'', ''b'', ''a'', ''a'']" "''b''" DEFAULT_THRESHOLD]
  by (simp add: DEFAULT_THRESHOLD_def)

end
