(* ===== verification/Promotion.thy ===== *)
theory Promotion
  imports Prelude "HOL-Library.List_Lexorder" "HOL-Library.Char_ord"
begin

text \<open>
  \<open>crates/vault-core/src\<close>: actors and stamps of the OKF lifecycle (\<open>okf.rs\<close>), the
  promotion state machine (\<open>promotion.rs\<close>) and patch proposals with their digest
  (\<open>proposal.rs\<close>). The SHA-256 implementation is an external package: its hex digest is
  the parameter \<open>sha\<close> of the definitions that hash. Error texts are reduced to the values
  they print. YAML input and output are not modelled.
\<close>

section \<open>Actors and status\<close>

datatype status = DraftStatus | Stable | DeprecatedStatus

fun status_str :: "status \<Rightarrow> string" where
  "status_str DraftStatus = ''draft''"
| "status_str Stable = ''stable''"
| "status_str DeprecatedStatus = ''deprecated''"

definition status_from_str :: "string \<Rightarrow> string + status" where
  "status_from_str s =
     (let t = to_ascii_lowercase (trim s)
      in if t = ''draft'' then Ok DraftStatus
         else if t = ''stable'' then Ok Stable
         else if t = ''deprecated'' then Ok DeprecatedStatus
         else Err t)"

datatype actor = Human string | Process string string | Agent string string

fun actor_string :: "actor \<Rightarrow> string" where
  "actor_string (Human npub) = ''human:'' @ npub"
| "actor_string (Process name version) = ''process:'' @ name @ ''/'' @ version"
| "actor_string (Agent producer version) = ''agent:'' @ producer @ ''/'' @ version"

definition is_human :: "actor \<Rightarrow> bool" where
  "is_human a = (case a of Human _ \<Rightarrow> True | _ \<Rightarrow> False)"

definition rsplit_once :: "char \<Rightarrow> string \<Rightarrow> (string \<times> string) option" where
  "rsplit_once c s =
     (if c \<in> set s
      then Some (rev (tl (dropWhile (\<lambda>x. x \<noteq> c) (rev s))), rev (takeWhile (\<lambda>x. x \<noteq> c) (rev s)))
      else None)"

datatype actor_error = NoNpub | NotVersioned string string | UnknownPrefix string

definition split_versioned :: "string \<Rightarrow> string \<Rightarrow> actor_error + (string \<times> string)" where
  "split_versioned rest kind =
     (case rsplit_once (CHR ''/'') rest of
        Some (n, v) \<Rightarrow> (if n \<noteq> [] \<and> v \<noteq> [] then Ok (n, v) else Err (NotVersioned kind rest))
      | None \<Rightarrow> Err (NotVersioned kind rest))"

definition actor_from_str :: "string \<Rightarrow> actor_error + actor" where
  "actor_from_str s0 =
     (let s = trim s0
      in case strip_prefix ''human:'' s of
           Some npub \<Rightarrow> (if npub = [] then Err NoNpub else Ok (Human npub))
         | None \<Rightarrow>
             (case strip_prefix ''process:'' s of
                Some rest \<Rightarrow> (case split_versioned rest ''process'' of
                                Inl e \<Rightarrow> Err e | Inr (n, v) \<Rightarrow> Ok (Process n v))
              | None \<Rightarrow>
                  (case strip_prefix ''agent:'' s of
                     Some rest \<Rightarrow> (case split_versioned rest ''agent'' of
                                     Inl e \<Rightarrow> Err e | Inr (n, v) \<Rightarrow> Ok (Agent n v))
                   | None \<Rightarrow> Err (UnknownPrefix s))))"

record stamp =
  stamp_by :: actor
  stamp_at :: string

record source =
  source_id :: string
  source_resource :: string

record okf_block =
  type_name :: "string option"
  okf_resource :: "string option"
  okf_status :: "status option"
  status_raw :: "string option"
  okf_stale_after :: "string option"
  generated :: "stamp option"
  verified :: "stamp list"
  sources :: "source list"

definition is_human_verified :: "okf_block \<Rightarrow> bool" where
  "is_human_verified okf = list_ex (\<lambda>s. is_human (stamp_by s)) (verified okf)"

section \<open>The promotion state machine\<close>

datatype promotion_state = Draft | MachineConfirmed | HumanReviewed | Deprecated

fun state_status :: "promotion_state \<Rightarrow> status" where
  "state_status Draft = DraftStatus"
| "state_status MachineConfirmed = DraftStatus"
| "state_status HumanReviewed = Stable"
| "state_status Deprecated = DeprecatedStatus"

definition state_of :: "okf_block \<Rightarrow> promotion_state" where
  "state_of okf =
     (if okf_status okf = Some DeprecatedStatus then Deprecated
      else if is_human_verified okf then HumanReviewed
      else if verified okf = [] then Draft
      else MachineConfirmed)"

datatype transition =
    Propose actor string
  | ApproveBy actor string
  | DemoteBy actor string
  | Expire

fun transition_actor :: "transition \<Rightarrow> actor option" where
  "transition_actor (Propose by' at') = Some by'"
| "transition_actor (ApproveBy by' at') = Some by'"
| "transition_actor (DemoteBy by' at') = Some by'"
| "transition_actor Expire = None"

fun transition_name :: "transition \<Rightarrow> string" where
  "transition_name (Propose _ _) = ''propose''"
| "transition_name (ApproveBy _ _) = ''approve''"
| "transition_name (DemoteBy _ _) = ''demote''"
| "transition_name Expire = ''expire''"

record blocker =
  code :: string
  detail :: string

definition RESOURCE_IMMUTABLE :: string where "RESOURCE_IMMUTABLE = ''RESOURCE_IMMUTABLE''"

definition BLOCKER_CODE_ALIASES :: "(string \<times> string) list" where
  "BLOCKER_CODE_ALIASES = [(''RESOURCE_MUTATED'', RESOURCE_IMMUTABLE)]"

definition canonical_blocker_code :: "string \<Rightarrow> string" where
  "canonical_blocker_code c =
     (case find (\<lambda>(alias, _). alias = c) BLOCKER_CODE_ALIASES of
        Some (_, canonical) \<Rightarrow> canonical
      | None \<Rightarrow> c)"

datatype promotion_error =
    IllegalTransition promotion_state string
  | NotHuman string string
  | Blocked "blocker list"

record outcome =
  out_state :: promotion_state
  out_stamp :: "stamp option"
  out_status :: status

definition require_human :: "actor \<Rightarrow> string \<Rightarrow> promotion_error + unit" where
  "require_human a name = (if is_human a then Ok () else Err (NotHuman (actor_string a) name))"

fun apply_edge :: "promotion_state \<Rightarrow> transition \<Rightarrow> promotion_error + outcome" where
  "apply_edge Draft (Propose a t) =
     (if is_human a then Err (IllegalTransition Draft ''propose as a human (use approve)'')
      else Ok \<lparr>out_state = MachineConfirmed, out_stamp = Some \<lparr>stamp_by = a, stamp_at = t\<rparr>,
              out_status = DraftStatus\<rparr>)"
| "apply_edge MachineConfirmed (ApproveBy a t) =
     (case require_human a ''approve'' of
        Inl e \<Rightarrow> Err e
      | Inr _ \<Rightarrow> Ok \<lparr>out_state = HumanReviewed, out_stamp = Some \<lparr>stamp_by = a, stamp_at = t\<rparr>,
                     out_status = Stable\<rparr>)"
| "apply_edge Deprecated (ApproveBy a t) =
     (case require_human a ''approve'' of
        Inl e \<Rightarrow> Err e
      | Inr _ \<Rightarrow> Ok \<lparr>out_state = HumanReviewed, out_stamp = Some \<lparr>stamp_by = a, stamp_at = t\<rparr>,
                     out_status = Stable\<rparr>)"
| "apply_edge HumanReviewed (DemoteBy a t) =
     (case require_human a ''demote'' of
        Inl e \<Rightarrow> Err e
      | Inr _ \<Rightarrow> Ok \<lparr>out_state = Deprecated, out_stamp = None, out_status = state_status Deprecated\<rparr>)"
| "apply_edge MachineConfirmed (DemoteBy a t) =
     (case require_human a ''demote'' of
        Inl e \<Rightarrow> Err e
      | Inr _ \<Rightarrow> Ok \<lparr>out_state = Deprecated, out_stamp = None, out_status = state_status Deprecated\<rparr>)"
| "apply_edge MachineConfirmed Expire =
     Ok \<lparr>out_state = Draft, out_stamp = None, out_status = state_status Draft\<rparr>"
| "apply_edge frm t = Err (IllegalTransition frm (transition_name t))"

definition apply_transition ::
  "promotion_state \<Rightarrow> transition \<Rightarrow> blocker list \<Rightarrow> promotion_error + outcome" where
  "apply_transition frm t blockers = (if blockers \<noteq> [] then Err (Blocked blockers) else apply_edge frm t)"

section \<open>Proposals\<close>

datatype level = Content | Schema | Demotion

fun level_str :: "level \<Rightarrow> string" where
  "level_str Content = ''content''"
| "level_str Schema = ''schema''"
| "level_str Demotion = ''demotion''"

definition floors_tier_high :: "level \<Rightarrow> bool" where
  "floors_tier_high l = (l = Schema)"

definition level_from_str :: "string \<Rightarrow> string + level" where
  "level_from_str s =
     (let t = to_ascii_lowercase (trim s)
      in if t = ''content'' then Ok Content
         else if t = ''schema'' then Ok Schema
         else if t = ''demotion'' then Ok Demotion
         else Err t)"

datatype proposal_kind = AmendKind | CreateKind

record patch_proposal =
  pp_level :: level
  pp_kind :: proposal_kind
  pp_iri :: string
  pp_page :: string
  hypothesis :: string
  diff :: string
  digest :: string
  blockers :: "blocker list"
  preexisting :: "blocker list"
  proposer :: string
  generation :: string
  stale_after :: string
  pages :: "string list"

abbreviation newline :: string where
  "newline \<equiv> [CHR 0x0A]"

text \<open>The bytes that are hashed, and the digest.\<close>

definition digest_input ::
  "level \<Rightarrow> proposal_kind \<Rightarrow> string \<Rightarrow> string \<Rightarrow> string \<Rightarrow> string \<Rightarrow> string list \<Rightarrow> string" where
  "digest_input l kind iri page hyp df ps =
     concat (map (\<lambda>part. part @ newline) [level_str l, iri, page, hyp, df])
     @ (if length ps > 1 then concat (map (\<lambda>p. p @ newline) ps) else [])
     @ (if kind = CreateKind then ''kind:create'' @ newline else [])"

definition compute_digest_of_kind ::
  "(string \<Rightarrow> string) \<Rightarrow> level \<Rightarrow> proposal_kind \<Rightarrow> string \<Rightarrow> string \<Rightarrow> string \<Rightarrow> string \<Rightarrow> string list \<Rightarrow> string" where
  "compute_digest_of_kind sha l kind iri page hyp df ps =
     ''sha256:'' @ sha (digest_input l kind iri page hyp df ps)"

definition compute_digest_grouped ::
  "(string \<Rightarrow> string) \<Rightarrow> level \<Rightarrow> string \<Rightarrow> string \<Rightarrow> string \<Rightarrow> string \<Rightarrow> string list \<Rightarrow> string" where
  "compute_digest_grouped sha l iri page hyp df ps = compute_digest_of_kind sha l AmendKind iri page hyp df ps"

definition compute_digest ::
  "(string \<Rightarrow> string) \<Rightarrow> level \<Rightarrow> string \<Rightarrow> string \<Rightarrow> string \<Rightarrow> string \<Rightarrow> string" where
  "compute_digest sha l iri page hyp df = compute_digest_grouped sha l iri page hyp df []"

definition new_proposal ::
  "(string \<Rightarrow> string) \<Rightarrow> level \<Rightarrow> string \<Rightarrow> string \<Rightarrow> string \<Rightarrow> string \<Rightarrow> blocker list \<Rightarrow> string \<Rightarrow> string
     \<Rightarrow> string \<Rightarrow> patch_proposal" where
  "new_proposal sha l iri page hyp df bs who gen stale =
     \<lparr>pp_level = l, pp_kind = AmendKind, pp_iri = iri, pp_page = page, hypothesis = hyp, diff = df,
      digest = compute_digest sha l iri page hyp df, blockers = bs, preexisting = [],
      proposer = who, generation = gen, stale_after = stale, pages = [page]\<rparr>"

definition recompute_digest :: "(string \<Rightarrow> string) \<Rightarrow> patch_proposal \<Rightarrow> string" where
  "recompute_digest sha p =
     compute_digest_of_kind sha (pp_level p) (pp_kind p) (pp_iri p) (pp_page p) (hypothesis p) (diff p) (pages p)"

definition with_preexisting :: "blocker list \<Rightarrow> patch_proposal \<Rightarrow> patch_proposal" where
  "with_preexisting bs p = p\<lparr>preexisting := bs\<rparr>"

definition with_kind :: "(string \<Rightarrow> string) \<Rightarrow> proposal_kind \<Rightarrow> patch_proposal \<Rightarrow> patch_proposal" where
  "with_kind sha k p = (let p1 = p\<lparr>pp_kind := k\<rparr> in p1\<lparr>digest := recompute_digest sha p1\<rparr>)"

definition with_pages :: "(string \<Rightarrow> string) \<Rightarrow> string list \<Rightarrow> patch_proposal \<Rightarrow> patch_proposal" where
  "with_pages sha ps p =
     (let ps1 = remdups_adj (sort ps);
          ps2 = (if pp_page p \<notin> set ps1 then sort (ps1 @ [pp_page p]) else ps1);
          p1 = p\<lparr>pages := ps2\<rparr>
      in p1\<lparr>digest := recompute_digest sha p1\<rparr>)"

definition is_grouped :: "patch_proposal \<Rightarrow> bool" where
  "is_grouped p = (length (pages p) > 1)"

definition is_postable :: "patch_proposal \<Rightarrow> bool" where
  "is_postable p = (blockers p = [])"

definition digest_hex :: "patch_proposal \<Rightarrow> string" where
  "digest_hex p = (case strip_prefix ''sha256:'' (digest p) of Some h \<Rightarrow> h | None \<Rightarrow> digest p)"

section \<open>The edges of the machine\<close>

text \<open>The legal moves, as the module's documentation draws them plus the two the code adds.\<close>

inductive edge :: "promotion_state \<Rightarrow> transition \<Rightarrow> promotion_state \<Rightarrow> bool" where
  propose: "\<not> is_human a \<Longrightarrow> edge Draft (Propose a t) MachineConfirmed"
| approve: "is_human a \<Longrightarrow> edge MachineConfirmed (ApproveBy a t) HumanReviewed"
| demote: "is_human a \<Longrightarrow> edge HumanReviewed (DemoteBy a t) Deprecated"
| expire: "edge MachineConfirmed Expire Draft"
| reinstate: "is_human a \<Longrightarrow> edge Deprecated (ApproveBy a t) HumanReviewed"
| withdraw: "is_human a \<Longrightarrow> edge MachineConfirmed (DemoteBy a t) Deprecated"

code_pred edge .

inductive_simps edge_simps:
  "edge Draft t s'" "edge MachineConfirmed t s'" "edge HumanReviewed t s'" "edge Deprecated t s'"

inductive_cases edge_to_reviewed: "edge s t HumanReviewed"
inductive_cases edge_to_deprecated: "edge s t Deprecated"

lemma apply_edge_Ok:
  "apply_edge s t = Ok out \<Longrightarrow>
     edge s t (out_state out) \<and> out_status out = state_status (out_state out)
     \<and> out_stamp out = (case t of Propose a w \<Rightarrow> Some \<lparr>stamp_by = a, stamp_at = w\<rparr>
                                | ApproveBy a w \<Rightarrow> Some \<lparr>stamp_by = a, stamp_at = w\<rparr>
                                | _ \<Rightarrow> None)"
  by (induction s t rule: apply_edge.induct)
    (auto simp: require_human_def edge_simps split: if_splits)

lemma edge_apply: "edge s t s' \<Longrightarrow> \<exists>out. apply_edge s t = Ok out \<and> out_state out = s'"
  by (induction rule: edge.induct) (auto simp: require_human_def)

text \<open>A page moved by a sequence of attempts; a refused attempt leaves it where it is.\<close>

fun attempt :: "transition \<times> blocker list \<Rightarrow> promotion_state \<Rightarrow> promotion_state" where
  "attempt (t, bs) s = (case apply_transition s t bs of Inr out \<Rightarrow> out_state out | Inl _ \<Rightarrow> s)"

lemma attempt_cases: "attempt (t, bs) s = s \<or> (bs = [] \<and> edge s t (attempt (t, bs) s))"
proof (cases "apply_transition s t bs")
  case (Inr out)
  then show ?thesis using apply_edge_Ok by (auto simp: apply_transition_def split: if_splits)
qed simp

lemma attempt_machine:
  assumes "s \<in> {Draft, MachineConfirmed}" and "\<forall>a. transition_actor t = Some a \<longrightarrow> \<not> is_human a"
  shows "attempt (t, bs) s \<in> {Draft, MachineConfirmed}"
  using attempt_cases [of t bs s] assms by (auto simp: edge_simps)

section \<open>Strings\<close>

lemma rsplit_once_append:
  assumes "c \<notin> set v"
  shows "rsplit_once c (n @ c # v) = Some (n, v)"
proof -
  have v: "\<And>x. x \<in> set (rev v) \<Longrightarrow> x \<noteq> c" using assms by auto
  have "takeWhile (\<lambda>x. x \<noteq> c) (rev v @ c # rev n) = rev v"
    "dropWhile (\<lambda>x. x \<noteq> c) (rev v @ c # rev n) = c # rev n"
    using takeWhile_append2 [of "rev v" "\<lambda>x. x \<noteq> c" "c # rev n"]
      dropWhile_append2 [of "rev v" "\<lambda>x. x \<noteq> c" "c # rev n"] v by auto
  then show ?thesis by (simp add: rsplit_once_def)
qed

lemma rsplit_once_Some:
  assumes "rsplit_once c s = Some (n, v)"
  shows "s = n @ c # v \<and> c \<notin> set v"
proof -
  have c: "c \<in> set (rev s)" and n: "n = rev (tl (dropWhile (\<lambda>x. x \<noteq> c) (rev s)))"
    and v: "v = rev (takeWhile (\<lambda>x. x \<noteq> c) (rev s))"
    using assms by (auto simp: rsplit_once_def split: if_splits)
  then have "dropWhile (\<lambda>x. x \<noteq> c) (rev s) = c # tl (dropWhile (\<lambda>x. x \<noteq> c) (rev s))"
    by (metis (mono_tags, lifting) dropWhile_eq_Nil_conv hd_dropWhile list.exhaust_sel)
  then have "rev s = rev v @ c # rev n" using n v by (metis rev_rev_ident takeWhile_dropWhile_id)
  then have "s = n @ c # v" by (metis append.assoc append_Cons append_Nil rev.simps(2) rev_append rev_rev_ident)
  moreover have "c \<notin> set v" using v set_takeWhileD by fastforce
  ultimately show ?thesis by simp
qed

lemma split_versioned_Ok:
  "split_versioned rest k = Ok (n, v) \<longleftrightarrow> rest = n @ ''/'' @ v \<and> n \<noteq> [] \<and> v \<noteq> [] \<and> CHR ''/'' \<notin> set v"
  by (auto simp: split_versioned_def rsplit_once_append split: option.splits if_splits
      dest: rsplit_once_Some)

lemma strip_prefix_None: "strip_prefix p s = None \<longleftrightarrow> (\<forall>r. s \<noteq> p @ r)"
  using strip_prefix_Some by (metis not_None_eq)

lemma versioned_case:
  "(case split_versioned rest k of Inl e \<Rightarrow> Err e | Inr (n, v) \<Rightarrow> Ok (f n v)) = Ok a \<longleftrightarrow>
     (\<exists>n v. rest = n @ ''/'' @ v \<and> n \<noteq> [] \<and> v \<noteq> [] \<and> CHR ''/'' \<notin> set v \<and> a = f n v)"
proof -
  have "(case split_versioned rest k of Inl e \<Rightarrow> Err e | Inr (n, v) \<Rightarrow> Ok (f n v)) = Ok a \<longleftrightarrow>
      (\<exists>n v. split_versioned rest k = Ok (n, v) \<and> a = f n v)"
    by (auto split: sum.splits prod.splits)
  then show ?thesis by (simp only: split_versioned_Ok) blast
qed

lemma actor_from_str_Ok:
  "actor_from_str s = Ok a \<longleftrightarrow>
     (\<exists>n. trim s = ''human:'' @ n \<and> n \<noteq> [] \<and> a = Human n)
   \<or> (\<exists>n v. trim s = ''process:'' @ n @ ''/'' @ v \<and> n \<noteq> [] \<and> v \<noteq> [] \<and> CHR ''/'' \<notin> set v \<and> a = Process n v)
   \<or> (\<exists>n v. trim s = ''agent:'' @ n @ ''/'' @ v \<and> n \<noteq> [] \<and> v \<noteq> [] \<and> CHR ''/'' \<notin> set v \<and> a = Agent n v)"
proof -
  consider (h) r where "trim s = ''human:'' @ r" | (p) r where "trim s = ''process:'' @ r"
    | (a) r where "trim s = ''agent:'' @ r"
    | (n) "\<forall>r. trim s \<noteq> ''human:'' @ r" "\<forall>r. trim s \<noteq> ''process:'' @ r" "\<forall>r. trim s \<noteq> ''agent:'' @ r"
    by blast
  then show ?thesis
  proof cases
    case h
    then show ?thesis by (auto simp: actor_from_str_def)
  next
    case p
    then have "strip_prefix ''human:'' (trim s) = None" "strip_prefix ''process:'' (trim s) = Some r"
      by simp_all
    then have "actor_from_str s = (case split_versioned r ''process'' of
        Inl e \<Rightarrow> Err e | Inr (n, v) \<Rightarrow> Ok (Process n v))"
      unfolding actor_from_str_def Let_def by simp
    then show ?thesis using p by (simp add: versioned_case)
  next
    case a
    then have "strip_prefix ''human:'' (trim s) = None" "strip_prefix ''process:'' (trim s) = None"
      "strip_prefix ''agent:'' (trim s) = Some r"
      by simp_all
    then have "actor_from_str s = (case split_versioned r ''agent'' of
        Inl e \<Rightarrow> Err e | Inr (n, v) \<Rightarrow> Ok (Agent n v))"
      unfolding actor_from_str_def Let_def by simp
    then show ?thesis using a by (simp add: versioned_case)
  next
    case n
    then have "strip_prefix ''human:'' (trim s) = None" "strip_prefix ''process:'' (trim s) = None"
      "strip_prefix ''agent:'' (trim s) = None"
      by (simp_all only: strip_prefix_None not_False_eq_True simp_thms)
    then show ?thesis using n unfolding actor_from_str_def Let_def by auto
  qed
qed

section \<open>Properties\<close>

text \<open>
  The state machine has exactly six edges (\<open>edge\<close>): a transition succeeds exactly when there
  are no blockers and the edge exists, which for approvals and demotions requires a human; the
  outcome carries the status the new state stands for and a stamp exactly for a proposal or an
  approval. Any blocker stops every transition.
\<close>
theorem promotion_edges_exact:
  "((\<exists>out. apply_transition s t bs = Ok out \<and> out_state out = s') \<longleftrightarrow> bs = [] \<and> edge s t s')
   \<and> (\<forall>out. apply_transition s t bs = Ok out \<longrightarrow>
        out_status out = state_status (out_state out)
      \<and> out_stamp out = (case t of Propose a w \<Rightarrow> Some \<lparr>stamp_by = a, stamp_at = w\<rparr>
                                 | ApproveBy a w \<Rightarrow> Some \<lparr>stamp_by = a, stamp_at = w\<rparr>
                                 | _ \<Rightarrow> None))"
  using apply_edge_Ok [of s t] edge_apply [of s t s'] by (auto simp: apply_transition_def)

theorem promotion_edges_exact_witness:
  "(\<exists>out. apply_transition MachineConfirmed (ApproveBy (Human ''npub1'') ''now'') [] = Ok out
        \<and> out_state out = HumanReviewed)
   \<and> \<not> (\<exists>out. apply_transition MachineConfirmed (ApproveBy (Process ''vault'' ''1'') ''now'') [] = Ok out
        \<and> out_state out = HumanReviewed)"
  using promotion_edges_exact [of MachineConfirmed "ApproveBy (Human ''npub1'') ''now''" "[]" HumanReviewed]
    promotion_edges_exact [of MachineConfirmed "ApproveBy (Process ''vault'' ''1'') ''now''" "[]" HumanReviewed]
  by (simp add: edge_simps is_human_def)

text \<open>
  C38. Only a human promotes: through any sequence of attempted transitions, with or without
  blockers, a draft page on which no human acts never leaves the states draft and
  machine-confirmed. A process or an agent cannot make a page stable or deprecated.
\<close>
theorem only_a_human_promotes:
  assumes "\<forall>(t, bs) \<in> set ts. \<forall>a. transition_actor t = Some a \<longrightarrow> \<not> is_human a"
  shows "fold attempt ts Draft \<in> {Draft, MachineConfirmed}
    \<and> state_status (fold attempt ts Draft) = DraftStatus"
proof -
  have "fold attempt ts s \<in> {Draft, MachineConfirmed}" if "s \<in> {Draft, MachineConfirmed}" for s
    using assms that
  proof (induction ts arbitrary: s)
    case (Cons x ts)
    obtain t bs where x: "x = (t, bs)" by (cases x)
    have "attempt x s \<in> {Draft, MachineConfirmed}"
      unfolding x using Cons.prems x by (intro attempt_machine) auto
    then show ?case using Cons.IH Cons.prems by simp
  qed simp
  from this [of Draft] show ?thesis by auto
qed

theorem only_a_human_promotes_witness:
  "fold attempt [(Propose (Process ''vault'' ''1'') ''t'', []), (ApproveBy (Agent ''x'' ''2'') ''t'', [])] Draft
     \<in> {Draft, MachineConfirmed}"
  using only_a_human_promotes
    [of "[(Propose (Process ''vault'' ''1'') ''t'', []), (ApproveBy (Agent ''x'' ''2'') ''t'', [])]"]
  by (simp add: is_human_def)

text \<open>
  Writing an outcome back to a page, its status set and its stamp appended to
  \<open>verified\<close>, gives a page that reads back as the outcome's state for every transition but
  \<open>Expire\<close>: an expired page keeps the stamp of its proposal, so \<open>PromotionState::of\<close>
  still reads it as machine-confirmed although the outcome says draft.
\<close>
theorem outcome_reads_back:
  assumes "apply_transition (state_of okf) t bs = Ok out"
    and "okf' = okf\<lparr>okf_status := Some (out_status out),
                    verified := verified okf @ (case out_stamp out of Some st \<Rightarrow> [st] | None \<Rightarrow> [])\<rparr>"
  shows "state_of okf' = (if t = Expire then MachineConfirmed else out_state out)
       \<and> (t = Expire \<longrightarrow> out_state out = Draft)"
proof -
  have e: "edge (state_of okf) t (out_state out)" "out_status out = state_status (out_state out)"
    "out_stamp out = (case t of Propose a w \<Rightarrow> Some \<lparr>stamp_by = a, stamp_at = w\<rparr>
       | ApproveBy a w \<Rightarrow> Some \<lparr>stamp_by = a, stamp_at = w\<rparr> | _ \<Rightarrow> None)"
    using apply_edge_Ok assms(1) by (auto simp: apply_transition_def split: if_splits)
  from e(1) show ?thesis
  proof cases
    case (propose a t')
    then have "verified okf = []" by (auto simp: state_of_def split: if_splits)
    with propose e show ?thesis by (simp add: assms(2) state_of_def is_human_verified_def)
  next
    case expire
    then have "verified okf \<noteq> []" "\<not> is_human_verified okf" by (auto simp: state_of_def split: if_splits)
    with expire e show ?thesis by (simp add: assms(2) state_of_def is_human_verified_def)
  qed (use e in \<open>simp_all add: assms(2) state_of_def is_human_verified_def\<close>)
qed

theorem outcome_reads_back_witness:
  "let okf = \<lparr>type_name = None, okf_resource = None, okf_status = Some DraftStatus, status_raw = None,
              okf_stale_after = None, generated = None,
              verified = [\<lparr>stamp_by = Process ''vault'' ''1'', stamp_at = ''t''\<rparr>], sources = []\<rparr>
   in (\<exists>out. apply_transition (state_of okf) Expire [] = Ok out \<and> out_state out = Draft
          \<and> state_of (okf\<lparr>okf_status := Some (out_status out), verified := verified okf @ []\<rparr>) = MachineConfirmed)"
proof -
  let ?okf = "\<lparr>type_name = None, okf_resource = None, okf_status = Some DraftStatus, status_raw = None,
      okf_stale_after = None, generated = None,
      verified = [\<lparr>stamp_by = Process ''vault'' ''1'', stamp_at = ''t''\<rparr>], sources = []\<rparr>"
  have "state_of ?okf = MachineConfirmed"
    by (simp add: state_of_def is_human_verified_def is_human_def)
  then have "apply_transition (state_of ?okf) Expire []
      = Ok \<lparr>out_state = Draft, out_stamp = None, out_status = state_status Draft\<rparr>"
    by (simp add: apply_transition_def)
  from outcome_reads_back [OF this refl] this show ?thesis by (simp add: Let_def)
qed

text \<open>
  The actor syntax is unambiguous: a text parses as a human exactly when, trimmed, it is
  the prefix \<open>human:\<close> and a non-empty key, as a process or an agent exactly when it has that
  prefix, a non-empty name, a slash and a non-empty version without a slash; and every actor
  of that shape whose spelling has no surrounding white space parses back from its spelling.
  No process or agent text is ever read as a human.
\<close>
theorem actor_syntax_exact:
  "(actor_from_str s = Ok (Human n) \<longleftrightarrow> trim s = ''human:'' @ n \<and> n \<noteq> [])
   \<and> (actor_from_str s = Ok (Process n v) \<longleftrightarrow>
        trim s = ''process:'' @ n @ ''/'' @ v \<and> n \<noteq> [] \<and> v \<noteq> [] \<and> CHR ''/'' \<notin> set v)
   \<and> (actor_from_str s = Ok (Agent n v) \<longleftrightarrow>
        trim s = ''agent:'' @ n @ ''/'' @ v \<and> n \<noteq> [] \<and> v \<noteq> [] \<and> CHR ''/'' \<notin> set v)
   \<and> (\<forall>a. actor_from_str s = Ok a \<longrightarrow> actor_string a = trim s)"
proof (intro conjI allI impI)
  fix a assume "actor_from_str s = Ok a"
  then show "actor_string a = trim s"
    unfolding actor_from_str_Ok by (elim disjE exE conjE) (simp_all only: actor_string.simps)
qed (unfold actor_from_str_Ok, simp_all only: actor.inject actor.distinct simp_thms ex_simps conj_assoc, blast+)

theorem actor_syntax_exact_witness:
  "actor_from_str '' process:vault/1.0 '' = Ok (Process ''vault'' ''1.0'')
   \<and> (\<forall>n. actor_from_str '' process:vault/1.0 '' \<noteq> Ok (Human n))"
proof -
  have "trim '' process:vault/1.0 '' = ''process:vault/1.0''" by code_simp
  then show ?thesis
    using actor_syntax_exact [of "'' process:vault/1.0 ''" "''vault''" "''1.0''"] by simp
qed

text \<open>
  The proposal digest does not separate its fields. Whatever the hash function is, a
  creation has the digest of the amendment whose diff ends in the line \<open>kind:create\<close>, and a
  line moved from the start of the diff to the end of the hypothesis changes nothing, because
  the fields are joined by newlines that they may themselves contain. The documentation says
  that a creation never shares a case with an amendment over the same subject.
\<close>
theorem digest_fields_can_collide:
  "compute_digest_of_kind sha l CreateKind iri page hyp df []
     = compute_digest_of_kind sha l AmendKind iri page hyp (df @ newline @ ''kind:create'') []
   \<and> compute_digest sha l iri page (hyp @ newline @ line) df
     = compute_digest sha l iri page hyp (line @ newline @ df)"
  by (simp add: compute_digest_def compute_digest_grouped_def compute_digest_of_kind_def digest_input_def)

end
