(* ===== verification/Presence.thy ===== *)
theory Presence
  imports Float32 Wire
begin

text \<open>
  \<open>crates/visionclaw-xr-presence/src\<close>: identities and poses (\<open>types.rs\<close>), presence rooms
  (\<open>room.rs\<close>), pose deltas (\<open>delta.rs\<close>), the timestamp validator (\<open>validate.rs\<close>) and the
  \<open>0x43\<close> avatar pose frame (\<open>wire.rs\<close>). A parsed identifier is its text. Transforms keep
  the bit patterns of their floats, and comparisons of transforms are the IEEE comparisons of
  theory \<open>Float32\<close>.
\<close>

section \<open>Identifiers\<close>

datatype room_error =
    DuplicateDid string string
  | UnknownAvatar string
  | InvalidUrn string
  | InvalidDid string

definition is_hex :: "nat \<Rightarrow> string \<Rightarrow> bool" where
  "is_hex n s = (length s = n \<and> list_all is_ascii_hexdigit s)"

definition did_parse :: "string \<Rightarrow> room_error + string" where
  "did_parse s =
     (case strip_prefix ''did:nostr:'' s of
        None \<Rightarrow> Err (InvalidDid s)
      | Some rest \<Rightarrow> (if \<not> is_hex 64 rest then Err (InvalidDid s) else Ok s))"

definition did_pubkey_hex :: "string \<Rightarrow> string" where
  "did_pubkey_hex d = drop 10 d"

definition room_id_parse :: "string \<Rightarrow> room_error + string" where
  "room_id_parse s =
     (case strip_prefix ''urn:visionclaw:room:'' s of
        None \<Rightarrow> Err (InvalidUrn s)
      | Some rest \<Rightarrow>
          (if \<not> starts_with ''sha256-12-'' rest then Err (InvalidUrn s)
           else let hex = drop 10 rest in if \<not> is_hex 12 hex then Err (InvalidUrn s) else Ok s))"

definition fnv :: "u64 \<Rightarrow> bytes \<Rightarrow> u64" where
  "fnv h0 bs = fold (\<lambda>b h. (h XOR ucast b) * 0x100000001b3) bs h0"

definition wire_hash :: "string \<Rightarrow> bytes" where
  "wire_hash room =
     u64_le (fnv 0xcbf29ce484222325 (as_bytes room)) @ u64_le (fnv 0x84222325cbf29ce4 (rev (as_bytes room)))"

definition avatar_id_parse :: "string \<Rightarrow> room_error + string" where
  "avatar_id_parse s =
     (case strip_prefix ''urn:visionclaw:avatar:'' s of
        None \<Rightarrow> Err (InvalidUrn s)
      | Some rest \<Rightarrow> (if \<not> is_hex 64 rest then Err (InvalidUrn s) else Ok s))"

definition avatar_from_did :: "string \<Rightarrow> string" where
  "avatar_from_did d = ''urn:visionclaw:avatar:'' @ did_pubkey_hex d"

definition avatar_pubkey_hex :: "string \<Rightarrow> string" where
  "avatar_pubkey_hex a = drop 22 a"

section \<open>Poses and deltas\<close>

type_synonym quat = "f32 \<times> f32 \<times> f32 \<times> f32"

record pose_transform =
  tf_position :: vec3
  tf_rotation :: quat

definition F32_ONE :: f32 where "F32_ONE = 0x3F800000"

definition identity_transform :: pose_transform where
  "identity_transform = \<lparr>tf_position = (0, 0, 0), tf_rotation = (0, 0, 0, F32_ONE)\<rparr>"

record pose_frame =
  timestamp_us :: u64
  head :: pose_transform
  left_hand :: "pose_transform option"
  right_hand :: "pose_transform option"

definition transform_count :: "pose_frame \<Rightarrow> nat" where
  "transform_count f = 1 + (if left_hand f \<noteq> None then 1 else 0) + (if right_hand f \<noteq> None then 1 else 0)"

record avatar_metadata =
  md_did :: string
  display_name :: string
  model_uri :: "string option"

definition TM_HEAD :: u8 where "TM_HEAD = 1"
definition TM_LEFT_HAND :: u8 where "TM_LEFT_HAND = 2"
definition TM_RIGHT_HAND :: u8 where "TM_RIGHT_HAND = 4"

record pose_delta =
  delta_timestamp_us :: u64
  delta_mask :: u8
  delta_head :: "pose_transform option"
  delta_left :: "pose_transform option"
  delta_right :: "pose_transform option"

fun quat_eq :: "quat \<Rightarrow> quat \<Rightarrow> bool" where
  "quat_eq (a, b, c, d) (x, y, z, w) = (f32_eq a x \<and> f32_eq b y \<and> f32_eq c z \<and> f32_eq d w)"

definition transform_eq :: "pose_transform \<Rightarrow> pose_transform \<Rightarrow> bool" where
  "transform_eq a b = (vec3_eq (tf_position a) (tf_position b) \<and> quat_eq (tf_rotation a) (tf_rotation b))"

definition hand_delta :: "pose_transform option \<Rightarrow> pose_transform option \<Rightarrow> pose_transform option" where
  "hand_delta prev next' =
     (case (prev, next') of
        (Some a, Some b) \<Rightarrow> (if transform_eq a b then None else Some b)
      | (_, Some b) \<Rightarrow> Some b
      | _ \<Rightarrow> None)"

definition between :: "pose_frame \<Rightarrow> pose_frame \<Rightarrow> pose_delta" where
  "between prev next' =
     (let h = (if transform_eq (head prev) (head next') then None else Some (head next'));
          l = hand_delta (left_hand prev) (left_hand next');
          r = hand_delta (right_hand prev) (right_hand next');
          msk = (if h \<noteq> None then TM_HEAD else 0) OR (if l \<noteq> None then TM_LEFT_HAND else 0)
                 OR (if r \<noteq> None then TM_RIGHT_HAND else 0)
      in \<lparr>delta_timestamp_us = timestamp_us next', delta_mask = msk, delta_head = h,
          delta_left = l, delta_right = r\<rparr>)"

definition apply_delta :: "pose_delta \<Rightarrow> pose_frame \<Rightarrow> pose_frame" where
  "apply_delta d base =
     \<lparr>timestamp_us = delta_timestamp_us d,
      head = (case delta_head d of Some h \<Rightarrow> h | None \<Rightarrow> head base),
      left_hand = (if delta_mask d AND TM_LEFT_HAND \<noteq> 0 then delta_left d else left_hand base),
      right_hand = (if delta_mask d AND TM_RIGHT_HAND \<noteq> 0 then delta_right d else right_hand base)\<rparr>"

section \<open>Rooms\<close>

record avatar_state =
  av_id :: string
  av_metadata :: avatar_metadata
  last_frame :: "pose_frame option"

record presence_room =
  room_id :: string
  members :: "string \<rightharpoonup> avatar_state"
  did_index :: "string \<rightharpoonup> string"

definition new_room :: "string \<Rightarrow> presence_room" where
  "new_room i = \<lparr>room_id = i, members = Map.empty, did_index = Map.empty\<rparr>"

definition join :: "string \<Rightarrow> avatar_metadata \<Rightarrow> presence_room \<Rightarrow> (room_error + string) \<times> presence_room" where
  "join did metadata r =
     (case did_index r did of
        Some existing \<Rightarrow> (Err (DuplicateDid did existing), r)
      | None \<Rightarrow>
          (let avatar_id = avatar_from_did did
           in (Ok avatar_id,
               r\<lparr>did_index := (did_index r)(did \<mapsto> avatar_id),
                 members := (members r)(avatar_id \<mapsto>
                   \<lparr>av_id = avatar_id, av_metadata = metadata, last_frame = None\<rparr>)\<rparr>)))"

definition leave :: "string \<Rightarrow> presence_room \<Rightarrow> (room_error + unit) \<times> presence_room" where
  "leave avatar_id r =
     (case members r avatar_id of
        None \<Rightarrow> (Err (UnknownAvatar avatar_id), r)
      | Some state \<Rightarrow>
          (Ok (), r\<lparr>members := (members r)(avatar_id := None),
                    did_index := (did_index r)(md_did (av_metadata state) := None)\<rparr>))"

definition update_pose :: "string \<Rightarrow> pose_frame \<Rightarrow> presence_room \<Rightarrow> (room_error + pose_delta) \<times> presence_room" where
  "update_pose avatar_id frame r =
     (case members r avatar_id of
        None \<Rightarrow> (Err (UnknownAvatar avatar_id), r)
      | Some state \<Rightarrow>
          (let delta = (case last_frame state of
                          Some prev \<Rightarrow> between prev frame
                        | None \<Rightarrow> \<lparr>delta_timestamp_us = timestamp_us frame, delta_mask = 7,
                                   delta_head = Some (head frame), delta_left = left_hand frame,
                                   delta_right = right_hand frame\<rparr>)
           in (Ok delta, r\<lparr>members := (members r)(avatar_id \<mapsto> state\<lparr>last_frame := Some frame\<rparr>)\<rparr>)))"

definition member_count :: "presence_room \<Rightarrow> nat" where
  "member_count r = card (dom (members r))"

datatype validation_error =
    DuplicateTimestamp u64
  | NonMonotonicTimestamp u64 u64
  | IntervalTooShort u64 u64
  | VelocityExceeded f32 f32
  | OutOfBounds f32 f32 f32
  | NonUnitQuaternion f32 f32 f32
  | HandReachExceeded f32 f32

definition DEFAULT_MIN_FRAME_INTERVAL_US :: u64 where "DEFAULT_MIN_FRAME_INTERVAL_US = 8000"

definition monotonic_timestamp :: "u64 \<Rightarrow> u64 \<Rightarrow> validation_error + unit" where
  "monotonic_timestamp prev_us next_us =
     (if next_us > prev_us
      then let dt = next_us - prev_us
           in if dt < DEFAULT_MIN_FRAME_INTERVAL_US
              then Err (IntervalTooShort dt DEFAULT_MIN_FRAME_INTERVAL_US) else Ok ()
      else if next_us = prev_us then Err (DuplicateTimestamp next_us)
      else Err (NonMonotonicTimestamp prev_us next_us))"

record aabb =
  aabb_min :: vec3
  aabb_max :: vec3

definition symmetric_aabb :: "f32 \<Rightarrow> aabb" where
  "symmetric_aabb h = \<lparr>aabb_min = (f32_minus h, f32_minus h, f32_minus h), aabb_max = (h, h, h)\<rparr>"

fun in_box :: "vec3 \<Rightarrow> vec3 \<Rightarrow> vec3 \<Rightarrow> bool" where
  "in_box (lx, ly, lz) (hx, hy, hz) (x, y, z) =
     (f32_le lx x \<and> f32_le x hx \<and> f32_le ly y \<and> f32_le y hy \<and> f32_le lz z \<and> f32_le z hz)"

definition aabb_contains :: "aabb \<Rightarrow> vec3 \<Rightarrow> bool" where
  "aabb_contains b p = in_box (aabb_min b) (aabb_max b) p"

section \<open>The avatar pose frame\<close>

definition OPCODE_AVATAR_POSE :: u8 where "OPCODE_AVATAR_POSE = 0x43"
definition MAX_AVATAR_ID_WIRE_LEN :: nat where "MAX_AVATAR_ID_WIRE_LEN = 255"
definition POSE_FIXED :: nat where "POSE_FIXED = 16 + 1 + 8 + 1"
definition TRANSFORM_WIRE_SIZE :: nat where "TRANSFORM_WIRE_SIZE = 28"

datatype wire_error =
    TooShort nat nat
  | LengthMismatch nat nat
  | BadOpcode u8 u8
  | BadTransformCount u8
  | AvatarIdTooLong nat nat
  | AvatarIdNotUtf8
  | FrameTooLarge nat nat
  | BadAgentState u8
  | BadAttentionTag u8

fun quat_le :: "quat \<Rightarrow> bytes" where
  "quat_le (a, b, c, d) = u32_le a @ u32_le b @ u32_le c @ u32_le d"

definition write_transform :: "pose_transform \<Rightarrow> bytes" where
  "write_transform t = vec3_le (tf_position t) @ quat_le (tf_rotation t)"

definition read_transform :: "bytes \<Rightarrow> pose_transform" where
  "read_transform bs = \<lparr>tf_position = rd_vec3 bs 0,
     tf_rotation = (rd32 bs 12, rd32 bs 16, rd32 bs 20, rd32 bs 24)\<rparr>"

definition opt_bytes :: "pose_transform option \<Rightarrow> bytes" where
  "opt_bytes t = (case t of Some t \<Rightarrow> write_transform t | None \<Rightarrow> [])"

definition slot_mask :: "pose_frame \<Rightarrow> u8" where
  "slot_mask f = 1 OR (if left_hand f \<noteq> None then 2 else 0) OR (if right_hand f \<noteq> None then 4 else 0)"

definition encode_pose :: "pose_frame \<Rightarrow> string \<Rightarrow> string \<Rightarrow> wire_error + bytes" where
  "encode_pose f room avatar =
     (let avatar_bytes = as_bytes avatar
      in if length avatar_bytes > MAX_AVATAR_ID_WIRE_LEN
         then Err (AvatarIdTooLong (length avatar_bytes) MAX_AVATAR_ID_WIRE_LEN)
         else let body_len = 16 + 1 + length avatar_bytes + 8 + 1 + transform_count f * TRANSFORM_WIRE_SIZE
              in Ok (OPCODE_AVATAR_POSE # u16_le (word_of_nat body_len) @ wire_hash room
                     @ [word_of_nat (length avatar_bytes)] @ avatar_bytes
                     @ u64_le (timestamp_us f) @ [slot_mask f]
                     @ write_transform (head f) @ opt_bytes (left_hand f) @ opt_bytes (right_hand f)))"

record decoded_frame =
  room_hash :: bytes
  decoded_avatar_id :: string
  decoded_pose :: pose_frame

definition decode_slots :: "u8 \<Rightarrow> u64 \<Rightarrow> bytes \<Rightarrow> pose_frame" where
  "decode_slots msk ts rest =
     (let h = read_transform (take 28 rest);
          rest1 = drop 28 rest;
          (l, rest2) = (if msk AND 2 \<noteq> 0 then (Some (read_transform (take 28 rest1)), drop 28 rest1)
                        else (None, rest1));
          r = (if msk AND 4 \<noteq> 0 then Some (read_transform (take 28 rest2)) else None)
      in \<lparr>timestamp_us = ts, head = h, left_hand = l, right_hand = r\<rparr>)"

definition decode_pose_body :: "nat \<Rightarrow> bytes \<Rightarrow> wire_error + decoded_frame" where
  "decode_pose_body frame_len body =
     (let id_len = unat (body ! 16)
      in if 17 + id_len > length body then Err (LengthMismatch frame_len (length body))
         else let id_bytes = take id_len (drop 17 body); cursor = 17 + id_len
         in if \<not> utf8_valid id_bytes then Err AvatarIdNotUtf8
         else if cursor + 8 + 1 > length body then Err (LengthMismatch frame_len (length body))
         else let ts = le_word (take 8 (drop cursor body)); msk = body ! (cursor + 8)
         in if msk AND 1 = 0 \<or> msk AND NOT 7 \<noteq> 0 then Err (BadTransformCount msk)
         else let count = (if msk AND 1 \<noteq> 0 then 1 else 0) + (if msk AND 2 \<noteq> 0 then 1 else 0)
                          + (if msk AND 4 \<noteq> 0 then 1 else 0 :: nat)
         in if cursor + 9 + count * TRANSFORM_WIRE_SIZE > length body
            then Err (LengthMismatch frame_len (length body))
            else Ok \<lparr>room_hash = take 16 body, decoded_avatar_id = string_of_bytes id_bytes,
                     decoded_pose = decode_slots msk ts (drop (cursor + 9) body)\<rparr>)"

definition decode_pose :: "bytes \<Rightarrow> wire_error + decoded_frame" where
  "decode_pose bs =
     (if length bs < 19 + 1 + 8 + 1 then Err (TooShort 29 (length bs))
      else if bs ! 0 \<noteq> OPCODE_AVATAR_POSE then Err (BadOpcode (bs ! 0) OPCODE_AVATAR_POSE)
      else let frame_len = unat (le_word (take 2 (drop 1 bs)) :: u16)
           in if length bs < 3 + frame_len then Err (LengthMismatch frame_len (length bs - 3))
              else if frame_len < POSE_FIXED then Err (TooShort POSE_FIXED frame_len)
              else decode_pose_body frame_len (take frame_len (drop 3 bs)))"

section \<open>Deltas\<close>

text \<open>Two transforms a receiver cannot tell apart: the same bits, or equal as floats.\<close>

definition tf_sim :: "pose_transform \<Rightarrow> pose_transform \<Rightarrow> bool" where
  "tf_sim a b \<longleftrightarrow> a = b \<or> transform_eq a b"

definition hand_sim :: "pose_transform option \<Rightarrow> pose_transform option \<Rightarrow> bool" where
  "hand_sim x y \<longleftrightarrow> rel_option tf_sim x y"

definition pose_sim :: "pose_frame \<Rightarrow> pose_frame \<Rightarrow> bool" where
  "pose_sim a b \<longleftrightarrow> timestamp_us a = timestamp_us b \<and> tf_sim (head a) (head b)
     \<and> hand_sim (left_hand a) (left_hand b) \<and> hand_sim (right_hand a) (right_hand b)"

text \<open>Neither hand goes from tracked to untracked.\<close>

definition hands_kept :: "pose_frame \<Rightarrow> pose_frame \<Rightarrow> bool" where
  "hands_kept a b \<longleftrightarrow> (left_hand a \<noteq> None \<longrightarrow> left_hand b \<noteq> None)
     \<and> (right_hand a \<noteq> None \<longrightarrow> right_hand b \<noteq> None)"

lemma quat_eq_trans: "quat_eq p q \<Longrightarrow> quat_eq q r \<Longrightarrow> quat_eq p r"
  by (cases p; cases q; cases r) (auto intro: f32_eq_trans)

lemma vec3_eq_trans: "vec3_eq p q \<Longrightarrow> vec3_eq q r \<Longrightarrow> vec3_eq p r"
  by (cases p; cases q; cases r) (auto intro: f32_eq_trans)

lemma transform_eq_trans: "transform_eq a b \<Longrightarrow> transform_eq b c \<Longrightarrow> transform_eq a c"
  unfolding transform_eq_def using vec3_eq_trans quat_eq_trans by blast

lemma tf_sim_refl [simp]: "tf_sim a a"
  by (simp add: tf_sim_def)

lemma tf_sim_trans: "tf_sim a b \<Longrightarrow> transform_eq b c \<Longrightarrow> tf_sim a c"
  by (auto simp: tf_sim_def intro: transform_eq_trans)

lemma hand_sim_refl [simp]: "hand_sim x x"
  by (cases x) (simp_all add: hand_sim_def)

lemma between_mask:
  "delta_mask (between a b) AND TM_LEFT_HAND \<noteq> 0 \<longleftrightarrow> hand_delta (left_hand a) (left_hand b) \<noteq> None"
  "delta_mask (between a b) AND TM_RIGHT_HAND \<noteq> 0 \<longleftrightarrow> hand_delta (right_hand a) (right_hand b) \<noteq> None"
  by (simp_all add: between_def Let_def TM_HEAD_def TM_LEFT_HAND_def TM_RIGHT_HAND_def)

lemma apply_between:
  "apply_delta (between a b) r =
     \<lparr>timestamp_us = timestamp_us b,
      head = (if transform_eq (head a) (head b) then head r else head b),
      left_hand = (case hand_delta (left_hand a) (left_hand b) of None \<Rightarrow> left_hand r | Some t \<Rightarrow> Some t),
      right_hand = (case hand_delta (right_hand a) (right_hand b) of None \<Rightarrow> right_hand r | Some t \<Rightarrow> Some t)\<rparr>"
  unfolding apply_delta_def between_mask
  by (auto simp: between_def Let_def split: option.splits)

lemma hand_delta_sim:
  assumes "hand_sim r a" and "a \<noteq> None \<longrightarrow> b \<noteq> None"
  shows "hand_sim (case hand_delta a b of None \<Rightarrow> r | Some t \<Rightarrow> Some t) b"
  using assms
  by (cases a; cases b; cases r) (auto simp: hand_delta_def hand_sim_def intro: tf_sim_trans)

lemma apply_between_sim:
  assumes "pose_sim r a" and "hands_kept a b"
  shows "pose_sim (apply_delta (between a b) r) b"
  using assms hand_delta_sim [of "left_hand r" "left_hand a" "left_hand b"]
    hand_delta_sim [of "right_hand r" "right_hand a" "right_hand b"]
  by (auto simp: apply_between pose_sim_def hands_kept_def intro: tf_sim_trans)

interpretation pose_deltas: delta_stream between apply_delta pose_sim hands_kept
  by unfold_locales (rule apply_between_sim)

section \<open>The codec\<close>

lemma quat_le_length [simp, codec_simps]: "length (quat_le q) = 16"
  by (cases q) simp

lemma read_write_transform: "read_transform (write_transform t) = t"
  by (cases t; cases "tf_position t"; cases "tf_rotation t")
    (simp add: read_transform_def write_transform_def rd_vec3_def rd32_def)

interpretation transform_codec: fixed_codec write_transform read_transform 28
  by unfold_locales (simp_all add: read_write_transform, simp add: write_transform_def)

lemma length_write_transform [simp]: "length (write_transform t) = 28"
  by (rule transform_codec.length_enc)

lemma length_wire_hash [simp]: "length (wire_hash r) = 16"
  by (simp add: wire_hash_def)

lemma of_char_small: "of_char c < (256 :: nat)"
  by (metis of_char_mod_256 mod_less_divisor zero_less_numeral)

lemma unat_byte: "unat (word_of_nat (of_char c) :: u8) = of_char c"
  using of_char_small [of c] by (simp add: unat_of_nat)

lemma string_of_as_bytes [simp]: "string_of_bytes (as_bytes s) = s"
  by (induction s) (simp_all add: as_bytes_def string_of_bytes_def unat_byte)

lemma ascii_utf8_valid: "\<forall>b \<in> set bs. unat b < 0x80 \<Longrightarrow> utf8_valid bs"
  by (induction bs) auto

lemma decode_slots_frame:
  "decode_slots (slot_mask f) (timestamp_us f)
     (write_transform (head f) @ opt_bytes (left_hand f) @ opt_bytes (right_hand f) @ rest) = f"
proof -
  have tk: "take 28 (write_transform t @ r) = write_transform t" "drop 28 (write_transform t @ r) = r" for t r
    by simp_all
  show ?thesis
    by (cases "left_hand f"; cases "right_hand f"; cases f)
      (simp_all add: decode_slots_def slot_mask_def opt_bytes_def tk read_write_transform Let_def)
qed

lemma length_opt_bytes: "length (opt_bytes t) = (if t = None then 0 else 28)"
  by (cases t) (simp_all add: opt_bytes_def)

lemma slot_mask_ok:
  "slot_mask f AND 1 \<noteq> 0" "slot_mask f AND NOT 7 = 0"
  "slot_mask f AND 2 \<noteq> 0 \<longleftrightarrow> left_hand f \<noteq> None" "slot_mask f AND 4 \<noteq> 0 \<longleftrightarrow> right_hand f \<noteq> None"
  by (simp_all add: slot_mask_def)

lemma mask_count:
  "(if slot_mask f AND 1 \<noteq> 0 then 1 else 0) + (if slot_mask f AND 2 \<noteq> 0 then 1 else 0)
     + (if slot_mask f AND 4 \<noteq> 0 then 1 else 0 :: nat) = transform_count f"
  by (simp only: slot_mask_ok transform_count_def) simp

lemma decode_body_frame:
  assumes "length ids < 256" and "utf8_valid ids" and "length hash = 16"
  shows "decode_pose_body fl
     (hash @ [word_of_nat (length ids)] @ ids @ u64_le (timestamp_us f) @ [slot_mask f]
      @ write_transform (head f) @ opt_bytes (left_hand f) @ opt_bytes (right_hand f))
   = Ok \<lparr>room_hash = hash, decoded_avatar_id = string_of_bytes ids, decoded_pose = f\<rparr>"
proof -
  let ?slots = "write_transform (head f) @ opt_bytes (left_hand f) @ opt_bytes (right_hand f)"
  let ?body = "hash @ [word_of_nat (length ids)] @ ids @ u64_le (timestamp_us f) @ [slot_mask f] @ ?slots"
  let ?n = "length ids"
  have n: "unat (?body ! 16) = ?n"
    using assms(1,3) by (simp add: nth_append unat_of_nat)
  have ids: "take ?n (drop 17 ?body) = ids" using assms(3) by simp
  have ts: "take 8 (drop (17 + ?n) ?body) = u64_le (timestamp_us f)" using assms(3) by simp
  have m: "?body ! (17 + ?n + 8) = slot_mask f" using assms(3) by (simp add: nth_append)
  let ?pre = "hash @ [word_of_nat (length ids)] @ ids @ u64_le (timestamp_us f) @ [slot_mask f]"
  have "?body = ?pre @ ?slots" "length ?pre = 17 + ?n + 9" using assms(3) by simp_all
  then have rest: "drop (17 + ?n + 9) ?body = ?slots" by (metis append_eq_conv_conj)
  have slots: "length ?slots = transform_count f * TRANSFORM_WIRE_SIZE"
    by (simp add: length_opt_bytes transform_count_def TRANSFORM_WIRE_SIZE_def)
  have len: "length ?body = 17 + ?n + 9 + transform_count f * TRANSFORM_WIRE_SIZE"
    using assms(3) slots by simp
  have hash: "take 16 ?body = hash" using assms(3) by simp
  show ?thesis
    unfolding decode_pose_body_def Let_def n ids ts m rest mask_count len hash
    using assms(2) slot_mask_ok [of f] decode_slots_frame [of f "[]"] by simp
qed

lemma encode_decode_pose:
  assumes "length avatar \<le> 255" and "utf8_valid (as_bytes avatar)"
  shows "\<exists>bs. encode_pose f room avatar = Ok bs \<and> decode_pose bs
     = Ok \<lparr>room_hash = wire_hash room, decoded_avatar_id = avatar, decoded_pose = f\<rparr>"
proof -
  let ?ids = "as_bytes avatar"
  let ?slots = "write_transform (head f) @ opt_bytes (left_hand f) @ opt_bytes (right_hand f)"
  let ?body = "wire_hash room @ [word_of_nat (length ?ids)] @ ?ids @ u64_le (timestamp_us f)
     @ [slot_mask f] @ ?slots"
  let ?len = "16 + 1 + length ?ids + 8 + 1 + transform_count f * TRANSFORM_WIRE_SIZE"
  let ?bs = "OPCODE_AVATAR_POSE # u16_le (word_of_nat ?len) @ ?body"
  have ids: "length ?ids = length avatar" by (simp add: as_bytes_def)
  have enc: "encode_pose f room avatar = Ok ?bs"
    using assms(1) ids by (simp add: encode_pose_def Let_def MAX_AVATAR_ID_WIRE_LEN_def)
  have len: "length ?body = ?len"
    by (simp add: length_opt_bytes transform_count_def TRANSFORM_WIRE_SIZE_def)
  have "transform_count f \<le> 3" by (simp add: transform_count_def)
  then have "?len < 2 ^ 16" using assms(1) ids by (simp add: TRANSFORM_WIRE_SIZE_def)
  then have small: "unat (word_of_nat ?len :: u16) = ?len" by (rule unat_u16_of_nat)
  have "take 2 (drop 1 ?bs) = u16_le (word_of_nat ?len)" by simp
  then have fl: "unat (le_word (take 2 (drop 1 ?bs)) :: u16) = ?len"
    using small by (simp only: u16_codec.dec_enc)
  have big: "29 \<le> length ?bs" "POSE_FIXED \<le> ?len" using len by (simp_all add: POSE_FIXED_def)
  have body: "take ?len (drop 3 ?bs) = ?body" using len by simp
  have "decode_pose ?bs = decode_pose_body ?len ?body"
    unfolding decode_pose_def Let_def fl body using big len by simp
  also have "\<dots> = Ok \<lparr>room_hash = wire_hash room, decoded_avatar_id = avatar, decoded_pose = f\<rparr>"
    using assms ids by (subst decode_body_frame) simp_all
  finally show ?thesis using enc by blast
qed

lemma hexdigit_ascii: "is_ascii_hexdigit c \<Longrightarrow> of_char c < (128 :: nat)"
  by (auto simp: is_ascii_hexdigit_def)

lemma avatar_parse_Ok:
  "avatar_id_parse s = Ok a \<longleftrightarrow> a = s \<and> (\<exists>h. s = ''urn:visionclaw:avatar:'' @ h \<and> is_hex 64 h)"
  by (cases "strip_prefix ''urn:visionclaw:avatar:'' s") (auto simp: avatar_id_parse_def)

lemma avatar_ascii:
  assumes "avatar_id_parse s = Ok a"
  shows "length a = 86 \<and> utf8_valid (as_bytes a)"
proof -
  obtain h where a: "a = ''urn:visionclaw:avatar:'' @ h" and h: "is_hex 64 h"
    using assms by (auto simp: avatar_parse_Ok)
  have "\<forall>c \<in> set a. of_char c < (128 :: nat)"
    using h by (auto simp: a is_hex_def list_all_iff hexdigit_ascii)
  then have "utf8_valid (as_bytes a)"
    by (intro ascii_utf8_valid) (auto simp: as_bytes_def unat_byte)
  moreover have "length a = 86" using h by (simp add: a is_hex_def)
  ultimately show ?thesis by simp
qed

section \<open>Histories of a room\<close>

datatype room_op =
    Join string avatar_metadata
  | Leave string
  | UpdatePose string pose_frame

fun room_step :: "room_op \<Rightarrow> presence_room \<Rightarrow> presence_room" where
  "room_step (Join d m) r = snd (join d m r)"
| "room_step (Leave a) r = snd (leave a r)"
| "room_step (UpdatePose a f) r = snd (update_pose a f r)"

definition valid_did :: "string \<Rightarrow> bool" where
  "valid_did d \<longleftrightarrow> is_ok (did_parse d)"

text \<open>A caller that joins a parsed DID with its own metadata.\<close>

fun honest :: "room_op \<Rightarrow> bool" where
  "honest (Join d m) = (valid_did d \<and> md_did m = d)"
| "honest _ = True"

definition room_inv :: "presence_room \<Rightarrow> bool" where
  "room_inv r \<longleftrightarrow>
     (\<forall>d a. did_index r d = Some a \<longrightarrow> valid_did d \<and> a = avatar_from_did d
        \<and> (\<exists>st. members r a = Some st \<and> md_did (av_metadata st) = d))
   \<and> (\<forall>a st. members r a = Some st \<longrightarrow> av_id st = a \<and> did_index r (md_did (av_metadata st)) = Some a)"

lemma valid_did_iff: "valid_did d \<longleftrightarrow> (\<exists>h. d = ''did:nostr:'' @ h \<and> is_hex 64 h)"
  by (cases "strip_prefix ''did:nostr:'' d") (auto simp: valid_did_def did_parse_def is_ok_def)

lemma avatar_from_did_inject:
  "valid_did d \<Longrightarrow> valid_did d' \<Longrightarrow> avatar_from_did d = avatar_from_did d' \<longleftrightarrow> d = d'"
  by (auto simp: valid_did_iff avatar_from_did_def did_pubkey_hex_def)

lemma avatar_from_did_parses: "valid_did d \<Longrightarrow> avatar_id_parse (avatar_from_did d) = Ok (avatar_from_did d)"
  by (auto simp: valid_did_iff avatar_parse_Ok avatar_from_did_def did_pubkey_hex_def)

lemma join_inv:
  assumes inv: "room_inv r" and "valid_did d" and "md_did m = d"
  shows "room_inv (snd (join d m r))"
proof (cases "did_index r d")
  case None
  have new: "members r (avatar_from_did d) = None"
  proof (rule ccontr)
    assume "members r (avatar_from_did d) \<noteq> None"
    then obtain st where "members r (avatar_from_did d) = Some st" by blast
    then have i: "did_index r (md_did (av_metadata st)) = Some (avatar_from_did d)"
      using inv by (simp add: room_inv_def)
    then have "md_did (av_metadata st) = d"
      using inv assms(2) avatar_from_did_inject by (metis room_inv_def)
    with i None show False by simp
  qed
  have "did_index r e \<noteq> Some (avatar_from_did d)" for e
    using inv new unfolding room_inv_def by (metis option.distinct(1))
  moreover have "members r a = Some st \<Longrightarrow> md_did (av_metadata st) \<noteq> d" for a st
    using inv None unfolding room_inv_def by (metis option.distinct(1))
  ultimately show ?thesis
    using inv assms(2,3) None by (auto simp: join_def room_inv_def Let_def)
qed (use inv in \<open>simp add: join_def\<close>)

lemma leave_inv:
  assumes inv: "room_inv r"
  shows "room_inv (snd (leave a r))"
proof (cases "members r a")
  case (Some st)
  let ?d = "md_did (av_metadata st)"
  have d: "did_index r ?d = Some a" using inv Some by (simp add: room_inv_def)
  have other: "e = ?d" if e: "did_index r e = Some a" for e
  proof -
    obtain st' where "members r a = Some st'" "md_did (av_metadata st') = e"
      using inv e unfolding room_inv_def by blast
    with Some show ?thesis by simp
  qed
  have "b = a" if "md_did (av_metadata st') = ?d" "members r b = Some st'" for b st'
  proof -
    have "did_index r (md_did (av_metadata st')) = Some b" using inv that(2) by (simp add: room_inv_def)
    with d that(1) show ?thesis by simp
  qed
  note uniq = this
  have r': "did_index (snd (leave a r)) = (did_index r)(?d := None)"
    "members (snd (leave a r)) = (members r)(a := None)"
    using Some by (simp_all add: leave_def)
  show ?thesis
    unfolding room_inv_def r'
  proof (intro conjI allI impI)
    fix e b assume "((did_index r)(?d := None)) e = Some b"
    then have e: "e \<noteq> ?d" "did_index r e = Some b" by (auto split: if_splits)
    then have "b \<noteq> a" using other by blast
    with inv e show "valid_did e" "b = avatar_from_did e"
      "\<exists>st. ((members r)(a := None)) b = Some st \<and> md_did (av_metadata st) = e"
      by (simp_all add: room_inv_def)
  next
    fix b st' assume "((members r)(a := None)) b = Some st'"
    then have b: "b \<noteq> a" "members r b = Some st'" by (auto split: if_splits)
    then have "md_did (av_metadata st') \<noteq> ?d" using uniq by blast
    with inv b show "av_id st' = b" "((did_index r)(?d := None)) (md_did (av_metadata st')) = Some b"
      by (simp_all add: room_inv_def)
  qed
qed (use inv in \<open>simp add: leave_def\<close>)

lemma update_pose_inv: "room_inv r \<Longrightarrow> room_inv (snd (update_pose a f r))"
  by (cases "members r a") (force simp: update_pose_def room_inv_def Let_def)+

lemma room_step_inv: "room_inv r \<Longrightarrow> honest x \<Longrightarrow> room_inv (room_step x r)"
  by (cases x) (simp_all add: join_inv leave_inv update_pose_inv)

lemma room_history_inv: "room_inv r \<Longrightarrow> \<forall>x \<in> set ops. honest x \<Longrightarrow> room_inv (fold room_step ops r)"
  by (induction ops arbitrary: r) (simp_all add: room_step_inv)

lemma new_room_inv: "room_inv (new_room i)"
  by (simp add: room_inv_def new_room_def)

text \<open>The room as a sender of deltas and one receiver that applies what it is sent.\<close>

fun stream_poses :: "string \<Rightarrow> pose_frame list \<Rightarrow> presence_room \<times> pose_frame \<Rightarrow> presence_room \<times> pose_frame" where
  "stream_poses a [] s = s"
| "stream_poses a (f # fs) (r, view) =
     (case update_pose a f r of
        (Inr d, r') \<Rightarrow> stream_poses a fs (r', apply_delta d view)
      | (Inl _, r') \<Rightarrow> stream_poses a fs (r', view))"

lemma stream_poses_follow:
  assumes "members r a = Some st" and "last_frame st = Some prev"
  shows "snd (stream_poses a fs (r, view)) = follow_deltas between apply_delta prev fs view
    \<and> (\<exists>st'. members (fst (stream_poses a fs (r, view))) a = Some st'
          \<and> last_frame st' = Some (last (prev # fs)))"
  using assms
proof (induction fs arbitrary: r st prev view)
  case (Cons f fs)
  let ?r = "r\<lparr>members := (members r)(a \<mapsto> st\<lparr>last_frame := Some f\<rparr>)\<rparr>"
  have "update_pose a f r = (Ok (between prev f), ?r)"
    using Cons.prems by (simp add: update_pose_def)
  then show ?case
    using Cons.IH [of ?r "st\<lparr>last_frame := Some f\<rparr>" f "apply_delta (between prev f) view"] by simp
qed simp

section \<open>Properties\<close>

text \<open>
  The avatar pose frame round trips: for every pose (any float bits, any combination of
  hands), every room and every parsed avatar id, encoding succeeds and decoding the bytes
  returns the room's hash, the avatar id and the pose exactly.
\<close>
theorem pose_frame_roundtrip:
  assumes "avatar_id_parse s = Ok avatar"
  shows "\<exists>bs. encode_pose f room avatar = Ok bs
     \<and> decode_pose bs = Ok \<lparr>room_hash = wire_hash room, decoded_avatar_id = avatar, decoded_pose = f\<rparr>"
  using avatar_ascii [OF assms] by (intro encode_decode_pose) simp_all

theorem pose_frame_roundtrip_witness:
  "\<exists>bs. encode_pose \<lparr>timestamp_us = 7, head = identity_transform, left_hand = None,
            right_hand = Some identity_transform\<rparr> ''r'' (''urn:visionclaw:avatar:'' @ replicate 64 (CHR ''a'')) = Ok bs
     \<and> is_ok (decode_pose bs)"
proof -
  have "avatar_id_parse (''urn:visionclaw:avatar:'' @ replicate 64 (CHR ''a''))
      = Ok (''urn:visionclaw:avatar:'' @ replicate 64 (CHR ''a''))"
    unfolding avatar_parse_Ok by (simp add: is_hex_def list_all_iff is_ascii_hexdigit_def)
  from pose_frame_roundtrip [OF this] show ?thesis by (metis is_ok_def sum.simps(6))
qed

text \<open>
  A receiver follows the room: once an avatar has joined, whatever the receiver held
  before, applying the deltas that \<open>update_pose\<close> returns for any sequence of poses keeps the
  receiver's view equal to the room's last pose, up to the float equality the delta uses, as
  long as a tracked hand does not disappear from one pose to the next.
\<close>
theorem receivers_follow_the_room:
  assumes "members r a = Some st" and "last_frame st = None" and "chain_of hands_kept f fs"
  shows "pose_sim (snd (stream_poses a (f # fs) (r, view))) (last (f # fs))
    \<and> (\<exists>st'. members (fst (stream_poses a (f # fs) (r, view))) a = Some st'
          \<and> last_frame st' = Some (last (f # fs)))"
proof -
  let ?d = "\<lparr>delta_timestamp_us = timestamp_us f, delta_mask = 7, delta_head = Some (head f),
             delta_left = left_hand f, delta_right = right_hand f\<rparr>"
  let ?r = "r\<lparr>members := (members r)(a \<mapsto> st\<lparr>last_frame := Some f\<rparr>)\<rparr>"
  have "update_pose a f r = (Ok ?d, ?r)" using assms(1,2) by (simp add: update_pose_def)
  moreover have "apply_delta ?d view = f"
    by (simp add: apply_delta_def TM_LEFT_HAND_def TM_RIGHT_HAND_def)
  ultimately have "stream_poses a (f # fs) (r, view) = stream_poses a fs (?r, f)" by simp
  moreover have "pose_sim f f" by (simp add: pose_sim_def)
  ultimately show ?thesis
    using stream_poses_follow [of ?r a "st\<lparr>last_frame := Some f\<rparr>" f fs f] pose_deltas.follow_sim assms(3)
    by simp
qed

theorem receivers_follow_the_room_witness:
  "let f = \<lparr>timestamp_us = 7, head = identity_transform, left_hand = None, right_hand = None\<rparr>;
       g = \<lparr>timestamp_us = 8, head = identity_transform, left_hand = Some identity_transform, right_hand = None\<rparr>;
       r = snd (join ''d'' \<lparr>md_did = ''d'', display_name = [], model_uri = None\<rparr> (new_room ''r''))
   in pose_sim (snd (stream_poses (avatar_from_did ''d'') [f, g] (r, g))) g"
proof -
  let ?f = "\<lparr>timestamp_us = 7, head = identity_transform, left_hand = None, right_hand = None\<rparr>"
  let ?g = "\<lparr>timestamp_us = 8, head = identity_transform, left_hand = Some identity_transform, right_hand = None\<rparr>"
  let ?m = "\<lparr>md_did = ''d'', display_name = [], model_uri = None\<rparr>"
  have "members (snd (join ''d'' ?m (new_room ''r''))) (avatar_from_did ''d'')
      = Some \<lparr>av_id = avatar_from_did ''d'', av_metadata = ?m, last_frame = None\<rparr>"
    by (simp add: join_def new_room_def Let_def)
  from receivers_follow_the_room [OF this, of ?f "[?g]" ?g] show ?thesis
    by (simp add: hands_kept_def Let_def)
qed

text \<open>
  A hand that disappears stays on the receiver: when a hand tracked in the previous pose is
  missing from the next one, the delta carries nothing for it and the receiver keeps showing
  the old hand, so applying the delta does not give the next pose.
\<close>
theorem vanished_hand_stays:
  assumes "left_hand a = Some t" and "left_hand b = None"
  shows "left_hand (apply_delta (between a b) a) = Some t
    \<and> \<not> pose_sim (apply_delta (between a b) a) b"
  using assms by (simp add: apply_between hand_delta_def pose_sim_def hand_sim_def)

theorem vanished_hand_stays_witness:
  "left_hand (apply_delta (between
      \<lparr>timestamp_us = 7, head = identity_transform, left_hand = Some identity_transform, right_hand = None\<rparr>
      \<lparr>timestamp_us = 8, head = identity_transform, left_hand = None, right_hand = None\<rparr>)
      \<lparr>timestamp_us = 7, head = identity_transform, left_hand = Some identity_transform, right_hand = None\<rparr>)
    = Some identity_transform"
  using vanished_hand_stays [of
      "\<lparr>timestamp_us = 7, head = identity_transform, left_hand = Some identity_transform, right_hand = None\<rparr>"
      identity_transform
      "\<lparr>timestamp_us = 8, head = identity_transform, left_hand = None, right_hand = None\<rparr>"]
  by simp

text \<open>
  C39. One DID, one avatar: when every join presents a parsed DID with metadata for that DID,
  then after any history of joins, leaves and pose updates the index and the members describe
  each other, a DID is refused exactly while its avatar is in the room, and an avatar that
  leaves can join again.
\<close>
theorem one_avatar_per_did:
  assumes "\<forall>x \<in> set ops. honest x" and "r = fold room_step ops (new_room i)" and "valid_did d"
  shows "(did_index r d \<noteq> None \<longleftrightarrow> members r (avatar_from_did d) \<noteq> None)
    \<and> (is_ok (fst (join d m r)) \<longleftrightarrow> members r (avatar_from_did d) = None)
    \<and> (\<forall>a st b st'. members r a = Some st \<and> members r b = Some st'
          \<and> md_did (av_metadata st) = md_did (av_metadata st') \<longrightarrow> a = b)
    \<and> is_ok (fst (join d m (snd (leave (avatar_from_did d) r))))"
proof -
  have inv: "room_inv r" using room_history_inv [OF new_room_inv assms(1)] assms(2) by simp
  have inv': "room_inv (snd (leave (avatar_from_did d) r))" by (rule leave_inv [OF inv])
  have index: "did_index q d \<noteq> None \<longleftrightarrow> members q (avatar_from_did d) \<noteq> None" if "room_inv q" for q
  proof
    assume "members q (avatar_from_did d) \<noteq> None"
    then obtain st where "members q (avatar_from_did d) = Some st" by blast
    then have "did_index q (md_did (av_metadata st)) = Some (avatar_from_did d)"
      using that by (simp add: room_inv_def)
    moreover from this have "md_did (av_metadata st) = d"
      using that assms(3) avatar_from_did_inject by (metis room_inv_def)
    ultimately show "did_index q d \<noteq> None" by simp
  qed (use that in \<open>auto simp: room_inv_def\<close>)
  have ok: "is_ok (fst (join d m q)) \<longleftrightarrow> did_index q d = None" for q
    by (simp add: join_def is_ok_def Let_def split: option.split)
  have "members (snd (leave (avatar_from_did d) r)) (avatar_from_did d) = None"
    by (simp add: leave_def split: option.split)
  then have "is_ok (fst (join d m (snd (leave (avatar_from_did d) r))))"
    using index [OF inv'] ok by blast
  moreover have "\<forall>a st b st'. members r a = Some st \<and> members r b = Some st'
      \<and> md_did (av_metadata st) = md_did (av_metadata st') \<longrightarrow> a = b"
    using inv unfolding room_inv_def by (metis option.inject)
  moreover have "is_ok (fst (join d m r)) \<longleftrightarrow> members r (avatar_from_did d) = None"
    using ok [of r] index [OF inv] by blast
  ultimately show ?thesis using index [OF inv] by (intro conjI)
qed

theorem one_avatar_per_did_witness:
  "let d = ''did:nostr:'' @ replicate 64 (CHR ''a''); m = \<lparr>md_did = d, display_name = [], model_uri = None\<rparr>;
       r = fold room_step [Join d m] (new_room ''r'')
   in \<not> is_ok (fst (join d m r)) \<and> is_ok (fst (join d m (snd (leave (avatar_from_did d) r))))"
proof -
  let ?d = "''did:nostr:'' @ replicate 64 (CHR ''a'')"
  let ?m = "\<lparr>md_did = ?d, display_name = [], model_uri = None\<rparr>"
  have d: "valid_did ?d"
    unfolding valid_did_iff by (simp add: is_hex_def list_all_iff is_ascii_hexdigit_def)
  have "members (fold room_step [Join ?d ?m] (new_room ''r'')) (avatar_from_did ?d) \<noteq> None"
    by (simp add: join_def new_room_def Let_def)
  then show ?thesis
    using one_avatar_per_did [OF _ refl d, of "[Join ?d ?m]" "''r''" ?m] d by (simp add: Let_def)
qed

text \<open>
  \<open>join\<close> does not check that the metadata names the joining DID, and \<open>leave\<close> frees the
  DID the metadata names. A DID that joins with other metadata and leaves again is locked out:
  the room is empty, and yet joining is refused as a duplicate.
\<close>
theorem mismatched_metadata_locks_a_did_out:
  assumes "md_did m \<noteq> d"
  shows "member_count (snd (leave (avatar_from_did d) (snd (join d m (new_room i))))) = 0
    \<and> fst (join d m' (snd (leave (avatar_from_did d) (snd (join d m (new_room i))))))
        = Err (DuplicateDid d (avatar_from_did d))"
  using assms by (simp add: join_def leave_def new_room_def member_count_def Let_def)

theorem mismatched_metadata_locks_a_did_out_witness:
  "let m = \<lparr>md_did = ''e'', display_name = [], model_uri = None\<rparr>;
       r = snd (leave (avatar_from_did ''d'') (snd (join ''d'' m (new_room ''r''))))
   in member_count r = 0 \<and> \<not> is_ok (fst (join ''d'' m r))"
  using mismatched_metadata_locks_a_did_out [of "\<lparr>md_did = ''e'', display_name = [], model_uri = None\<rparr>"
      "''d''" "''r''" "\<lparr>md_did = ''e'', display_name = [], model_uri = None\<rparr>"]
  by (simp add: Let_def is_ok_def)

end
