(* ===== verification/Pose_Validation.thy ===== *)
theory Pose_Validation
  imports Presence Float_Ops
begin

unbundle bit_operations_syntax

text \<open>
  The gates a pose passes on its way from one headset to the others:
  \<open>crates/visionclaw-xr-presence/src/validate.rs\<close> on the server, and on the receiving headset
  \<open>decode_sibling_frame\<close> and \<open>sanitize_transform\<close> of \<open>xr-client/rust/src/presence.rs\<close>. The
  arithmetic is that of theories \<open>Float32\<close> and \<open>Float_Ops\<close>, so a gate accepts exactly the bit
  patterns the code accepts; an error message is kept without the values it prints. The lemmas relate the two sides: what the server accepts, the
  headset shows unchanged.
\<close>

section \<open>The validators of the server\<close>

definition QUAT_UNIT_LO :: f32 where "QUAT_UNIT_LO = 0x3F7D70A4"
definition QUAT_UNIT_HI :: f32 where "QUAT_UNIT_HI = 0x3F8147AE"

fun vec3_sub :: "vec3 \<Rightarrow> vec3 \<Rightarrow> vec3" where
  "vec3_sub (a, b, c) (x, y, z) = (f32_sub a x, f32_sub b y, f32_sub c z)"

fun vec3_norm2 :: "vec3 \<Rightarrow> f32" where
  "vec3_norm2 (x, y, z) = f32_add (f32_add (f32_mul x x) (f32_mul y y)) (f32_mul z z)"

fun quat_norm2 :: "quat \<Rightarrow> f32" where
  "quat_norm2 (x, y, z, w) =
     f32_add (f32_add (f32_add (f32_mul x x) (f32_mul y y)) (f32_mul z z)) (f32_mul w w)"

definition quaternion_magnitude :: "pose_transform \<Rightarrow> f32" where
  "quaternion_magnitude t = f32_sqrt (quat_norm2 (tf_rotation t))"

definition unit_quaternion :: "f32 \<Rightarrow> validation_error + unit" where
  "unit_quaternion mag =
     (if \<not> (f32_le QUAT_UNIT_LO mag \<and> f32_le mag QUAT_UNIT_HI)
      then Err (NonUnitQuaternion mag QUAT_UNIT_LO QUAT_UNIT_HI) else Ok ())"

definition world_bounds :: "aabb \<Rightarrow> pose_transform \<Rightarrow> validation_error + unit" where
  "world_bounds bounds t =
     (if \<not> aabb_contains bounds (tf_position t)
      then (case tf_position t of (x, y, z) \<Rightarrow> Err (OutOfBounds x y z))
      else unit_quaternion (quaternion_magnitude t))"

definition hand_reach :: "pose_transform \<Rightarrow> pose_transform \<Rightarrow> f32 \<Rightarrow> validation_error + unit" where
  "hand_reach face hand limit =
     (let dist = f32_sqrt (vec3_norm2 (vec3_sub (tf_position hand) (tf_position face)))
      in if f32_lt limit dist then Err (HandReachExceeded dist limit) else Ok ())"

record hand_pose =
  wrist :: pose_transform
  joints :: "quat list"

primrec joint_norms :: "quat list \<Rightarrow> validation_error + unit" where
  "joint_norms [] = Ok ()"
| "joint_norms (j # js) = and_then (unit_quaternion (f32_sqrt (quat_norm2 j))) (\<lambda>_. joint_norms js)"

definition hand_anatomy :: "hand_pose \<Rightarrow> validation_error + unit" where
  "hand_anatomy h = and_then (unit_quaternion (quaternion_magnitude (wrist h))) (\<lambda>_. joint_norms (joints h))"

definition joint_anatomy :: "hand_pose \<Rightarrow> hand_pose \<Rightarrow> validation_error + unit" where
  "joint_anatomy l r = and_then (hand_anatomy l) (\<lambda>_. hand_anatomy r)"

fun vec3_finite :: "vec3 \<Rightarrow> bool" where
  "vec3_finite (x, y, z) = (f32_is_finite x \<and> f32_is_finite y \<and> f32_is_finite z)"

text \<open>\<open>(dist / dt_s) as f32\<close>, with the distance in \<open>f64\<close> from a sum of squares in \<open>f32\<close>.\<close>

definition observed_mps :: "pose_transform \<Rightarrow> pose_transform \<Rightarrow> u64 \<Rightarrow> f32" where
  "observed_mps p n dt_us =
     (let d2 = vec3_norm2 (vec3_sub (tf_position n) (tf_position p))
      in if f32_is_nan d2 then F32_NAN
         else if f32_is_infinite d2 then F32_INFINITY
         else f32_of_f64 (f64_div (f64_sqrt (f64_of_f32 d2)) (f64_div (f64_of_u64 dt_us) (1000000, 0))))"

definition option_pair :: "'a option \<Rightarrow> 'a option \<Rightarrow> ('a \<times> 'a) list" where
  "option_pair x y = (case (x, y) of (Some a, Some b) \<Rightarrow> [(a, b)] | _ \<Rightarrow> [])"

primrec gate_pairs :: "f32 \<Rightarrow> u64 \<Rightarrow> (pose_transform \<times> pose_transform) list \<Rightarrow> validation_error + unit" where
  "gate_pairs max_mps dt_us [] = Ok ()"
| "gate_pairs max_mps dt_us (pn # rest) =
     (let v = observed_mps (fst pn) (snd pn) dt_us
      in if f32_lt max_mps v then Err (VelocityExceeded v max_mps) else gate_pairs max_mps dt_us rest)"

definition velocity_gate :: "pose_frame \<Rightarrow> pose_frame \<Rightarrow> f32 \<Rightarrow> validation_error + unit" where
  "velocity_gate prev next' max_mps =
     (let positions = map tf_position ([head prev, head next']
            @ List.map_filter id [left_hand prev, left_hand next', right_hand prev, right_hand next'])
      in if \<exists>p \<in> set positions. \<not> vec3_finite p then Err (VelocityExceeded F32_INFINITY max_mps)
         else if timestamp_us next' \<le> timestamp_us prev
              then Err (NonMonotonicTimestamp (timestamp_us prev) (timestamp_us next'))
         else gate_pairs max_mps (timestamp_us next' - timestamp_us prev)
                ((head prev, head next') # option_pair (left_hand prev) (left_hand next')
                 @ option_pair (right_hand prev) (right_hand next')))"

section \<open>The gate of the receiving headset\<close>

definition POSE_LIMIT_M :: f32 where "POSE_LIMIT_M = 0x461C4000"
definition POSE_CLAMP_M :: f32 where "POSE_CLAMP_M = 0x43C80000"
definition QUAT_UNIT_TOL :: f32 where "QUAT_UNIT_TOL = 0x3C23D70A"
definition QUAT_MIN_NORM :: f32 where "QUAT_MIN_NORM = 0x3A83126F"

fun vec3_any :: "(f32 \<Rightarrow> bool) \<Rightarrow> vec3 \<Rightarrow> bool" where
  "vec3_any P (x, y, z) = (P x \<or> P y \<or> P z)"

fun map_vec3 :: "(f32 \<Rightarrow> f32) \<Rightarrow> vec3 \<Rightarrow> vec3" where
  "map_vec3 f (x, y, z) = (f x, f y, f z)"

fun map_quat :: "(f32 \<Rightarrow> f32) \<Rightarrow> quat \<Rightarrow> quat" where
  "map_quat f (x, y, z, w) = (f x, f y, f z, f w)"

definition sanitize_transform :: "pose_transform \<Rightarrow> pose_transform option" where
  "sanitize_transform t =
     (if vec3_any (\<lambda>c. \<not> f32_is_finite c \<or> f32_lt POSE_LIMIT_M (f32_abs c)) (tf_position t) then None
      else let t1 = t\<lparr>tf_position := map_vec3 (f32_clamp (f32_minus POSE_CLAMP_M) POSE_CLAMP_M) (tf_position t)\<rparr>;
               norm_sq = quat_norm2 (tf_rotation t)
           in if \<not> f32_is_finite norm_sq \<or> f32_lt norm_sq (f32_mul QUAT_MIN_NORM QUAT_MIN_NORM) then None
              else let norm = f32_sqrt norm_sq
                   in if f32_lt QUAT_UNIT_TOL (f32_abs (f32_sub norm F32_ONE))
                      then Some (t1\<lparr>tf_rotation := map_quat (\<lambda>c. f32_div c norm) (tf_rotation t)\<rparr>)
                      else Some t1)"

record sibling_pose =
  sp_local_id :: u32
  sp_frame :: pose_frame

record sibling_batch =
  sb_broadcast_seq :: u64
  sb_room_id :: u32
  sb_poses :: "sibling_pose list"

datatype presence_error = Protocol string

definition SIBLING_HEADER :: nat where "SIBLING_HEADER = 1 + 8 + 4 + 2"

text \<open>The slots of one user after the mask: the two hands are sanitised, the head is still raw.\<close>

definition sibling_slots :: "u8 \<Rightarrow> bytes \<Rightarrow> pose_transform \<times> pose_transform option \<times> pose_transform option \<times> bytes" where
  "sibling_slots msk r0 =
     (let h = read_transform (take 28 r0);
          r1 = drop 28 r0;
          (l, r2) = (if msk AND 2 \<noteq> 0 then (sanitize_transform (read_transform (take 28 r1)), drop 28 r1) else (None, r1));
          (r, r3) = (if msk AND 4 \<noteq> 0 then (sanitize_transform (read_transform (take 28 r2)), drop 28 r2) else (None, r2))
      in (h, l, r, r3))"

primrec decode_siblings :: "nat \<Rightarrow> bytes \<Rightarrow> presence_error + sibling_pose list" where
  "decode_siblings 0 bs = Ok []"
| "decode_siblings (Suc n) bs =
     (if length bs < 4 + 8 + 1 then Err (Protocol ''sibling user header truncated'')
      else let lid = le_word (take 4 bs);
               ts = le_word (take 8 (drop 4 bs));
               msk = bs ! 12;
               count = (if msk AND 1 \<noteq> 0 then 1 else 0) + (if msk AND 2 \<noteq> 0 then 1 else 0)
                       + (if msk AND 4 \<noteq> 0 then 1 else 0 :: nat)
           in if msk AND 1 = 0 \<or> msk AND NOT 7 \<noteq> 0 then Err (Protocol ''bad sibling mask'')
              else if length (drop 13 bs) < count * TRANSFORM_WIRE_SIZE then Err (Protocol ''sibling transforms truncated'')
              else (case sibling_slots msk (drop 13 bs) of (h, l, r, rest) \<Rightarrow>
                     and_then (decode_siblings n rest) (\<lambda>poses.
                       Ok (case sanitize_transform h of
                             Some h' \<Rightarrow> \<lparr>sp_local_id = lid, sp_frame = \<lparr>timestamp_us = ts, head = h',
                                          left_hand = l, right_hand = r\<rparr>\<rparr> # poses
                           | None \<Rightarrow> poses))))"

definition decode_sibling_frame :: "bytes \<Rightarrow> presence_error + sibling_batch" where
  "decode_sibling_frame bs =
     (if length bs < SIBLING_HEADER then Err (Protocol ''sibling frame too short'')
      else if bs ! 0 \<noteq> OPCODE_AVATAR_POSE then Err (Protocol ''sibling opcode'')
      else and_then (decode_siblings (unat (le_word (take 2 (drop 13 bs)) :: u16)) (drop SIBLING_HEADER bs))
             (\<lambda>poses. Ok \<lparr>sb_broadcast_seq = le_word (take 8 (drop 1 bs)), sb_room_id = le_word (take 4 (drop 9 bs)),
                          sb_poses = poses\<rparr>))"

section \<open>What the server accepts, the headset shows\<close>

lemma f32_scaled_minus: "f32_scaled (f32_minus x) = - f32_scaled x"
  by (simp add: f32_scaled_def f32_mag_def)

lemma f32_abs_round:
  assumes "N \<le> f32_mag b" and "f32_nonneg b"
  shows "f32_abs (f32_round neg N 0) \<le> b"
proof -
  have "round_pattern N \<le> unat b" using round_pattern_mono [OF assms(1)] round_pattern_mag [OF assms(2)] by simp
  moreover have "unat b \<le> 0x7F800000" using assms(2) by (simp add: word_le_nat_alt)
  ultimately have p: "min (round_pattern N) 0x7F800000 \<le> unat b" "min (round_pattern N) 0x7F800000 \<le> 0x7F800000" by simp_all
  have bits: "f32_abs (word_of_nat k) = word_of_nat (k mod 2 ^ 31)" if "k < 2 ^ 32" for k
  proof -
    have "unat (take_bit 31 (word_of_nat k :: f32)) = k mod 2 ^ 31"
      using that by (simp only: unsigned_take_bit_eq unat_of_nat take_bit_nat_def) simp
    moreover have "unat (word_of_nat (k mod 2 ^ 31) :: f32) = k mod 2 ^ 31"
      by (simp add: unat_of_nat)
    ultimately have "unat (take_bit 31 (word_of_nat k :: f32)) = unat (word_of_nat (k mod 2 ^ 31) :: f32)"
      by (simp only:)
    then have "take_bit 31 (word_of_nat k :: f32) = word_of_nat (k mod 2 ^ 31)" by (rule unsigned_word_eqI)
    then show ?thesis by (simp add: f32_abs_def take_bit_eq_mask mask_eq_exp_minus_1)
  qed
  have "f32_abs (f32_round neg N 0) = word_of_nat (min (round_pattern N) 0x7F800000)"
  proof (cases neg)
    case True
    then have "f32_abs (f32_round neg N 0) = word_of_nat ((2 ^ 31 + min (round_pattern N) 0x7F800000) mod 2 ^ 31)"
      using p(2) by (simp only: f32_round_pattern if_True) (subst bits, simp_all)
    then show ?thesis using p(2) by simp
  next
    case False
    then have "f32_abs (f32_round neg N 0) = word_of_nat (min (round_pattern N) 0x7F800000 mod 2 ^ 31)"
      using p(2) by (simp only: f32_round_pattern if_False) (subst bits, simp_all)
    then show ?thesis using p(2) by simp
  qed
  also have "\<dots> \<le> word_of_nat (unat b)" by (rule word_of_nat_mono [OF p(1)]) (use unsigned_less [of b] in simp)
  finally show ?thesis by simp
qed

lemma unit_root_near_one:
  assumes "f32_le QUAT_UNIT_LO m" and "f32_le m QUAT_UNIT_HI"
  shows "\<not> f32_lt QUAT_UNIT_TOL (f32_abs (f32_sub m F32_ONE))"
proof -
  let ?s = "f32_scaled m + f32_scaled (f32_minus F32_ONE)"
  have c: "f32_scaled QUAT_UNIT_LO = 0xFD70A4 * 2 ^ 125" "f32_scaled QUAT_UNIT_HI = 0x8147AE * 2 ^ 126"
    "f32_scaled (f32_minus F32_ONE) = - (2 ^ 23 * 2 ^ 126)" "\<not> f32_is_nan (f32_minus F32_ONE)" "\<not> f32_is_infinite (f32_minus F32_ONE)"
    by (simp_all add: f32_scaled_def f32_mag_def f32_exp_def f32_man_def f32_neg_def f32_minus_def
        F32_ONE_def QUAT_UNIT_LO_def QUAT_UNIT_HI_def f32_is_nan_def f32_is_infinite_def)
  have m: "\<not> f32_is_nan m" "f32_scaled QUAT_UNIT_LO \<le> f32_scaled m" "f32_scaled m \<le> f32_scaled QUAT_UNIT_HI"
    using assms by (simp_all add: f32_le_def)
  have fin: "\<not> f32_is_infinite m"
    using f32_exp_255 [of m] m(2,3) unfolding c by (auto simp: f32_is_infinite_def)
  have B: "f32_nonneg 0x3C23D700" "f32_mag 0x3C23D700 = 0xA3D700 * 2 ^ 119"
    by (simp_all add: f32_mag_def f32_exp_def f32_man_def)
  have s: "nat \<bar>?s\<bar> \<le> f32_mag 0x3C23D700" using m(2,3) unfolding c B(2) by simp
  have sub: "f32_sub m F32_ONE = f32_add m (f32_minus F32_ONE)"
    by (simp add: f32_sub_def F32_ONE_def f32_is_nan_def f32_exp_def)
  have "f32_abs (f32_sub m F32_ONE) \<le> 0x3C23D700"
  proof (cases "?s = 0")
    case True
    then have "f32_sub m F32_ONE \<in> {0, 0x80000000}"
      using c m fin by (simp add: sub f32_add_def)
    then show ?thesis by (auto simp: f32_abs_def)
  next
    case False
    then have "f32_sub m F32_ONE = f32_round (?s < 0) (nat \<bar>?s\<bar>) 0"
      using c m fin by (simp add: sub f32_add_def Let_def)
    then show ?thesis using f32_abs_round [OF s B(1)] by simp
  qed
  then have le: "f32_abs (f32_sub m F32_ONE) \<le> QUAT_UNIT_TOL" unfolding QUAT_UNIT_TOL_def by (rule order_trans) simp
  moreover have "f32_nonneg QUAT_UNIT_TOL" by (simp add: QUAT_UNIT_TOL_def)
  ultimately show ?thesis
    using f32_nonneg_order(1) [of QUAT_UNIT_TOL "f32_abs (f32_sub m F32_ONE)"] by (auto dest: order_trans)
qed

lemma quat_min_square: "f32_mul QUAT_MIN_NORM QUAT_MIN_NORM = 0x358637BE"
  by (simp add: f32_mul_def QUAT_MIN_NORM_def f32_is_nan_def f32_is_infinite_def f32_is_zero_def f32_exp_def f32_man_def
      f32_neg_def f32_mag_def f32_round_def round_shift_def bit_length.simps Let_def)

lemma sqrt_of_small: "f32_sqrt 0x358637BE = QUAT_MIN_NORM"
proof -
  have "isqrt (0x8637BE * 2 ^ 255) = 713623886016934540594794020977703162556805" by (rule isqrt_eqI) simp_all
  then have "sticky_root (0x8637BE * 2 ^ 255) = 1427247772033869081189588041955406325113611" by (simp add: sticky_root_def Let_def)
  moreover have "f32_mag 0x358637BE * 2 ^ 149 = 0x8637BE * 2 ^ 255"
    by (simp add: f32_mag_def f32_exp_def f32_man_def)
  ultimately have "f32_sqrt 0x358637BE = f32_round False 1427247772033869081189588041955406325113611 1"
    by (simp add: f32_sqrt_def f32_is_nan_def f32_is_infinite_def f32_is_zero_def f32_exp_def f32_man_def f32_neg_def)
  also have "\<dots> = QUAT_MIN_NORM"
    by (simp add: f32_round_def round_shift_def bit_length.simps Let_def QUAT_MIN_NORM_def)
  finally show ?thesis .
qed

text \<open>A quaternion whose magnitude the server accepts is neither degenerate nor in need of repair.\<close>

lemma unit_root_healthy:
  assumes "f32_le QUAT_UNIT_LO (f32_sqrt n)" and "f32_le (f32_sqrt n) QUAT_UNIT_HI"
  shows "f32_is_finite n" "\<not> f32_lt n (f32_mul QUAT_MIN_NORM QUAT_MIN_NORM)"
proof -
  have lo: "f32_nonneg QUAT_UNIT_LO" "0 < f32_scaled QUAT_UNIT_LO"
    by (simp_all add: QUAT_UNIT_LO_def f32_scaled_def f32_mag_def f32_exp_def f32_man_def f32_neg_def)
  have s: "\<not> f32_is_nan (f32_sqrt n)" "0 < f32_scaled (f32_sqrt n)" "f32_scaled (f32_sqrt n) \<le> f32_scaled QUAT_UNIT_HI"
    using assms lo by (auto simp: f32_le_def)
  have hi: "f32_scaled QUAT_UNIT_HI < 2 ^ 277"
    by (simp add: QUAT_UNIT_HI_def f32_scaled_def f32_mag_def f32_exp_def f32_man_def f32_neg_def)
  have nz: "\<not> f32_is_nan n" "\<not> f32_is_zero n" "\<not> f32_neg n"
    using s(1,2) by (auto simp: f32_sqrt_def f32_is_nan_def F32_NAN_def f32_exp_def f32_man_def
        f32_is_zero_def f32_scaled_def f32_mag_def split: if_splits)
  have "\<not> f32_is_infinite n"
  proof
    assume inf: "f32_is_infinite n"
    then have "f32_sqrt n = n" using nz by (simp add: f32_sqrt_def)
    then show False using f32_exp_255 [of n] inf s hi by (simp add: f32_is_infinite_def)
  qed
  then show "f32_is_finite n" using nz(1) by (auto simp: f32_is_finite_def f32_is_nan_def f32_is_infinite_def)
  have n: "f32_nonneg n"
  proof -
    have "f32_scaled 0 = 0" by (simp add: f32_scaled_def f32_mag_def f32_exp_def f32_man_def)
    then have "f32_weight n" using nz(1,3) by (simp add: f32_weight_def f32_le_def f32_is_nan_def f32_exp_def f32_scaled_def)
    from f32_weight_cases [OF this] show ?thesis using nz(3) by (auto simp: f32_neg_def)
  qed
  show "\<not> f32_lt n (f32_mul QUAT_MIN_NORM QUAT_MIN_NORM)"
  proof
    assume "f32_lt n (f32_mul QUAT_MIN_NORM QUAT_MIN_NORM)"
    then have "n < 0x358637BE" using f32_nonneg_order(1) [OF n, of "0x358637BE"] by (simp add: quat_min_square)
    moreover have "n \<noteq> 0" using nz(2) by (auto simp: f32_is_zero_def f32_exp_def f32_man_def)
    ultimately have "f32_sqrt n \<le> QUAT_MIN_NORM"
      using f32_sqrt_mono [OF n, of "0x358637BE"] by (simp add: sqrt_of_small)
    then have "f32_sqrt n < QUAT_UNIT_LO" by (rule order_le_less_trans) (simp add: QUAT_MIN_NORM_def QUAT_UNIT_LO_def)
    then show False using f32_nonneg_order(2) [OF lo(1) f32_sqrt_nonneg [OF n]] assms(1) by simp
  qed
qed

text \<open>Inside bounds no wider than the clamp, a position is finite and the clamp leaves it alone.\<close>

lemma box_coordinate:
  assumes h: "f32_nonneg h" "h \<le> POSE_CLAMP_M" and x: "f32_le (f32_minus h) x" "f32_le x h"
  shows "f32_is_finite x" "\<not> f32_lt POSE_LIMIT_M (f32_abs x)" "f32_clamp (f32_minus POSE_CLAMP_M) POSE_CLAMP_M x = x"
proof -
  have C: "f32_nonneg POSE_CLAMP_M" "f32_scaled POSE_CLAMP_M \<le> f32_scaled POSE_LIMIT_M" "f32_scaled POSE_LIMIT_M < 2 ^ 277"
    "\<not> f32_is_nan POSE_CLAMP_M" "\<not> f32_is_nan (f32_minus POSE_CLAMP_M)"
    by (simp_all add: POSE_CLAMP_M_def POSE_LIMIT_M_def f32_scaled_def f32_mag_def f32_exp_def f32_man_def f32_neg_def
        f32_is_nan_def f32_minus_def)
  have hC: "f32_scaled h \<le> f32_scaled POSE_CLAMP_M" using f32_nonneg_order(2) [OF h(1) C(1)] h(2) by (simp add: f32_le_def)
  have b: "\<not> f32_is_nan x" "- f32_scaled h \<le> f32_scaled x" "f32_scaled x \<le> f32_scaled h"
    using x by (simp_all add: f32_le_def f32_scaled_minus)
  show "f32_is_finite x" by (rule f32_finiteI) (use b hC C in simp)
  show "\<not> f32_lt POSE_LIMIT_M (f32_abs x)" using b hC C by (auto simp: f32_lt_def f32_scaled_abs)
  show "f32_clamp (f32_minus POSE_CLAMP_M) POSE_CLAMP_M x = x"
    by (rule f32_clamp_id) (use b hC C in \<open>simp_all add: f32_le_def f32_scaled_minus\<close>)
qed

lemma accepted_transform_shown:
  assumes "f32_nonneg h" and "h \<le> POSE_CLAMP_M" and "world_bounds (symmetric_aabb h) t = Ok ()"
  shows "sanitize_transform t = Some t"
proof -
  obtain x y z where p: "tf_position t = (x, y, z)" by (cases "tf_position t")
  have box: "in_box (f32_minus h, f32_minus h, f32_minus h) (h, h, h) (x, y, z)"
    and unit: "f32_le QUAT_UNIT_LO (quaternion_magnitude t)" "f32_le (quaternion_magnitude t) QUAT_UNIT_HI"
    using assms(3) p by (auto simp: world_bounds_def aabb_contains_def symmetric_aabb_def unit_quaternion_def split: if_splits)
  note c = box_coordinate [OF assms(1,2)]
  have "\<not> vec3_any (\<lambda>c. \<not> f32_is_finite c \<or> f32_lt POSE_LIMIT_M (f32_abs c)) (tf_position t)"
    "map_vec3 (f32_clamp (f32_minus POSE_CLAMP_M) POSE_CLAMP_M) (tf_position t) = tf_position t"
    using box by (auto simp: p c)
  then show ?thesis
    using unit_root_healthy [of "quat_norm2 (tf_rotation t)"] unit_root_near_one [of "quaternion_magnitude t"] unit
    by (simp add: sanitize_transform_def quaternion_magnitude_def Let_def)
qed

text \<open>The frame with one user that the server sends for a pose.\<close>

definition frame_transforms :: "pose_frame \<Rightarrow> pose_transform list" where
  "frame_transforms f = head f # List.map_filter id [left_hand f, right_hand f]"

lemma map_filter_pair: "set (List.map_filter id [x, y]) = {t. x = Some t \<or> y = Some t}"
  by (cases x; cases y) (auto simp: map_filter_simps)

lemma sibling_slots_frame:
  assumes "\<forall>t \<in> set (frame_transforms f). sanitize_transform t = Some t"
  shows "sibling_slots (slot_mask f) (write_transform (head f) @ opt_bytes (left_hand f) @ opt_bytes (right_hand f) @ rest)
     = (head f, left_hand f, right_hand f, rest)"
proof -
  have tk: "take 28 (write_transform t @ r) = write_transform t" "drop 28 (write_transform t @ r) = r" for t r
    by simp_all
  have s: "\<And>t. left_hand f = Some t \<Longrightarrow> sanitize_transform t = Some t" "\<And>t. right_hand f = Some t \<Longrightarrow> sanitize_transform t = Some t"
    using assms unfolding frame_transforms_def list.set map_filter_pair by blast+
  show ?thesis
    by (cases "left_hand f"; cases "right_hand f")
      (use s in \<open>simp_all add: sibling_slots_def slot_mask_ok opt_bytes_def tk read_write_transform Let_def\<close>)
qed

lemma decode_sibling_header:
  assumes "length rh = 4" and "decode_siblings (unat n) body = Ok ps"
  shows "decode_sibling_frame (OPCODE_AVATAR_POSE # u64_le sq @ rh @ u16_le n @ body)
     = Ok \<lparr>sb_broadcast_seq = sq, sb_room_id = le_word rh, sb_poses = ps\<rparr>"
  using assms by (simp add: decode_sibling_frame_def SIBLING_HEADER_def)

lemma decode_one_sibling:
  assumes "\<forall>t \<in> set (frame_transforms f). sanitize_transform t = Some t" and "length rh = 4"
  shows "decode_sibling_frame (OPCODE_AVATAR_POSE # u64_le sq @ rh @ u16_le 1 @ u32_le lid @ u64_le (timestamp_us f)
       @ [slot_mask f] @ write_transform (head f) @ opt_bytes (left_hand f) @ opt_bytes (right_hand f) @ rest)
     = Ok \<lparr>sb_broadcast_seq = sq, sb_room_id = le_word rh, sb_poses = [\<lparr>sp_local_id = lid, sp_frame = f\<rparr>]\<rparr>"
proof -
  let ?slots = "write_transform (head f) @ opt_bytes (left_hand f) @ opt_bytes (right_hand f) @ rest"
  let ?user = "u32_le lid @ u64_le (timestamp_us f) @ [slot_mask f] @ ?slots"
  have h: "sanitize_transform (head f) = Some (head f)" using assms(1) by (simp add: frame_transforms_def)
  have user: "length ?user \<ge> 13" "take 4 ?user = u32_le lid" "take 8 (drop 4 ?user) = u64_le (timestamp_us f)"
    "?user ! 12 = slot_mask f" "drop 13 ?user = ?slots"
    by (simp_all add: nth_append)
  have "decode_siblings 1 ?user = Ok [\<lparr>sp_local_id = lid, sp_frame = f\<rparr>]"
    unfolding One_nat_def decode_siblings.simps Let_def user mask_count sibling_slots_frame [OF assms(1)] prod.case
    using slot_mask_ok [of f] h
    by (cases "left_hand f"; cases "right_hand f") (simp_all add: length_opt_bytes TRANSFORM_WIRE_SIZE_def)
  then show ?thesis using decode_sibling_header [OF assms(2), of 1 ?user] by simp
qed

lemma sqrt_one: "f32_sqrt F32_ONE = F32_ONE"
proof -
  have "isqrt (2 ^ 298) = 2 ^ 149" by (rule isqrt_eqI) simp_all
  then have "sticky_root (2 ^ 298) = 2 ^ 150" by (simp add: sticky_root_def Let_def)
  moreover have "f32_mag F32_ONE * 2 ^ 149 = 2 ^ 298" by (simp add: f32_mag_def f32_exp_def f32_man_def F32_ONE_def)
  ultimately have "f32_sqrt F32_ONE = f32_round False (2 ^ 150) 1"
    by (simp add: f32_sqrt_def f32_is_nan_def f32_is_infinite_def f32_is_zero_def f32_exp_def f32_man_def f32_neg_def F32_ONE_def)
  also have "\<dots> = F32_ONE" by (simp add: f32_round_def round_shift_def bit_length.simps Let_def F32_ONE_def)
  finally show ?thesis .
qed

lemma identity_magnitude: "quaternion_magnitude identity_transform = F32_ONE"
proof -
  have "quat_norm2 (0, 0, 0, F32_ONE) = F32_ONE"
    by (simp add: F32_ONE_def f32_mul_def f32_add_def f32_is_nan_def f32_is_infinite_def f32_is_zero_def f32_exp_def
        f32_man_def f32_neg_def f32_mag_def f32_scaled_def f32_round_def round_shift_def bit_length.simps Let_def)
  then show ?thesis by (simp add: quaternion_magnitude_def identity_transform_def sqrt_one)
qed

lemma identity_unit: "unit_quaternion (quaternion_magnitude identity_transform) = Ok ()"
  by (simp add: identity_magnitude unit_quaternion_def F32_ONE_def QUAT_UNIT_LO_def QUAT_UNIT_HI_def f32_le_def
      f32_is_nan_def f32_exp_def f32_man_def f32_neg_def f32_mag_def f32_scaled_def)

lemma identity_in_bounds: "world_bounds (symmetric_aabb 0x42480000) identity_transform = Ok ()"
  unfolding world_bounds_def identity_unit
  by (simp add: aabb_contains_def symmetric_aabb_def identity_transform_def f32_le_def f32_is_nan_def f32_exp_def
      f32_man_def f32_neg_def f32_mag_def f32_scaled_def f32_minus_def)

lemma identity_shown: "sanitize_transform identity_transform = Some identity_transform"
  by (rule accepted_transform_shown [OF _ _ identity_in_bounds]) (simp_all add: POSE_CLAMP_M_def)

section \<open>Finite rotations\<close>

fun quat_all :: "(f32 \<Rightarrow> bool) \<Rightarrow> quat \<Rightarrow> bool" where
  "quat_all P (x, y, z, w) = (P x \<and> P y \<and> P z \<and> P w)"

lemma quat_norm2_finite:
  "f32_is_finite (quat_norm2 q) \<Longrightarrow> quat_all (\<lambda>c. f32_is_finite c \<and> f32_mag c < 2 ^ 213) q"
  by (cases q) (auto dest!: f32_add_finite dest: f32_square_finite)

lemma f32_div_finite:
  assumes "f32_is_finite c" and "f32_mag c < 2 ^ 213" and "f32_nonneg n" and "QUAT_MIN_NORM \<le> n"
  shows "f32_is_finite (f32_div c n)"
proof (cases "f32_is_infinite n")
  case True
  then show ?thesis using assms(1)
    by (simp add: f32_div_def f32_is_finite_def f32_is_nan_def f32_is_infinite_def f32_zero_of_def f32_exp_def Let_def)
next
  case False
  have m: "2 ^ 139 \<le> f32_mag n"
  proof -
    have "f32_mag QUAT_MIN_NORM \<le> f32_mag n"
      using f32_mag_mono [of QUAT_MIN_NORM n] assms(3,4) by (simp add: QUAT_MIN_NORM_def)
    moreover have "2 ^ 139 \<le> f32_mag QUAT_MIN_NORM" by (simp add: QUAT_MIN_NORM_def f32_mag_def f32_exp_def f32_man_def)
    ultimately show ?thesis by (rule order_trans [rotated])
  qed
  have nz: "\<not> f32_is_zero n"
  proof
    assume "f32_is_zero n"
    then have "f32_mag n = 0" by (simp add: f32_is_zero_def f32_mag_def)
    then show False using m by simp
  qed
  have nan: "\<not> f32_is_nan n" "\<not> f32_is_nan c" "\<not> f32_is_infinite c"
    using f32_nonneg_facts(2) [OF assms(3)] assms(1) by (simp_all add: f32_is_finite_def f32_is_nan_def f32_is_infinite_def)
  have "f32_mag c * 2 ^ 150 div f32_mag n \<le> 2 ^ 363 div 2 ^ 139"
  proof -
    have "f32_mag c * 2 ^ 150 \<le> 2 ^ 213 * 2 ^ 150" using assms(2) by simp
    then have "f32_mag c * 2 ^ 150 div f32_mag n \<le> 2 ^ 363 div f32_mag n" by (intro div_le_mono) simp
    also have "\<dots> \<le> 2 ^ 363 div 2 ^ 139" using m by (intro div_le_mono2) simp_all
    finally show ?thesis .
  qed
  then have "sticky_div (f32_mag c * 2 ^ 150) (f32_mag n) < 2 ^ (276 + 2)" by (simp add: sticky_div_def)
  from f32_round_small [OF this] show ?thesis using nan nz False by (simp add: f32_div_def Let_def)
qed

lemma sqrt_above_minimum:
  assumes "f32_is_finite n" and "\<not> f32_lt n (f32_mul QUAT_MIN_NORM QUAT_MIN_NORM)"
  shows "f32_nonneg (f32_sqrt n)" and "QUAT_MIN_NORM \<le> f32_sqrt n"
proof -
  have nan: "\<not> f32_is_nan n" using assms(1) by (simp add: f32_is_finite_def f32_is_nan_def)
  have s: "f32_scaled 0x358637BE \<le> f32_scaled n"
  proof -
    have "\<not> f32_is_nan 0x358637BE" by (simp add: f32_is_nan_def f32_exp_def)
    then show ?thesis using assms(2) nan unfolding quat_min_square f32_lt_def by simp
  qed
  have pos: "0 < f32_scaled 0x358637BE" by (simp add: f32_scaled_def f32_mag_def f32_exp_def f32_man_def f32_neg_def)
  have n: "f32_nonneg n"
  proof -
    have "f32_scaled 0 = 0" by (simp add: f32_scaled_def f32_mag_def f32_exp_def f32_man_def)
    then have "f32_weight n" using nan s pos by (simp add: f32_weight_def f32_le_def f32_is_nan_def f32_exp_def)
    moreover have "\<not> f32_neg n" using s pos by (auto simp: f32_scaled_def)
    ultimately show ?thesis using f32_weight_cases [of n] by (auto simp: f32_neg_def)
  qed
  then show "f32_nonneg (f32_sqrt n)" by (rule f32_sqrt_nonneg)
  have "0x358637BE \<le> n" using f32_nonneg_order(2) [of "0x358637BE" n] n s nan
    by (simp add: f32_le_def f32_is_nan_def f32_exp_def)
  then show "QUAT_MIN_NORM \<le> f32_sqrt n" using f32_sqrt_mono [of "0x358637BE" n] n assms(1) by (cases "n = 0x7F800000") (simp_all add: sqrt_of_small f32_is_finite_def f32_exp_def)
qed

lemma sanitized_rotation:
  assumes "sanitize_transform t = Some t'"
  shows "quat_all f32_is_finite (tf_rotation t')"
proof -
  let ?n = "quat_norm2 (tf_rotation t)"
  have n: "f32_is_finite ?n" "\<not> f32_lt ?n (f32_mul QUAT_MIN_NORM QUAT_MIN_NORM)"
    and t': "tf_rotation t' \<in> {tf_rotation t, map_quat (\<lambda>c. f32_div c (f32_sqrt ?n)) (tf_rotation t)}"
    using assms by (auto simp: sanitize_transform_def Let_def split: if_splits)
  obtain x y z w where r: "tf_rotation t = (x, y, z, w)" by (cases "tf_rotation t")
  have "quat_all (\<lambda>c. f32_is_finite c \<and> f32_mag c < 2 ^ 213) (tf_rotation t)" by (rule quat_norm2_finite [OF n(1)])
  then have c: "\<forall>c \<in> {x, y, z, w}. f32_is_finite c \<and> f32_mag c < 2 ^ 213" by (simp only: r quat_all.simps ball_simps)
  then have "\<forall>c \<in> {x, y, z, w}. f32_is_finite (f32_div c (f32_sqrt ?n))"
    using f32_div_finite sqrt_above_minimum [OF n] by blast
  then show ?thesis using t' c unfolding r by (auto simp only: map_quat.simps quat_all.simps insert_iff empty_iff)
qed

section \<open>What any frame can put on the headset\<close>

text \<open>A position a headset may show: finite, and inside the clamp.\<close>

definition shown_position :: "vec3 \<Rightarrow> bool" where
  "shown_position p \<longleftrightarrow> in_box (map_vec3 (\<lambda>_. f32_minus POSE_CLAMP_M) p) (map_vec3 (\<lambda>_. POSE_CLAMP_M) p) p \<and> vec3_finite p"

lemma clamp_in_range:
  assumes "f32_is_finite x"
  shows "f32_le (f32_minus POSE_CLAMP_M) (f32_clamp (f32_minus POSE_CLAMP_M) POSE_CLAMP_M x)"
    "f32_le (f32_clamp (f32_minus POSE_CLAMP_M) POSE_CLAMP_M x) POSE_CLAMP_M"
    "f32_is_finite (f32_clamp (f32_minus POSE_CLAMP_M) POSE_CLAMP_M x)"
proof -
  have nan: "\<not> f32_is_nan x" using assms by (auto simp: f32_is_finite_def f32_is_nan_def)
  have c: "\<not> f32_is_nan POSE_CLAMP_M" "\<not> f32_is_nan (f32_minus POSE_CLAMP_M)" "0 \<le> f32_scaled POSE_CLAMP_M"
    "f32_is_finite POSE_CLAMP_M" "f32_is_finite (f32_minus POSE_CLAMP_M)"
    by (simp_all add: POSE_CLAMP_M_def f32_is_nan_def f32_exp_def f32_man_def f32_minus_def f32_scaled_def f32_mag_def
        f32_neg_def f32_is_finite_def)
  show "f32_le (f32_minus POSE_CLAMP_M) (f32_clamp (f32_minus POSE_CLAMP_M) POSE_CLAMP_M x)"
    "f32_le (f32_clamp (f32_minus POSE_CLAMP_M) POSE_CLAMP_M x) POSE_CLAMP_M"
    "f32_is_finite (f32_clamp (f32_minus POSE_CLAMP_M) POSE_CLAMP_M x)"
    using nan c assms by (auto simp: f32_clamp_def f32_lt_def f32_le_def f32_scaled_minus)
qed

definition shown_transform :: "pose_transform \<Rightarrow> bool" where
  "shown_transform t \<longleftrightarrow> shown_position (tf_position t) \<and> quat_all f32_is_finite (tf_rotation t)"

lemma sanitized_position: "sanitize_transform t = Some t' \<Longrightarrow> shown_position (tf_position t')"
  by (cases "tf_position t")
    (auto simp: sanitize_transform_def shown_position_def clamp_in_range Let_def split: if_splits)

lemma sanitized_shown: "sanitize_transform t = Some t' \<Longrightarrow> shown_transform t'"
  by (simp add: shown_transform_def sanitized_position sanitized_rotation)

lemma slots_shown:
  assumes "sibling_slots msk bs = (h, l, r, rest)"
  shows "l = Some t \<or> r = Some t \<Longrightarrow> shown_transform t"
  using assms sanitized_shown by (auto simp: sibling_slots_def Let_def split_beta split: if_splits)

lemma decode_siblings_shown:
  "decode_siblings n bs = Ok ps \<Longrightarrow> p \<in> set ps \<Longrightarrow> t \<in> set (frame_transforms (sp_frame p))
    \<Longrightarrow> shown_transform t"
proof (induction n arbitrary: bs ps)
  case (Suc n)
  obtain h l r rest where sl: "sibling_slots (bs ! 12) (drop 13 bs) = (h, l, r, rest)"
    by (cases "sibling_slots (bs ! 12) (drop 13 bs)")
  obtain qs where qs: "decode_siblings n rest = Ok qs"
    and ps: "ps = (case sanitize_transform h of
        Some h' \<Rightarrow> \<lparr>sp_local_id = le_word (take 4 bs), sp_frame = \<lparr>timestamp_us = le_word (take 8 (drop 4 bs)), head = h',
                    left_hand = l, right_hand = r\<rparr>\<rparr> # qs
      | None \<Rightarrow> qs)"
    using Suc.prems(1) sl by (auto simp: Let_def split: if_splits)
  show ?case
  proof (cases "p \<in> set qs")
    case True
    then show ?thesis using Suc.IH [OF qs] Suc.prems(3) by blast
  next
    case False
    then obtain h' where h: "sanitize_transform h = Some h'"
      and p: "sp_frame p = \<lparr>timestamp_us = le_word (take 8 (drop 4 bs)), head = h', left_hand = l, right_hand = r\<rparr>"
      using Suc.prems(2) ps by (auto split: option.splits)
    then have "t = h' \<or> l = Some t \<or> r = Some t"
      using Suc.prems(3) unfolding frame_transforms_def list.set map_filter_pair by auto
    then show ?thesis using sanitized_shown [OF h] slots_shown [OF sl] by blast
  qed
qed simp

section \<open>Properties\<close>

text \<open>
  C28. Whatever bytes arrive, every transform of every pose a headset decodes from them has a finite
  position inside the clamp of 400 metres and a rotation whose four components are finite: no frame
  can place or turn an avatar or a hand at NaN or infinity, or place it out of the world.
\<close>
theorem decoded_poses_are_in_range:
  assumes "decode_sibling_frame bs = Ok batch" and "p \<in> set (sb_poses batch)" and "t \<in> set (frame_transforms (sp_frame p))"
  shows "vec3_finite (tf_position t)
    \<and> aabb_contains (symmetric_aabb POSE_CLAMP_M) (tf_position t)
    \<and> quat_all f32_is_finite (tf_rotation t)"
proof -
  obtain ps where "decode_siblings (unat (le_word (take 2 (drop 13 bs)) :: u16)) (drop SIBLING_HEADER bs) = Ok ps" "sb_poses batch = ps"
    using assms(1) by (auto simp: decode_sibling_frame_def split: if_splits)
  then have t: "shown_position (tf_position t)" "quat_all f32_is_finite (tf_rotation t)"
    using decode_siblings_shown assms(2,3) unfolding shown_transform_def by blast+
  then show ?thesis by (cases "tf_position t") (simp add: shown_position_def aabb_contains_def symmetric_aabb_def)
qed

theorem decoded_poses_are_in_range_witness:
  "\<exists>bs batch. decode_sibling_frame bs = Ok batch \<and> sb_poses batch \<noteq> []
     \<and> (\<forall>p \<in> set (sb_poses batch). vec3_finite (tf_position (head (sp_frame p)))
          \<and> quat_all f32_is_finite (tf_rotation (head (sp_frame p))))"
proof (intro exI conjI [where P = "_ = _"] conjI [where P = "_ \<noteq> _"] ballI)
  let ?f = "\<lparr>timestamp_us = 7, head = identity_transform, left_hand = None, right_hand = Some identity_transform\<rparr>"
  let ?bs = "OPCODE_AVATAR_POSE # u64_le 1 @ u32_le 2 @ u16_le 1 @ u32_le 3 @ u64_le (timestamp_us ?f) @ [slot_mask ?f]
     @ write_transform (head ?f) @ opt_bytes (left_hand ?f) @ opt_bytes (right_hand ?f) @ []"
  let ?batch = "\<lparr>sb_broadcast_seq = 1, sb_room_id = le_word (u32_le 2), sb_poses = [\<lparr>sp_local_id = 3, sp_frame = ?f\<rparr>]\<rparr>"
  have "\<forall>t \<in> set (frame_transforms ?f). sanitize_transform t = Some t"
    unfolding frame_transforms_def list.set map_filter_pair by (simp add: identity_shown)
  then show dec: "decode_sibling_frame ?bs = Ok ?batch" by (rule decode_one_sibling) simp
  show "sb_poses ?batch \<noteq> []" by simp
  fix p assume "p \<in> set (sb_poses ?batch)"
  then show "vec3_finite (tf_position (head (sp_frame p))) \<and> quat_all f32_is_finite (tf_rotation (head (sp_frame p)))"
    using decoded_poses_are_in_range [OF dec, of p "head (sp_frame p)"] by (simp add: frame_transforms_def)
qed

end
