(* ===== verification/Agent_Presence.thy ===== *)
theory Agent_Presence
  imports Pose_Validation
begin

unbundle bit_operations_syntax

text \<open>
  \<open>crates/visionclaw-xr-presence/src/agent_presence.rs\<close>: the social state of an agent (its
  activity, its gaze and the target of its attention), the deltas between two states, the
  channel a delta rides, and the \<open>0x44\<close> frame with its quantised gaze. An \<open>i16\<close> is its 16-bit
  pattern. The decoder reads at a cursor into the body, as the code does, because its errors
  carry the position where the body ended.
\<close>

section \<open>Social state and deltas\<close>

datatype agent_activity = Idle | Working | AwaitingApproval | Speaking

fun as_u8 :: "agent_activity \<Rightarrow> u8" where
  "as_u8 Idle = 0"
| "as_u8 Working = 1"
| "as_u8 AwaitingApproval = 2"
| "as_u8 Speaking = 3"

definition from_u8 :: "u8 \<Rightarrow> wire_error + agent_activity" where
  "from_u8 b = (if b = 0 then Ok Idle else if b = 1 then Ok Working else if b = 2 then Ok AwaitingApproval
                else if b = 3 then Ok Speaking else Err (BadAgentState b))"

datatype attention_target = NoAttention | AttendUser | AttendNode u32

datatype presence_channel = HighRate | Reliable

record agent_presence =
  ap_state :: agent_activity
  ap_gaze :: vec3
  ap_attention :: attention_target

record agent_delta =
  ad_local_id :: u32
  ad_state :: "agent_activity option"
  ad_gaze :: "vec3 option"
  ad_attention :: "attention_target option"

section \<open>Quantised directions\<close>

definition QUANT_SCALE :: f32 where "QUANT_SCALE = 0x46FFFE00"
definition GAZE_MIN_LEN :: f32 where "GAZE_MIN_LEN = 0x358637BD"

type_synonym quantised = "u16 \<times> u16 \<times> u16"

definition normalise :: "vec3 \<Rightarrow> vec3" where
  "normalise v =
     (let len = f32_sqrt (vec3_norm2 v)
      in if f32_lt len GAZE_MIN_LEN \<or> \<not> f32_is_finite len then (0, 0, f32_minus F32_ONE)
         else map_vec3 (\<lambda>c. f32_div c len) v)"

definition quantise_component :: "f32 \<Rightarrow> u16" where
  "quantise_component v =
     (let p = f32_mul v QUANT_SCALE
      in if f32_is_nan p then 0 else word_of_int (max (- 32767) (min 32767 (round_half_away p))))"

definition quantise_dir :: "vec3 \<Rightarrow> quantised" where
  "quantise_dir d =
     (case normalise d of (x, y, z) \<Rightarrow> (quantise_component x, quantise_component y, quantise_component z))"

definition f32_of_i16 :: "u16 \<Rightarrow> f32" where
  "f32_of_i16 w = f32_round (sint w < 0) (nat \<bar>sint w\<bar> * 2 ^ 149) 0"

fun dequantise_dir :: "quantised \<Rightarrow> vec3" where
  "dequantise_dir (x, y, z) =
     normalise (f32_div (f32_of_i16 x) QUANT_SCALE, f32_div (f32_of_i16 y) QUANT_SCALE, f32_div (f32_of_i16 z) QUANT_SCALE)"

section \<open>Deltas\<close>

definition full_delta :: "u32 \<Rightarrow> agent_presence \<Rightarrow> agent_delta" where
  "full_delta i p = \<lparr>ad_local_id = i, ad_state = Some (ap_state p), ad_gaze = Some (ap_gaze p),
                     ad_attention = Some (ap_attention p)\<rparr>"

definition then_some :: "bool \<Rightarrow> 'a \<Rightarrow> 'a option" where
  "then_some b a = (if b then Some a else None)"

definition agent_between :: "u32 \<Rightarrow> agent_presence \<Rightarrow> agent_presence \<Rightarrow> agent_delta" where
  "agent_between i prev next' =
     \<lparr>ad_local_id = i,
      ad_state = then_some (ap_state prev \<noteq> ap_state next') (ap_state next'),
      ad_gaze = then_some (quantise_dir (ap_gaze prev) \<noteq> quantise_dir (ap_gaze next')) (ap_gaze next'),
      ad_attention = then_some (ap_attention prev \<noteq> ap_attention next') (ap_attention next')\<rparr>"

definition FIELD_STATE :: u8 where "FIELD_STATE = 1"
definition FIELD_GAZE :: u8 where "FIELD_GAZE = 2"
definition FIELD_ATTENTION :: u8 where "FIELD_ATTENTION = 4"
definition FIELD_ALL :: u8 where "FIELD_ALL = FIELD_STATE OR FIELD_GAZE OR FIELD_ATTENTION"

definition field_mask :: "agent_delta \<Rightarrow> u8" where
  "field_mask d = (if ad_state d \<noteq> None then FIELD_STATE else 0) OR (if ad_gaze d \<noteq> None then FIELD_GAZE else 0)
     OR (if ad_attention d \<noteq> None then FIELD_ATTENTION else 0)"

definition delta_is_empty :: "agent_delta \<Rightarrow> bool" where
  "delta_is_empty d = (field_mask d = 0)"

definition delta_channel :: "agent_delta \<Rightarrow> presence_channel" where
  "delta_channel d = (if ad_state d \<noteq> None \<or> ad_attention d \<noteq> None then Reliable else HighRate)"

definition unwrap_or :: "'a option \<Rightarrow> 'a \<Rightarrow> 'a" where
  "unwrap_or x a = (case x of Some b \<Rightarrow> b | None \<Rightarrow> a)"

definition agent_apply :: "agent_delta \<Rightarrow> agent_presence \<Rightarrow> agent_presence" where
  "agent_apply d base =
     \<lparr>ap_state = unwrap_or (ad_state d) (ap_state base), ap_gaze = unwrap_or (ad_gaze d) (ap_gaze base),
      ap_attention = unwrap_or (ad_attention d) (ap_attention base)\<rparr>"

section \<open>The frame\<close>

definition OPCODE_AGENT_PRESENCE :: u8 where "OPCODE_AGENT_PRESENCE = 0x44"

record agent_batch =
  ab_seq :: u64
  ab_deltas :: "agent_delta list"

fun attention_len :: "attention_target \<Rightarrow> nat" where
  "attention_len (AttendNode _) = 1 + 4"
| "attention_len _ = 1"

definition delta_len :: "agent_delta \<Rightarrow> nat" where
  "delta_len d = 4 + 1 + (if ad_state d \<noteq> None then 1 else 0) + (if ad_gaze d \<noteq> None then 6 else 0)
     + (case ad_attention d of None \<Rightarrow> 0 | Some a \<Rightarrow> attention_len a)"

fun quantised_le :: "quantised \<Rightarrow> bytes" where
  "quantised_le (x, y, z) = u16_le x @ u16_le y @ u16_le z"

fun attention_le :: "attention_target \<Rightarrow> bytes" where
  "attention_le NoAttention = [0]"
| "attention_le AttendUser = [1]"
| "attention_le (AttendNode i) = 2 # u32_le i"

definition delta_le :: "agent_delta \<Rightarrow> bytes" where
  "delta_le d = u32_le (ad_local_id d) @ [field_mask d]
     @ (case ad_state d of None \<Rightarrow> [] | Some s \<Rightarrow> [as_u8 s])
     @ (case ad_gaze d of None \<Rightarrow> [] | Some g \<Rightarrow> quantised_le (quantise_dir g))
     @ (case ad_attention d of None \<Rightarrow> [] | Some a \<Rightarrow> attention_le a)"

definition encode_agent_presence :: "u64 \<Rightarrow> agent_delta list \<Rightarrow> wire_error + bytes" where
  "encode_agent_presence sq ds =
     (let body_len = 8 + 2 + sum_list (map delta_len ds)
      in if body_len > 65535 then Err (FrameTooLarge body_len 65535)
         else Ok (OPCODE_AGENT_PRESENCE # u16_le (word_of_nat body_len) @ u64_le sq
                  @ u16_le (word_of_nat (length ds)) @ concat (map delta_le ds)))"

definition read_array :: "nat \<Rightarrow> bytes \<Rightarrow> nat \<Rightarrow> wire_error + bytes" where
  "read_array n body at =
     (if at + n > length body then Err (LengthMismatch (at + n) (length body)) else Ok (take n (drop at body)))"

definition read_byte :: "nat \<Rightarrow> bytes \<Rightarrow> nat \<Rightarrow> wire_error + u8" where
  "read_byte declared body at =
     (if at < length body then Ok (body ! at) else Err (LengthMismatch declared (length body)))"

definition read_state :: "nat \<Rightarrow> bytes \<Rightarrow> u8 \<Rightarrow> nat \<Rightarrow> wire_error + agent_activity option \<times> nat" where
  "read_state declared body msk at =
     (if msk AND FIELD_STATE \<noteq> 0
      then and_then (read_byte declared body at) (\<lambda>b. and_then (from_u8 b) (\<lambda>s. Ok (Some s, at + 1)))
      else Ok (None, at))"

definition read_gaze :: "bytes \<Rightarrow> u8 \<Rightarrow> nat \<Rightarrow> wire_error + vec3 option \<times> nat" where
  "read_gaze body msk at =
     (if msk AND FIELD_GAZE \<noteq> 0
      then and_then (read_array 2 body at) (\<lambda>gx.
           and_then (read_array 2 body (at + 2)) (\<lambda>gy.
           and_then (read_array 2 body (at + 4)) (\<lambda>gz.
             Ok (Some (dequantise_dir (le_word gx, le_word gy, le_word gz)), at + 6))))
      else Ok (None, at))"

definition read_attention :: "nat \<Rightarrow> bytes \<Rightarrow> u8 \<Rightarrow> nat \<Rightarrow> wire_error + attention_target option \<times> nat" where
  "read_attention declared body msk at =
     (if msk AND FIELD_ATTENTION \<noteq> 0
      then and_then (read_byte declared body at) (\<lambda>tag.
             if tag = 0 then Ok (Some NoAttention, at + 1)
             else if tag = 1 then Ok (Some AttendUser, at + 1)
             else if tag = 2 then and_then (read_array 4 body (at + 1)) (\<lambda>i. Ok (Some (AttendNode (le_word i)), at + 5))
             else Err (BadAttentionTag tag))
      else Ok (None, at))"

definition decode_delta :: "nat \<Rightarrow> bytes \<Rightarrow> nat \<Rightarrow> wire_error + agent_delta \<times> nat" where
  "decode_delta declared body at =
     and_then (read_array 4 body at) (\<lambda>i.
     and_then (read_byte declared body (at + 4)) (\<lambda>msk.
       if msk AND NOT FIELD_ALL \<noteq> 0 then Err (BadTransformCount msk)
       else and_then (read_state declared body msk (at + 5)) (\<lambda>(s, at1).
            and_then (read_gaze body msk at1) (\<lambda>(g, at2).
            and_then (read_attention declared body msk at2) (\<lambda>(a, at3).
              Ok (\<lparr>ad_local_id = le_word i, ad_state = s, ad_gaze = g, ad_attention = a\<rparr>, at3))))))"

primrec decode_deltas :: "nat \<Rightarrow> nat \<Rightarrow> bytes \<Rightarrow> nat \<Rightarrow> wire_error + agent_delta list" where
  "decode_deltas 0 declared body at = Ok []"
| "decode_deltas (Suc n) declared body at =
     and_then (decode_delta declared body at) (\<lambda>(d, at').
     and_then (decode_deltas n declared body at') (\<lambda>ds. Ok (d # ds)))"

definition decode_agent_presence :: "bytes \<Rightarrow> wire_error + agent_batch" where
  "decode_agent_presence bs =
     (if length bs < 3 then Err (TooShort 3 (length bs))
      else if bs ! 0 \<noteq> OPCODE_AGENT_PRESENCE then Err (BadOpcode (bs ! 0) OPCODE_AGENT_PRESENCE)
      else let body_len = unat (le_word (take 2 (drop 1 bs)) :: u16)
      in if length bs < 3 + body_len then Err (LengthMismatch body_len (length bs - 3))
      else let body = take body_len (drop 3 bs)
      in if length body < 8 + 2 then Err (TooShort (8 + 2) (length body))
      else and_then (read_array 8 body 0) (\<lambda>sq.
           and_then (read_array 2 body 8) (\<lambda>n.
           and_then (decode_deltas (unat (le_word n :: u16)) body_len body 10) (\<lambda>ds.
             Ok \<lparr>ab_seq = le_word sq, ab_deltas = ds\<rparr>))))"

section \<open>Reading back what was written\<close>

lemma read_array_at:
  assumes "drop at body = xs @ rest" and "length xs = n" and "0 < n"
  shows "read_array n body at = Ok xs"
proof -
  have "length body - at = n + length rest" using assms(1,2) by (metis length_append length_drop)
  then show ?thesis using assms by (simp add: read_array_def)
qed

lemma read_byte_at:
  assumes "drop at body = b # rest"
  shows "read_byte declared body at = Ok b"
proof -
  have "length body - at = Suc (length rest)" using assms by (metis length_Cons length_drop)
  then show ?thesis using nth_via_drop [OF assms] by (simp add: read_byte_def)
qed

lemma drop_past: "drop at body = xs @ rest \<Longrightarrow> length xs = n \<Longrightarrow> drop (at + n) body = rest"
  by (metis append_eq_conv_conj drop_drop add.commute)

lemma from_as_u8 [simp]: "from_u8 (as_u8 s) = Ok s"
  by (cases s) (simp_all add: from_u8_def)

lemma field_mask_bits:
  "field_mask d AND NOT FIELD_ALL = 0"
  "field_mask d AND FIELD_STATE \<noteq> 0 \<longleftrightarrow> ad_state d \<noteq> None"
  "field_mask d AND FIELD_GAZE \<noteq> 0 \<longleftrightarrow> ad_gaze d \<noteq> None"
  "field_mask d AND FIELD_ATTENTION \<noteq> 0 \<longleftrightarrow> ad_attention d \<noteq> None"
  "field_mask d = 0 \<longleftrightarrow> ad_state d = None \<and> ad_gaze d = None \<and> ad_attention d = None"
  by (cases "ad_state d"; cases "ad_gaze d"; cases "ad_attention d"; simp add: field_mask_def FIELD_ALL_def FIELD_STATE_def FIELD_GAZE_def FIELD_ATTENTION_def)+

text \<open>What a receiver decodes: the gaze goes through the quantiser, the rest is exact.\<close>

definition wire_gaze :: "vec3 \<Rightarrow> vec3" where
  "wire_gaze g = dequantise_dir (quantise_dir g)"

definition wire_delta :: "agent_delta \<Rightarrow> agent_delta" where
  "wire_delta d = d\<lparr>ad_gaze := map_option wire_gaze (ad_gaze d)\<rparr>"

definition wire_presence :: "agent_presence \<Rightarrow> agent_presence" where
  "wire_presence p = p\<lparr>ap_gaze := wire_gaze (ap_gaze p)\<rparr>"

lemma length_quantised_le [simp]: "length (quantised_le q) = 6"
  by (cases q) simp

lemma length_attention_le [simp]: "length (attention_le a) = attention_len a"
  by (cases a) simp_all

lemma length_delta_le: "length (delta_le d) = delta_len d"
  by (simp add: delta_le_def delta_len_def split: option.split)

lemma read_state_at:
  assumes "drop at body = (case ad_state d of None \<Rightarrow> [] | Some s \<Rightarrow> [as_u8 s]) @ rest"
  shows "\<exists>at'. read_state declared body (field_mask d) at = Ok (ad_state d, at') \<and> drop at' body = rest"
proof (cases "ad_state d")
  case (Some s)
  then show ?thesis
    using assms read_byte_at [of at body "as_u8 s" rest declared] drop_past [of at body "[as_u8 s]" rest]
    by (simp add: read_state_def field_mask_bits)
qed (use assms in \<open>simp add: read_state_def field_mask_bits\<close>)

lemma read_gaze_at:
  assumes "drop at body = (case ad_gaze d of None \<Rightarrow> [] | Some g \<Rightarrow> quantised_le (quantise_dir g)) @ rest"
  shows "\<exists>at'. read_gaze body (field_mask d) at = Ok (map_option wire_gaze (ad_gaze d), at') \<and> drop at' body = rest"
proof (cases "ad_gaze d")
  case (Some g)
  obtain x y z where q: "quantise_dir g = (x, y, z)" by (cases "quantise_dir g")
  have 0: "drop at body = u16_le x @ u16_le y @ u16_le z @ rest" using assms Some q by simp
  have 1: "drop (at + 2) body = u16_le y @ u16_le z @ rest" by (rule drop_past [OF 0]) simp
  have 2: "drop (at + 4) body = u16_le z @ rest"
    by (rule drop_past [where xs = "u16_le x @ u16_le y"]) (use 0 in simp_all)
  have 3: "drop (at + 6) body = rest"
    by (rule drop_past [where xs = "u16_le x @ u16_le y @ u16_le z"]) (use 0 in simp_all)
  show ?thesis
    using read_array_at [OF 0, of 2] read_array_at [OF 1, of 2] read_array_at [OF 2, of 2] 3 Some q
    by (simp add: read_gaze_def field_mask_bits wire_gaze_def add.assoc)
qed (use assms in \<open>simp add: read_gaze_def field_mask_bits\<close>)

lemma read_attention_at:
  assumes "drop at body = (case ad_attention d of None \<Rightarrow> [] | Some a \<Rightarrow> attention_le a) @ rest"
  shows "\<exists>at'. read_attention declared body (field_mask d) at = Ok (ad_attention d, at') \<and> drop at' body = rest"
proof (cases "ad_attention d")
  case (Some a)
  show ?thesis
  proof (cases a)
    case (AttendNode i)
    have 0: "drop at body = [2] @ u32_le i @ rest" using assms Some AttendNode by simp
    have 1: "drop (at + 1) body = u32_le i @ rest" by (rule drop_past [OF 0]) simp
    have 2: "drop (at + 5) body = rest"
      by (rule drop_past [where xs = "[2] @ u32_le i"]) (use 0 in simp_all)
    show ?thesis
      using read_byte_at [of at body 2] 0 read_array_at [OF 1, of 4] 2 Some AttendNode
      by (simp add: read_attention_def field_mask_bits add.assoc)
  next
    case NoAttention
    then have "drop at body = 0 # rest" using assms Some by simp
    then show ?thesis
      using read_byte_at [of at body 0] drop_past [of at body "[0]" rest] Some NoAttention
      by (simp add: read_attention_def field_mask_bits)
  next
    case AttendUser
    then have "drop at body = 1 # rest" using assms Some by simp
    then show ?thesis
      using read_byte_at [of at body 1] drop_past [of at body "[1]" rest] Some AttendUser
      by (simp add: read_attention_def field_mask_bits)
  qed
qed (use assms in \<open>simp add: read_attention_def field_mask_bits\<close>)

lemma decode_delta_at:
  assumes "drop at body = delta_le d @ rest"
  shows "\<exists>at'. decode_delta declared body at = Ok (wire_delta d, at') \<and> drop at' body = rest"
proof -
  let ?s = "case ad_state d of None \<Rightarrow> [] | Some s \<Rightarrow> [as_u8 s]"
  let ?g = "case ad_gaze d of None \<Rightarrow> [] | Some g \<Rightarrow> quantised_le (quantise_dir g)"
  let ?a = "case ad_attention d of None \<Rightarrow> [] | Some a \<Rightarrow> attention_le a"
  have 0: "drop at body = u32_le (ad_local_id d) @ [field_mask d] @ ?s @ ?g @ ?a @ rest"
    using assms by (simp add: delta_le_def)
  have 1: "drop (at + 4) body = [field_mask d] @ ?s @ ?g @ ?a @ rest" by (rule drop_past [OF 0]) simp
  have 2: "drop (at + 5) body = ?s @ ?g @ ?a @ rest"
    by (rule drop_past [where xs = "u32_le (ad_local_id d) @ [field_mask d]"]) (use 0 in simp_all)
  obtain at1 where s: "read_state declared body (field_mask d) (at + 5) = Ok (ad_state d, at1)" "drop at1 body = ?g @ ?a @ rest"
    using read_state_at [OF 2] by blast
  obtain at2 where g: "read_gaze body (field_mask d) at1 = Ok (map_option wire_gaze (ad_gaze d), at2)" "drop at2 body = ?a @ rest"
    using read_gaze_at [OF s(2)] by blast
  obtain at3 where a: "read_attention declared body (field_mask d) at2 = Ok (ad_attention d, at3)" "drop at3 body = rest"
    using read_attention_at [OF g(2)] by blast
  have "read_array 4 body at = Ok (u32_le (ad_local_id d))" by (rule read_array_at [OF 0]) simp_all
  moreover have "read_byte declared body (at + 4) = Ok (field_mask d)" using 1 by (intro read_byte_at) simp
  ultimately show ?thesis
    using s(1) g(1) a by (simp add: decode_delta_def field_mask_bits wire_delta_def)
qed

lemma decode_deltas_at:
  "drop at body = concat (map delta_le ds) @ rest \<Longrightarrow> decode_deltas (length ds) declared body at = Ok (map wire_delta ds)"
proof (induction ds arbitrary: at)
  case (Cons d ds)
  then have "drop at body = delta_le d @ concat (map delta_le ds) @ rest" by simp
  from decode_delta_at [OF this] obtain at' where
    "decode_delta declared body at = Ok (wire_delta d, at')" "drop at' body = concat (map delta_le ds) @ rest" by blast
  then show ?case using Cons.IH by simp
qed simp

lemma length_deltas_le: "length (concat (map delta_le ds)) = sum_list (map delta_len ds)"
  by (induction ds) (simp_all add: length_delta_le)

lemma count_fits: "5 * length ds \<le> sum_list (map delta_len ds)"
  by (induction ds) (simp_all add: delta_len_def)

lemma encode_decode_agents:
  assumes "10 + sum_list (map delta_len ds) \<le> 65535"
  shows "\<exists>bs. encode_agent_presence sq ds = Ok bs \<and> length bs = 13 + sum_list (map delta_len ds)
     \<and> decode_agent_presence bs = Ok \<lparr>ab_seq = sq, ab_deltas = map wire_delta ds\<rparr>
     \<and> (\<forall>k < length bs. \<not> is_ok (decode_agent_presence (take k bs)))"
proof -
  let ?n = "10 + sum_list (map delta_len ds)"
  let ?body = "u64_le sq @ u16_le (word_of_nat (length ds)) @ concat (map delta_le ds)"
  let ?bs = "OPCODE_AGENT_PRESENCE # u16_le (word_of_nat ?n) @ ?body"
  have n: "unat (word_of_nat ?n :: u16) = ?n" using assms by (intro unat_u16_of_nat) simp
  have c: "unat (word_of_nat (length ds) :: u16) = length ds"
    using assms count_fits [of ds] by (intro unat_u16_of_nat) simp
  have len: "length ?body = ?n" by (simp add: length_deltas_le)
  have body: "take ?n (drop 3 ?bs) = ?body" using len by simp
  have "decode_deltas (length ds) ?n ?body 10 = Ok (map wire_delta ds)"
    by (rule decode_deltas_at [where rest = "[]"]) simp
  moreover have "read_array 8 ?body 0 = Ok (u64_le sq)" "read_array 2 ?body 8 = Ok (u16_le (word_of_nat (length ds)))"
    by (simp_all add: read_array_def)
  moreover have two: "take 2 (drop 1 ?bs) = u16_le (word_of_nat ?n)" by simp
  moreover have "3 + ?n = length ?bs" "10 \<le> length ?body" using len by simp_all
  ultimately have "decode_agent_presence ?bs = Ok \<lparr>ab_seq = sq, ab_deltas = map wire_delta ds\<rparr>"
    unfolding decode_agent_presence_def Let_def two u16_codec.dec_enc n body using c by simp
  moreover have "\<not> is_ok (decode_agent_presence (take k ?bs))" if k: "k < length ?bs" for k
  proof (cases "k < 3")
    case False
    then obtain j where j: "k = 3 + j" by (metis le_Suc_ex not_less)
    then have "k = Suc (2 + j)" by simp
    moreover have "take (Suc (2 + j)) (x # u16_le y @ zs) = x # u16_le y @ take j zs" for x :: u8 and y zs
      by (simp only: take_Suc_Cons take_append length_le_bytes) simp
    ultimately have "take k ?bs = OPCODE_AGENT_PRESENCE # u16_le (word_of_nat ?n) @ take j ?body" by (simp only:)
    moreover have "length (take j ?body) < ?n" using k j len by simp
    ultimately show ?thesis using n by (simp add: decode_agent_presence_def is_ok_def)
  qed (simp add: decode_agent_presence_def is_ok_def)
  moreover have "encode_agent_presence sq ds = Ok ?bs" using assms by (simp add: encode_agent_presence_def)
  moreover have "length ?bs = 13 + sum_list (map delta_len ds)" using len by simp
  ultimately show ?thesis by blast
qed

section \<open>A receiver of deltas\<close>

interpretation agent_deltas: delta_stream "agent_between i" "\<lambda>d. agent_apply (wire_delta d)"
  "\<lambda>r a. r = wire_presence a" "\<lambda>_ _. True"
  by unfold_locales
    (auto simp: agent_apply_def agent_between_def then_some_def unwrap_or_def wire_delta_def wire_presence_def wire_gaze_def)

lemma full_delta_sets: "agent_apply (wire_delta (full_delta i p)) r = wire_presence p"
  by (simp add: agent_apply_def full_delta_def unwrap_or_def wire_delta_def wire_presence_def)

lemma chain_of_True: "chain_of (\<lambda>_ _. True) a bs"
  by (induction bs arbitrary: a) simp_all

section \<open>Properties\<close>

text \<open>
  C29. The agent presence frame round trips: every batch is either refused as too large, exactly
  when its body exceeds 65535 bytes, or encoded so that the decoder returns the sequence, the
  same number of agents, each with the same fields present, exact activity and attention, and
  the gaze as the quantiser leaves it; and every proper prefix of the frame is refused.
\<close>
theorem agent_frame_roundtrip:
  "case encode_agent_presence sq ds of
     Inl e \<Rightarrow> 10 + sum_list (map delta_len ds) > 65535 \<and> e = FrameTooLarge (10 + sum_list (map delta_len ds)) 65535
   | Inr bs \<Rightarrow> 10 + sum_list (map delta_len ds) \<le> 65535
       \<and> decode_agent_presence bs = Ok \<lparr>ab_seq = sq, ab_deltas = map wire_delta ds\<rparr>
       \<and> (\<forall>k \<in> {..<length bs}. \<not> is_ok (decode_agent_presence (take k bs)))"
proof (cases "10 + sum_list (map delta_len ds) \<le> 65535")
  case True
  with encode_decode_agents [OF this, of sq] show ?thesis by auto
qed (simp add: encode_agent_presence_def Let_def)

lemma agent_frame_roundtrip_witness:
  "\<exists>bs. encode_agent_presence 5 [\<lparr>ad_local_id = 7, ad_state = Some Speaking, ad_gaze = None, ad_attention = Some (AttendNode 9)\<rparr>] = Inr bs
     \<and> decode_agent_presence bs = Ok \<lparr>ab_seq = 5, ab_deltas =
         [\<lparr>ad_local_id = 7, ad_state = Some Speaking, ad_gaze = None, ad_attention = Some (AttendNode 9)\<rparr>]\<rparr>
     \<and> \<not> is_ok (decode_agent_presence (take 3 bs))"
proof -
  let ?ds = "[\<lparr>ad_local_id = 7, ad_state = Some Speaking, ad_gaze = None, ad_attention = Some (AttendNode 9)\<rparr>]"
  obtain bs where bs: "encode_agent_presence 5 ?ds = Inr bs" "3 < length bs"
    by (simp add: encode_agent_presence_def Let_def delta_len_def)
  with agent_frame_roundtrip [of ?ds 5] have "decode_agent_presence bs = Ok \<lparr>ab_seq = 5, ab_deltas = map wire_delta ?ds\<rparr>"
    "\<not> is_ok (decode_agent_presence (take 3 bs))" by simp_all
  with bs show ?thesis by (simp add: wire_delta_def)
qed

end
