(* ===== verification/Presence_Actor.thy ===== *)
theory Presence_Actor
  imports Agent_Presence "HOL-Library.List_Lexorder" "HOL-Library.Char_ord"
begin

unbundle bit_operations_syntax

text \<open>
  \<open>src/actors/presence_actor.rs\<close>: one room of headsets. The actor owns a presence room, the
  mailboxes of its members, the local id each avatar's frames are tagged with, the last social
  state of each agent and the counters; it turns a pose that passes the validators into one
  broadcast frame, kicks a member that keeps sending bad frames, and announces joins and leaves.

  A recipient is a number. \<open>mailboxes\<close> says which recipients are connected and which accept
  another message at the time of a call (\<open>try_send\<close>); a handler returns the messages that enter a
  mailbox, in order. \<open>enum\<close> lists a set of keys in the iteration order of the hash map. An
  outcome carries the error where the code carries its text.
\<close>

section \<open>State\<close>

record subscriber =
  frame_recipient :: nat
  event_recipient :: nat
  queue_depth :: nat
  violations :: "instant list"

datatype room_event =
    AvatarJoined string string string u32
  | AvatarLeft string string
  | AgentPresenceExpired u32

datatype outgoing = FrameOut bytes u64 | EventOut room_event

type_synonym mail = "(nat \<times> outgoing) list"

record mailboxes =
  connected :: "nat \<Rightarrow> bool"
  accepts :: "nat \<Rightarrow> bool"

record agent_entry =
  ae_last :: agent_presence
  ae_last_seen :: instant

record room_stats =
  member_count_stat :: nat
  poses_ingested_total :: u64
  poses_rejected_total :: u64
  broadcast_bytes_total :: u64
  broadcast_frames_total :: u64

record presence_actor =
  pa_room_id :: string
  pa_room :: presence_room
  subscribers :: "string \<rightharpoonup> subscriber"
  pending_poses :: "string \<rightharpoonup> bytes"
  avatar_id_to_local :: "string \<rightharpoonup> u32"
  next_local_id :: u32
  broadcast_sequence :: u64
  bounds :: aabb
  max_velocity_mps :: f32
  hand_reach_m :: f32
  agent_entries :: "string \<rightharpoonup> agent_entry"
  agent_presence_sequence :: u64
  pa_stats :: room_stats
  running :: bool

type_synonym key_order = "string set \<Rightarrow> string list"

definition new_presence_actor :: "f32 \<Rightarrow> string \<Rightarrow> presence_actor" where
  "new_presence_actor reach i =
     \<lparr>pa_room_id = i, pa_room = new_room i, subscribers = Map.empty, pending_poses = Map.empty,
      avatar_id_to_local = Map.empty, next_local_id = 1, broadcast_sequence = 0,
      bounds = symmetric_aabb 0x42480000, max_velocity_mps = 0x41A00000, hand_reach_m = reach,
      agent_entries = Map.empty, agent_presence_sequence = 0,
      pa_stats = \<lparr>member_count_stat = 0, poses_ingested_total = 0, poses_rejected_total = 0,
                  broadcast_bytes_total = 0, broadcast_frames_total = 0\<rparr>,
      running = True\<rparr>"

definition with_bounds :: "aabb \<Rightarrow> f32 \<Rightarrow> presence_actor \<Rightarrow> presence_actor" where
  "with_bounds b v s = s\<lparr>bounds := b, max_velocity_mps := v\<rparr>"

definition try_send :: "mailboxes \<Rightarrow> nat \<Rightarrow> outgoing \<Rightarrow> mail" where
  "try_send env r msg = (if accepts env r then [(r, msg)] else [])"

definition do_send :: "mailboxes \<Rightarrow> nat \<Rightarrow> outgoing \<Rightarrow> mail" where
  "do_send env r msg = (if connected env r then [(r, msg)] else [])"

section \<open>Violations, validators and local ids\<close>

definition VIOLATION_WINDOW :: duration where "VIOLATION_WINDOW = seconds 1"
definition VIOLATION_KICK_THRESHOLD :: nat where "VIOLATION_KICK_THRESHOLD = 10"
definition BACKPRESSURE_LIMIT :: nat where "BACKPRESSURE_LIMIT = 3"

definition record_violation :: "instant \<Rightarrow> string \<Rightarrow> presence_actor \<Rightarrow> bool \<times> presence_actor" where
  "record_violation now a s =
     (case subscribers s a of
        None \<Rightarrow> (False, s)
      | Some sub \<Rightarrow>
          (let vs = dropWhile (\<lambda>t. nat (now - t) > VIOLATION_WINDOW) (violations sub @ [now])
           in (length vs \<ge> VIOLATION_KICK_THRESHOLD,
               s\<lparr>subscribers := (subscribers s)(a \<mapsto> sub\<lparr>violations := vs\<rparr>)\<rparr>)))"

definition check_hand :: "presence_actor \<Rightarrow> pose_transform \<Rightarrow> pose_transform option \<Rightarrow> validation_error + unit" where
  "check_hand s face hand =
     (case hand of
        None \<Rightarrow> Ok ()
      | Some t \<Rightarrow> and_then (world_bounds (bounds s) t) (\<lambda>_. hand_reach face t (hand_reach_m s)))"

definition run_validators :: "presence_actor \<Rightarrow> string \<Rightarrow> pose_frame \<Rightarrow> validation_error + unit" where
  "run_validators s a f =
     and_then (world_bounds (bounds s) (head f)) (\<lambda>_.
     and_then (check_hand s (head f) (left_hand f)) (\<lambda>_.
     and_then (check_hand s (head f) (right_hand f)) (\<lambda>_.
     and_then (case Option.bind (members (pa_room s) a) last_frame of
                 None \<Rightarrow> Ok ()
               | Some prev \<Rightarrow> and_then (monotonic_timestamp (timestamp_us prev) (timestamp_us f))
                               (\<lambda>_. velocity_gate prev f (max_velocity_mps s))) (\<lambda>_.
       joint_anatomy \<lparr>wrist = unwrap_or (left_hand f) identity_transform, joints = []\<rparr>
         \<lparr>wrist = unwrap_or (right_hand f) identity_transform, joints = []\<rparr>))))"

definition local_id_for :: "string \<Rightarrow> presence_actor \<Rightarrow> u32 \<times> presence_actor" where
  "local_id_for a s =
     (case avatar_id_to_local s a of
        Some i \<Rightarrow> (i, s)
      | None \<Rightarrow> (next_local_id s,
                 s\<lparr>next_local_id := next_local_id s + 1,
                   avatar_id_to_local := (avatar_id_to_local s)(a \<mapsto> next_local_id s)\<rparr>))"

section \<open>Leaving\<close>

definition cleanup_subscriber :: "key_order \<Rightarrow> mailboxes \<Rightarrow> string \<Rightarrow> presence_actor \<Rightarrow> presence_actor \<times> mail" where
  "cleanup_subscriber enum env a s =
     (let did = (case members (pa_room s) a of Some m \<Rightarrow> md_did (av_metadata m) | None \<Rightarrow> [])
      in if subscribers s a = None then (s, [])
         else let subs = (subscribers s)(a := None)
         in (s\<lparr>subscribers := subs, pa_room := snd (leave a (pa_room s)),
               avatar_id_to_local := (avatar_id_to_local s)(a := None),
               pending_poses := (pending_poses s)(a := None),
               pa_stats := (pa_stats s)\<lparr>member_count_stat := card (dom subs)\<rparr>\<rparr>,
             concat (map (\<lambda>b. try_send env (event_recipient (the (subs b))) (EventOut (AvatarLeft a did)))
                      (enum (dom subs)))))"

fun cleanup_all :: "key_order \<Rightarrow> mailboxes \<Rightarrow> string list \<Rightarrow> presence_actor \<Rightarrow> presence_actor \<times> mail" where
  "cleanup_all enum env [] s = (s, [])"
| "cleanup_all enum env (a # as) s =
     (let (s1, m1) = cleanup_subscriber enum env a s; (s2, m2) = cleanup_all enum env as s1 in (s2, m1 @ m2))"

definition shutdown_if_empty :: "presence_actor \<Rightarrow> presence_actor" where
  "shutdown_if_empty s = (if subscribers s = Map.empty then s\<lparr>running := False\<rparr> else s)"

definition handle_leave :: "key_order \<Rightarrow> mailboxes \<Rightarrow> string \<Rightarrow> presence_actor \<Rightarrow> presence_actor \<times> mail" where
  "handle_leave enum env a s = (let (s1, m) = cleanup_subscriber enum env a s in (shutdown_if_empty s1, m))"

definition evict_disconnected_subscribers :: "key_order \<Rightarrow> mailboxes \<Rightarrow> presence_actor \<Rightarrow> presence_actor \<times> mail" where
  "evict_disconnected_subscribers enum env s =
     cleanup_all enum env
       (filter (\<lambda>b. \<not> connected env (frame_recipient (the (subscribers s b)))) (enum (dom (subscribers s)))) s"

definition room_tick :: "key_order \<Rightarrow> mailboxes \<Rightarrow> presence_actor \<Rightarrow> presence_actor \<times> mail" where
  "room_tick enum env s = (let (s1, m) = evict_disconnected_subscribers enum env s in (shutdown_if_empty s1, m))"

section \<open>Broadcasting poses\<close>

primrec user_blocks :: "string list \<Rightarrow> (string \<rightharpoonup> bytes) \<Rightarrow> presence_actor \<Rightarrow> bytes \<times> presence_actor" where
  "user_blocks [] poses s = ([], s)"
| "user_blocks (a # as) poses s =
     (let (i, s1) = local_id_for a s; (rest, s2) = user_blocks as poses s1
      in (u32_le i @ the (poses a) @ rest, s2))"

definition build_broadcast_frame :: "key_order \<Rightarrow> presence_actor \<Rightarrow> bytes option \<times> presence_actor" where
  "build_broadcast_frame enum s =
     (if pending_poses s = Map.empty then (None, s)
      else let s1 = s\<lparr>broadcast_sequence := broadcast_sequence s + 1\<rparr>;
               (blocks, s2) = user_blocks (enum (dom (pending_poses s1))) (pending_poses s1)
                                (s1\<lparr>pending_poses := Map.empty\<rparr>)
           in (Some (OPCODE_AVATAR_POSE # u64_le (broadcast_sequence s1) @ take 4 (wire_hash (pa_room_id s1))
                     @ u16_le (word_of_nat (card (dom (pending_poses s1)))) @ blocks), s2))"

definition dispatch_one :: "mailboxes \<Rightarrow> string \<Rightarrow> outgoing \<Rightarrow> string
    \<Rightarrow> (string \<rightharpoonup> subscriber) \<times> string list \<times> mail \<Rightarrow> (string \<rightharpoonup> subscriber) \<times> string list \<times> mail" where
  "dispatch_one env sender envelope b acc =
     (case acc of (subs, to_drop, m) \<Rightarrow>
        (if b = sender then acc
         else let sub = the (subs b)
         in if \<not> connected env (frame_recipient sub) then (subs, to_drop @ [b], m)
            else let sub1 = (if queue_depth sub \<ge> BACKPRESSURE_LIMIT then sub\<lparr>queue_depth := queue_depth sub - 1\<rparr> else sub)
            in if accepts env (frame_recipient sub)
               then (subs(b \<mapsto> sub1\<lparr>queue_depth := queue_depth sub1 + 1\<rparr>), to_drop,
                     m @ [(frame_recipient sub, envelope)])
               else (subs(b \<mapsto> sub1), to_drop @ [b], m)))"

definition count_frame :: "bytes \<Rightarrow> presence_actor \<Rightarrow> presence_actor" where
  "count_frame bs s =
     s\<lparr>pa_stats := (pa_stats s)\<lparr>broadcast_frames_total := broadcast_frames_total (pa_stats s) + 1,
         broadcast_bytes_total := broadcast_bytes_total (pa_stats s) + word_of_nat (length bs)\<rparr>\<rparr>"

definition dispatch_broadcast :: "key_order \<Rightarrow> mailboxes \<Rightarrow> string \<Rightarrow> presence_actor \<Rightarrow> presence_actor \<times> mail" where
  "dispatch_broadcast enum env sender s =
     (case build_broadcast_frame enum s of
        (None, s1) \<Rightarrow> (s1, [])
      | (Some bs, s1) \<Rightarrow>
          (let s2 = count_frame bs s1;
               (subs, to_drop, m) = fold (dispatch_one env sender (FrameOut bs (broadcast_sequence s2)))
                                      (enum (dom (subscribers s2))) (subscribers s2, [], []);
               (s3, m') = cleanup_all enum env to_drop (s2\<lparr>subscribers := subs\<rparr>)
           in (s3, m @ m')))"

section \<open>Joining\<close>

datatype join_rejection = DuplicateMember | Internal room_error

record member_snapshot =
  ms_metadata :: avatar_metadata
  ms_local_id :: u32

record join_ack =
  ja_avatar_id :: string
  ja_members :: "member_snapshot list"

primrec member_snapshots :: "string list \<Rightarrow> presence_actor \<Rightarrow> member_snapshot list \<times> presence_actor" where
  "member_snapshots [] s = ([], s)"
| "member_snapshots (a # as) s =
     (let (i, s1) = local_id_for a s; (rest, s2) = member_snapshots as s1
      in (\<lparr>ms_metadata = av_metadata (the (members (pa_room s) a)), ms_local_id = i\<rparr> # rest, s2))"

definition handle_join :: "key_order \<Rightarrow> mailboxes \<Rightarrow> string \<Rightarrow> avatar_metadata \<Rightarrow> nat \<Rightarrow> nat \<Rightarrow> presence_actor
    \<Rightarrow> (join_rejection + join_ack) \<times> presence_actor \<times> mail" where
  "handle_join enum env did metadata fr er s =
     (case join did metadata (pa_room s) of
        (Inl e, r) \<Rightarrow> (Err (case e of DuplicateDid _ _ \<Rightarrow> DuplicateMember | _ \<Rightarrow> Internal e), s, [])
      | (Inr a, r) \<Rightarrow>
          (let subs = (subscribers s)(a \<mapsto> \<lparr>frame_recipient = fr, event_recipient = er, queue_depth = 0, violations = []\<rparr>);
               s1 = s\<lparr>pa_room := r, subscribers := subs,
                      pa_stats := (pa_stats s)\<lparr>member_count_stat := card (dom subs)\<rparr>\<rparr>;
               (i, s2) = local_id_for a s1;
               event = AvatarJoined a (md_did metadata) (display_name metadata) i;
               m = concat (map (\<lambda>b. if b \<noteq> a then try_send env (event_recipient (the (subs b))) (EventOut event) else [])
                            (enum (dom subs)));
               (snaps, s3) = member_snapshots (enum (dom (members (pa_room s2)))) s2
           in (Ok \<lparr>ja_avatar_id = a, ja_members = snaps\<rparr>, s3, m)))"

section \<open>Poses\<close>

datatype ingest_error =
    NotAMember
  | UndecodableFrame wire_error
  | AvatarMismatch
  | RoomHashMismatch
  | InvalidPose validation_error
  | RoomRefused room_error
  | TruncatedBody

datatype ingest_outcome = Accepted | ValidationFailed ingest_error | DecodeFailed ingest_error | Kick ingest_error

definition count_rejected :: "presence_actor \<Rightarrow> presence_actor" where
  "count_rejected s = s\<lparr>pa_stats := (pa_stats s)\<lparr>poses_rejected_total := poses_rejected_total (pa_stats s) + 1\<rparr>\<rparr>"

text \<open>A violation: the frame is refused, and the member is kicked when it has too many.\<close>

definition violate :: "key_order \<Rightarrow> mailboxes \<Rightarrow> instant \<Rightarrow> string \<Rightarrow> ingest_outcome \<Rightarrow> ingest_error \<Rightarrow> presence_actor
    \<Rightarrow> ingest_outcome \<times> presence_actor \<times> mail" where
  "violate enum env now a refused e s =
     (case record_violation now a (count_rejected s) of
        (True, s1) \<Rightarrow> (let (s2, m) = cleanup_subscriber enum env a s1 in (Kick e, shutdown_if_empty s2, m))
      | (False, s1) \<Rightarrow> (refused, s1, []))"

definition relay_pose :: "key_order \<Rightarrow> mailboxes \<Rightarrow> string \<Rightarrow> bytes \<Rightarrow> pose_frame \<Rightarrow> presence_actor
    \<Rightarrow> ingest_outcome \<times> presence_actor \<times> mail" where
  "relay_pose enum env a bs f s =
     (case update_pose a f (pa_room s) of
        (Inl e, r) \<Rightarrow> (ValidationFailed (RoomRefused e), s\<lparr>pa_room := r\<rparr>, [])
      | (Inr _, r) \<Rightarrow>
          (let s1 = s\<lparr>pa_room := r\<rparr>; body_start = 1 + 2 + 16 + 1 + length a
           in if body_start \<ge> length bs then (ValidationFailed TruncatedBody, s1, [])
              else let (s2, m) = dispatch_broadcast enum env a
                                   (s1\<lparr>pending_poses := (pending_poses s1)(a \<mapsto> drop body_start bs)\<rparr>)
                   in (Accepted, s2, m)))"

definition handle_ingest :: "key_order \<Rightarrow> mailboxes \<Rightarrow> instant \<Rightarrow> string \<Rightarrow> bytes \<Rightarrow> presence_actor
    \<Rightarrow> ingest_outcome \<times> presence_actor \<times> mail" where
  "handle_ingest enum env now a bs s0 =
     (if subscribers s0 a = None then (ValidationFailed NotAMember, s0, [])
      else let s = s0\<lparr>pa_stats := (pa_stats s0)\<lparr>poses_ingested_total := poses_ingested_total (pa_stats s0) + 1\<rparr>\<rparr>
      in case decode_pose bs of
           Inl e \<Rightarrow> violate enum env now a (DecodeFailed (UndecodableFrame e)) (UndecodableFrame e) s
         | Inr d \<Rightarrow>
             (if decoded_avatar_id d \<noteq> a then violate enum env now a (ValidationFailed AvatarMismatch) AvatarMismatch s
              else if room_hash d \<noteq> wire_hash (pa_room_id s) then (ValidationFailed RoomHashMismatch, count_rejected s, [])
              else case run_validators s a (decoded_pose d) of
                     Inl e \<Rightarrow> violate enum env now a (ValidationFailed (InvalidPose e)) (InvalidPose e) s
                   | Inr _ \<Rightarrow> relay_pose enum env a bs (decoded_pose d) s))"

section \<open>Agent presence\<close>

definition WIRE_NODE_ID_MASK :: u32 where "WIRE_NODE_ID_MASK = 0x03FFFFFF"
definition AGENT_PRESENCE_TTL :: duration where "AGENT_PRESENCE_TTL = seconds 10"

datatype agent_outcome = Broadcast u8 | Unchanged | PermissionDenied | InvalidNodeCorrelation u32

definition attention_node :: "string \<Rightarrow> presence_actor \<Rightarrow> u32 option" where
  "attention_node a s =
     (case agent_entries s a of
        None \<Rightarrow> None
      | Some e \<Rightarrow> (case ap_attention (ae_last e) of AttendNode i \<Rightarrow> Some i | _ \<Rightarrow> None))"

definition check_node_correlation :: "agent_presence \<Rightarrow> u32 + unit" where
  "check_node_correlation p =
     (case ap_attention p of AttendNode i \<Rightarrow> (if i > WIRE_NODE_ID_MASK then Err i else Ok ()) | _ \<Rightarrow> Ok ())"

definition broadcast_agent_presence :: "key_order \<Rightarrow> mailboxes \<Rightarrow> agent_delta list \<Rightarrow> string option \<Rightarrow> presence_actor
    \<Rightarrow> presence_actor \<times> mail" where
  "broadcast_agent_presence enum env ds exclude s =
     (if ds = [] then (s, [])
      else let s1 = s\<lparr>agent_presence_sequence := agent_presence_sequence s + 1\<rparr>
      in case encode_agent_presence (agent_presence_sequence s1) ds of
           Inl _ \<Rightarrow> (s1, [])
         | Inr bs \<Rightarrow>
             (count_frame bs s1,
              concat (map (\<lambda>b. if Some b = exclude then []
                               else do_send env (frame_recipient (the (subscribers s1 b)))
                                      (FrameOut bs (agent_presence_sequence s1)))
                       (enum (dom (subscribers s1))))))"

definition handle_agent_presence :: "key_order \<Rightarrow> mailboxes \<Rightarrow> instant \<Rightarrow> string \<Rightarrow> agent_presence \<Rightarrow> presence_actor
    \<Rightarrow> agent_outcome \<times> presence_actor \<times> mail" where
  "handle_agent_presence enum env now a p s =
     (if subscribers s a = None then (PermissionDenied, s, [])
      else case check_node_correlation p of
        Inl i \<Rightarrow> (InvalidNodeCorrelation i, s, [])
      | Inr _ \<Rightarrow>
          (let (i, s1) = local_id_for a s;
               delta = (case agent_entries s1 a of
                          None \<Rightarrow> full_delta i p
                        | Some e \<Rightarrow> agent_between i (ae_last e) p);
               s2 = s1\<lparr>agent_entries := (agent_entries s1)(a \<mapsto> \<lparr>ae_last = p, ae_last_seen = now\<rparr>)\<rparr>
           in if delta_is_empty delta then (Unchanged, s2, [])
              else let (s3, m) = broadcast_agent_presence enum env [delta] (Some a) s2
                   in (Broadcast (field_mask delta), s3, m)))"

fun retire_all :: "key_order \<Rightarrow> mailboxes \<Rightarrow> string list \<Rightarrow> presence_actor \<Rightarrow> u32 list \<times> presence_actor \<times> mail" where
  "retire_all enum env [] s = ([], s, [])"
| "retire_all enum env (a # as) s =
     (let (i, s1) = local_id_for a (s\<lparr>agent_entries := (agent_entries s)(a := None)\<rparr>);
          m = concat (map (\<lambda>b. do_send env (event_recipient (the (subscribers s1 b))) (EventOut (AgentPresenceExpired i)))
                       (enum (dom (subscribers s1))));
          (is, s2, m') = retire_all enum env as s1
      in (i # is, s2, m @ m'))"

definition sweep_stale_agent_presence :: "key_order \<Rightarrow> mailboxes \<Rightarrow> instant \<Rightarrow> duration \<Rightarrow> presence_actor
    \<Rightarrow> u32 list \<times> presence_actor \<times> mail" where
  "sweep_stale_agent_presence enum env now ttl s =
     retire_all enum env
       (filter (\<lambda>a. nat (now - ae_last_seen (the (agent_entries s a))) > ttl) (enum (dom (agent_entries s)))) s"

definition handle_sweep :: "key_order \<Rightarrow> mailboxes \<Rightarrow> instant \<Rightarrow> duration option \<Rightarrow> presence_actor
    \<Rightarrow> u32 list \<times> presence_actor \<times> mail" where
  "handle_sweep enum env now ttl s = sweep_stale_agent_presence enum env now (unwrap_or ttl AGENT_PRESENCE_TTL) s"

section \<open>Histories\<close>

datatype actor_op =
    JoinRoom string avatar_metadata nat nat
  | LeaveRoom string
  | IngestPose instant string bytes
  | IngestAgentPresence instant string agent_presence
  | SweepStale instant "duration option"
  | RoomTick

fun actor_step :: "key_order \<Rightarrow> mailboxes \<times> actor_op \<Rightarrow> presence_actor \<Rightarrow> presence_actor \<times> mail" where
  "actor_step enum (env, JoinRoom d m fr er) s = snd (handle_join enum env d m fr er s)"
| "actor_step enum (env, LeaveRoom a) s = handle_leave enum env a s"
| "actor_step enum (env, IngestPose now a bs) s = snd (handle_ingest enum env now a bs s)"
| "actor_step enum (env, IngestAgentPresence now a p) s = snd (handle_agent_presence enum env now a p s)"
| "actor_step enum (env, SweepStale now ttl) s = snd (handle_sweep enum env now ttl s)"
| "actor_step enum (env, RoomTick) s = room_tick enum env s"

definition actor_run :: "key_order \<Rightarrow> (mailboxes \<times> actor_op) list \<Rightarrow> presence_actor \<Rightarrow> presence_actor" where
  "actor_run enum xs s = fold (\<lambda>x s. fst (actor_step enum x s)) xs s"

text \<open>The session joins with the DID it verified and metadata for that DID.\<close>

fun honest_op :: "actor_op \<Rightarrow> bool" where
  "honest_op (JoinRoom d m fr er) = (valid_did d \<and> md_did m = d)"
| "honest_op _ = True"

definition lists_keys :: "key_order \<Rightarrow> bool" where
  "lists_keys enum \<longleftrightarrow> (\<forall>A. finite A \<longrightarrow> set (enum A) = A \<and> distinct (enum A))"

text \<open>
  The room, the subscribers and the local ids agree. \<open>id_load\<close> bounds the next local id: an id is
  taken when an avatar joins, and once more when the social state of an avatar that has left
  goes stale.
\<close>

definition actor_ok :: "presence_actor \<Rightarrow> bool" where
  "actor_ok s \<longleftrightarrow> room_inv (pa_room s)
     \<and> dom (members (pa_room s)) = dom (subscribers s)
     \<and> dom (subscribers s) \<subseteq> dom (avatar_id_to_local s)
     \<and> finite (dom (subscribers s)) \<and> finite (dom (agent_entries s))
     \<and> inj_on (avatar_id_to_local s) (dom (avatar_id_to_local s))
     \<and> (\<forall>a i. avatar_id_to_local s a = Some i \<longrightarrow> unat i < unat (next_local_id s))
     \<and> pending_poses s = Map.empty
     \<and> member_count_stat (pa_stats s) = card (dom (subscribers s))
     \<and> bounds s = symmetric_aabb 0x42480000"

definition id_load :: "presence_actor \<Rightarrow> nat" where
  "id_load s = unat (next_local_id s) + card (dom (agent_entries s) - dom (avatar_id_to_local s)) + card (dom (subscribers s))"

text \<open>Everything the invariant looks at.\<close>

definition same_core :: "presence_actor \<Rightarrow> presence_actor \<Rightarrow> bool" where
  "same_core s t \<longleftrightarrow> pa_room s = pa_room t \<and> dom (subscribers s) = dom (subscribers t)
     \<and> avatar_id_to_local s = avatar_id_to_local t \<and> next_local_id s = next_local_id t
     \<and> dom (agent_entries s) = dom (agent_entries t) \<and> pending_poses s = pending_poses t
     \<and> member_count_stat (pa_stats s) = member_count_stat (pa_stats t) \<and> bounds s = bounds t"

lemma same_core_ok: "same_core s t \<Longrightarrow> actor_ok s \<longleftrightarrow> actor_ok t"
  by (simp add: same_core_def actor_ok_def)

lemma same_core_load: "same_core s t \<Longrightarrow> id_load s = id_load t"
  by (simp add: same_core_def id_load_def)

lemma same_core_refl [simp]: "same_core s s"
  by (simp add: same_core_def)

lemma same_core_trans: "same_core s t \<Longrightarrow> same_core t u \<Longrightarrow> same_core s u"
  by (simp add: same_core_def)

text \<open>What every step keeps: a good state of a given load goes to a good state of no larger load.\<close>

definition keeps :: "nat \<Rightarrow> presence_actor \<Rightarrow> presence_actor \<Rightarrow> bool" where
  "keeps k s t \<longleftrightarrow> (actor_ok s \<and> id_load s \<le> k \<longrightarrow> actor_ok t \<and> id_load t \<le> k)"

lemma keeps_trans: "keeps k s t \<Longrightarrow> keeps k t u \<Longrightarrow> keeps k s u"
  by (simp add: keeps_def)

lemma keeps_same: "same_core s t \<Longrightarrow> keeps k s t"
  by (simp add: keeps_def same_core_ok same_core_load)

lemma record_violation_same: "same_core (snd (record_violation now a s)) s"
  by (auto simp: record_violation_def same_core_def Let_def split: option.split)

lemma count_rejected_same: "same_core (count_rejected s) s"
  by (simp add: count_rejected_def same_core_def)

lemma count_frame_same: "same_core (count_frame bs s) s"
  by (simp add: count_frame_def same_core_def)

lemma shutdown_same: "same_core (shutdown_if_empty s) s"
  by (simp add: shutdown_if_empty_def same_core_def)

lemma leave_members: "members (snd (leave a r)) = (members r)(a := None)"
  by (auto simp: leave_def fun_eq_iff split: option.split)

lemma card_insert_le_Suc: "finite A \<Longrightarrow> card (insert x A) \<le> Suc (card A)"
  by (simp add: card_insert_if)

lemma cleanup_subscriber_ok:
  assumes ok: "actor_ok s"
  shows "actor_ok (fst (cleanup_subscriber enum env a s)) \<and> id_load (fst (cleanup_subscriber enum env a s)) \<le> id_load s"
proof (cases "subscribers s a")
  case (Some sub)
  let ?t = "fst (cleanup_subscriber enum env a s)"
  have t: "pa_room ?t = snd (leave a (pa_room s))" "subscribers ?t = (subscribers s)(a := None)"
    "avatar_id_to_local ?t = (avatar_id_to_local s)(a := None)" "next_local_id ?t = next_local_id s"
    "agent_entries ?t = agent_entries s" "pending_poses ?t = (pending_poses s)(a := None)"
    "member_count_stat (pa_stats ?t) = card (dom ((subscribers s)(a := None)))" "bounds ?t = bounds s"
    using Some by (simp_all add: cleanup_subscriber_def Let_def)
  have "inj_on ((avatar_id_to_local s)(a := None)) (dom (avatar_id_to_local s) - {a})"
    using ok by (auto simp: actor_ok_def inj_on_def)
  then have "actor_ok ?t"
    using ok leave_inv [of "pa_room s" a] unfolding actor_ok_def t leave_members by auto
  moreover have "id_load ?t \<le> id_load s"
  proof -
    have fin: "finite (dom (agent_entries s))" "finite (dom (subscribers s))" using ok by (auto simp: actor_ok_def)
    have "dom (agent_entries s) - (dom (avatar_id_to_local s) - {a})
        \<subseteq> insert a (dom (agent_entries s) - dom (avatar_id_to_local s))" by auto
    then have "card (dom (agent_entries s) - (dom (avatar_id_to_local s) - {a}))
        \<le> Suc (card (dom (agent_entries s) - dom (avatar_id_to_local s)))"
      using fin(1) by (meson card_insert_le_Suc card_mono finite_Diff finite_insert le_trans)
    moreover have "Suc (card (dom (subscribers s) - {a})) = card (dom (subscribers s))"
      using fin(2) Some by (intro card_Suc_Diff1) auto
    ultimately show ?thesis unfolding id_load_def t by simp
  qed
  ultimately show ?thesis by blast
qed (use ok in \<open>simp add: cleanup_subscriber_def\<close>)

lemma cleanup_keeps: "keeps k s (fst (cleanup_subscriber enum env a s))"
  using cleanup_subscriber_ok [of s enum env a] by (auto simp: keeps_def)

lemma cleanup_all_keeps: "keeps k s (fst (cleanup_all enum env as s))"
proof (induction as arbitrary: s)
  case (Cons a as)
  from keeps_trans [OF cleanup_keeps [of k s enum env a] Cons.IH [of "fst (cleanup_subscriber enum env a s)"]]
  show ?case by (simp add: split_beta Let_def)
qed (simp add: keeps_def)

lemma local_id_known: "avatar_id_to_local s a = Some i \<Longrightarrow> local_id_for a s = (i, s)"
  by (simp add: local_id_for_def)

lemma local_id_fields:
  "pa_room (snd (local_id_for a s)) = pa_room s" "subscribers (snd (local_id_for a s)) = subscribers s"
  "agent_entries (snd (local_id_for a s)) = agent_entries s" "pending_poses (snd (local_id_for a s)) = pending_poses s"
  "pa_stats (snd (local_id_for a s)) = pa_stats s" "bounds (snd (local_id_for a s)) = bounds s"
  "avatar_id_to_local (snd (local_id_for a s)) a = Some (fst (local_id_for a s))"
  by (simp_all add: local_id_for_def split: option.split)

text \<open>A fresh id is larger than every id given out before.\<close>

lemma local_id_injective:
  fixes a :: string
  assumes inj: "inj_on (avatar_id_to_local s) (dom (avatar_id_to_local s))"
    and below: "\<forall>b i. avatar_id_to_local s b = Some i \<longrightarrow> unat i < unat (next_local_id s)"
    and room: "unat (next_local_id s) + 1 < 2 ^ 32"
  defines "t \<equiv> snd (local_id_for a s)"
  shows "inj_on (avatar_id_to_local t) (dom (avatar_id_to_local t))"
    and "\<forall>b i. avatar_id_to_local t b = Some i \<longrightarrow> unat i < unat (next_local_id t)"
    and "dom (avatar_id_to_local t) = insert a (dom (avatar_id_to_local s))"
    and "unat (next_local_id t) = unat (next_local_id s) + (if avatar_id_to_local s a = None then 1 else 0)"
proof -
  have n: "unat (next_local_id s + 1) = unat (next_local_id s) + 1" using room by (simp add: unat_add_lem [THEN iffD1])
  have fresh: "avatar_id_to_local s b \<noteq> Some (next_local_id s)" for b using below by auto
  show "inj_on (avatar_id_to_local t) (dom (avatar_id_to_local t))"
    using inj fresh by (auto simp: t_def local_id_for_def inj_on_def dom_def split: option.split)
  show "\<forall>b i. avatar_id_to_local t b = Some i \<longrightarrow> unat i < unat (next_local_id t)"
    using below n by (auto simp: t_def local_id_for_def less_Suc_eq split: option.split)
  show "dom (avatar_id_to_local t) = insert a (dom (avatar_id_to_local s))"
    by (auto simp: t_def local_id_for_def split: option.split)
  show "unat (next_local_id t) = unat (next_local_id s) + (if avatar_id_to_local s a = None then 1 else 0)"
    using n by (simp add: t_def local_id_for_def split: option.split)
qed

lemma leave_stay_ok:
  assumes ok: "actor_ok s" and t: "pa_room t = r" "subscribers t = subscribers s" "avatar_id_to_local t = avatar_id_to_local s"
      "next_local_id t = next_local_id s" "agent_entries t = agent_entries s" "pending_poses t = Map.empty"
      "pa_stats t = pa_stats s" "bounds t = bounds s"
    and r: "room_inv r" "dom (members r) = dom (members (pa_room s))"
  shows "actor_ok t" and "id_load t = id_load s"
  using ok unfolding actor_ok_def id_load_def t r(2) by (auto simp: r(1))

lemma update_pose_dom: "dom (members (snd (update_pose a f r))) = dom (members r)"
  by (auto simp: update_pose_def Let_def split: option.splits)

lemma dispatch_dom:
  "set bs \<subseteq> dom subs \<Longrightarrow> dom (fst (fold (dispatch_one env a e) bs (subs, d, m))) = dom subs"
proof (induction bs arbitrary: subs d m)
  case (Cons b bs)
  obtain subs' d' m' where e: "dispatch_one env a e b (subs, d, m) = (subs', d', m')" by (cases "dispatch_one env a e b (subs, d, m)")
  then have "dom subs' = dom subs" using Cons.prems by (auto simp: dispatch_one_def Let_def split: if_splits)
  then show ?case using Cons e by simp
qed simp

lemma enum_pending: "lists_keys enum \<Longrightarrow> enum {a} = [a]"
proof -
  assume "lists_keys enum"
  then have e: "set (enum {a}) = {a}" "distinct (enum {a})" by (simp_all add: lists_keys_def)
  from distinct_card [OF e(2)] e(1) have "length (enum {a}) = Suc 0" by simp
  then obtain x where "enum {a} = [x]" by (auto simp: length_Suc_conv)
  then show ?thesis using e(1) by simp
qed

lemma build_frame:
  assumes "lists_keys enum" and "pending_poses s = [a \<mapsto> bs]" and "avatar_id_to_local s a = Some i"
  shows "build_broadcast_frame enum s =
    (Some (OPCODE_AVATAR_POSE # u64_le (broadcast_sequence s + 1) @ take 4 (wire_hash (pa_room_id s)) @ u16_le 1 @ u32_le i @ bs),
     s\<lparr>broadcast_sequence := broadcast_sequence s + 1, pending_poses := Map.empty\<rparr>)"
  using assms enum_pending [OF assms(1), of a] by (simp add: build_broadcast_frame_def local_id_for_def)

lemma dispatch_split:
  fixes env :: mailboxes and sender :: string
  assumes "lists_keys enum" and "finite (dom (subscribers s))" and "pending_poses s = [a \<mapsto> p]" and "avatar_id_to_local s a = Some i"
  defines "bs \<equiv> OPCODE_AVATAR_POSE # u64_le (broadcast_sequence s + 1) @ take 4 (wire_hash (pa_room_id s)) @ u16_le 1 @ u32_le i @ p"
  defines "r \<equiv> fold (dispatch_one env sender (FrameOut bs (broadcast_sequence s + 1))) (enum (dom (subscribers s))) (subscribers s, [], [])"
  shows "\<exists>t. same_core t (s\<lparr>pending_poses := Map.empty\<rparr>) \<and> subscribers t = fst r
     \<and> dispatch_broadcast enum env sender s
       = (fst (cleanup_all enum env (fst (snd r)) t), snd (snd r) @ snd (cleanup_all enum env (fst (snd r)) t))"
proof -
  let ?s2 = "count_frame bs (s\<lparr>broadcast_sequence := broadcast_sequence s + 1, pending_poses := Map.empty\<rparr>)"
  have f: "broadcast_sequence ?s2 = broadcast_sequence s + 1" "subscribers ?s2 = subscribers s" by (simp_all add: count_frame_def)
  have "set (enum (dom (subscribers s))) \<subseteq> dom (subscribers s)" using assms(1,2) by (auto simp: lists_keys_def)
  then have "dom (fst r) = dom (subscribers s)" unfolding r_def by (rule dispatch_dom)
  then have core: "same_core (?s2\<lparr>subscribers := fst r\<rparr>) (s\<lparr>pending_poses := Map.empty\<rparr>)"
    by (simp add: same_core_def count_frame_def)
  have "dispatch_broadcast enum env sender s
      = (let (s3, m') = cleanup_all enum env (fst (snd r)) (?s2\<lparr>subscribers := fst r\<rparr>) in (s3, snd (snd r) @ m'))"
    unfolding dispatch_broadcast_def build_frame [OF assms(1,3,4)] bs_def [symmetric] prod.case option.case Let_def f r_def [symmetric]
    by (simp add: split_beta)
  then show ?thesis using core by (intro exI [of _ "?s2\<lparr>subscribers := fst r\<rparr>"]) (simp add: split_beta Let_def)
qed

lemma relay_keeps:
  assumes "lists_keys enum" and "actor_ok s" and "subscribers s a = Some sub"
  shows "keeps k s (fst (snd (relay_pose enum env a bs f s)))"
proof -
  define s1 where "s1 = s\<lparr>pa_room := snd (update_pose a f (pa_room s))\<rparr>"
  have pend: "pending_poses s = Map.empty" and inv: "room_inv (pa_room s)" and fin: "finite (dom (subscribers s))"
    using assms(2) by (simp_all add: actor_ok_def)
  have s1: "keeps k s s1"
    using leave_stay_ok [of s s1, OF _ _ _ _ _ _ _ _ _ update_pose_inv [OF inv] update_pose_dom] pend
    by (auto simp: s1_def keeps_def)
  have sub1: "subscribers s1 = subscribers s" "avatar_id_to_local s1 = avatar_id_to_local s" "pending_poses s1 = Map.empty"
    by (simp_all add: s1_def pend)
  obtain i where i: "avatar_id_to_local s a = Some i" using assms(2,3) by (auto simp: actor_ok_def)
  let ?sp = "s1\<lparr>pending_poses := (pending_poses s1)(a \<mapsto> drop (1 + 2 + 16 + 1 + length a) bs)\<rparr>"
  have "finite (dom (subscribers ?sp))" "pending_poses ?sp = [a \<mapsto> drop (1 + 2 + 16 + 1 + length a) bs]" "avatar_id_to_local ?sp a = Some i"
    using fin i by (simp_all add: sub1)
  from dispatch_split [OF assms(1) this, of env a] obtain t l where
    t: "same_core t (?sp\<lparr>pending_poses := Map.empty\<rparr>)" "fst (dispatch_broadcast enum env a ?sp) = fst (cleanup_all enum env l t)"
    by auto
  have "?sp\<lparr>pending_poses := Map.empty\<rparr> = s1" using sub1(3) by simp
  then have "same_core s1 t" using t(1) by (simp add: same_core_def)
  from keeps_trans [OF keeps_same [OF this] cleanup_all_keeps] have "keeps k s1 (fst (dispatch_broadcast enum env a ?sp))"
    unfolding t(2) .
  then have d: "keeps k s (fst (dispatch_broadcast enum env a ?sp))" by (rule keeps_trans [OF s1])
  show ?thesis
    using s1 d by (auto simp: relay_pose_def s1_def Let_def split_beta split: sum.splits prod.splits)
qed

lemma violate_keeps: "keeps k s (fst (snd (violate enum env now a refused e s)))"
proof -
  obtain b t where t: "record_violation now a (count_rejected s) = (b, t)" by (cases "record_violation now a (count_rejected s)")
  have "same_core t s"
    using same_core_trans [OF record_violation_same count_rejected_same] t by (metis snd_conv)
  then have st: "keeps k s t" by (intro keeps_same) (simp add: same_core_def)
  let ?c = "fst (cleanup_subscriber enum env a t)"
  have "same_core ?c (shutdown_if_empty ?c)" using shutdown_same [of ?c] by (simp add: same_core_def)
  from keeps_trans [OF cleanup_keeps keeps_same [OF this]] have "keeps k t (shutdown_if_empty ?c)" .
  from keeps_trans [OF st this] show ?thesis
    using st by (cases b) (simp_all add: violate_def t split_beta Let_def)
qed

lemma keepsI: "(actor_ok s \<Longrightarrow> keeps k s t) \<Longrightarrow> keeps k s t"
  by (auto simp: keeps_def)

lemma ingest_keeps:
  assumes "lists_keys enum"
  shows "keeps k s (fst (snd (handle_ingest enum env now a bs s)))"
proof (rule keepsI)
  assume ok: "actor_ok s"
  define t where "t = s\<lparr>pa_stats := (pa_stats s)\<lparr>poses_ingested_total := poses_ingested_total (pa_stats s) + 1\<rparr>\<rparr>"
  have t: "same_core s t" "same_core t s" by (simp_all add: t_def same_core_def)
  show "keeps k s (fst (snd (handle_ingest enum env now a bs s)))"
  proof (cases "subscribers s a")
    case None
    then show ?thesis by (simp add: handle_ingest_def keeps_def)
  next
    case (Some sub)
    then have sub: "subscribers t a = Some sub" by (simp add: t_def)
    have ok': "actor_ok t" using ok t same_core_ok by blast
    have "keeps k t (fst (snd (handle_ingest enum env now a bs s)))"
      using violate_keeps relay_keeps [OF assms ok' sub] keeps_same [of t "count_rejected t"] count_rejected_same [of t] Some
      unfolding handle_ingest_def t_def [symmetric] Let_def
      by (auto simp: same_core_def split: sum.splits)
    then show ?thesis by (rule keeps_trans [OF keeps_same [OF t(1)]])
  qed
qed

lemma agent_presence_keeps: "keeps k s (fst (snd (handle_agent_presence enum env now a p s)))"
proof (rule keepsI)
  assume ok: "actor_ok s"
  show "keeps k s (fst (snd (handle_agent_presence enum env now a p s)))"
  proof (cases "subscribers s a = None \<or> check_node_correlation p \<noteq> Ok ()")
    case True
    then show ?thesis by (cases "check_node_correlation p") (auto simp: handle_agent_presence_def keeps_def)
  next
    case False
    then obtain i where i: "avatar_id_to_local s a = Some i" using ok by (auto simp: actor_ok_def)
    let ?t = "s\<lparr>agent_entries := (agent_entries s)(a \<mapsto> \<lparr>ae_last = p, ae_last_seen = now\<rparr>)\<rparr>"
    have "insert a (dom (agent_entries s)) - dom (avatar_id_to_local s) = dom (agent_entries s) - dom (avatar_id_to_local s)"
      using i by auto
    then have t: "keeps k s ?t" using ok by (simp add: keeps_def actor_ok_def id_load_def)
    have "same_core (fst (broadcast_agent_presence enum env ds x u)) u" for ds x u
      by (simp add: broadcast_agent_presence_def same_core_def count_frame_def Let_def split: sum.split)
    then have "keeps k ?t (fst (broadcast_agent_presence enum env ds x ?t))" for ds x
      by (intro keeps_same) (simp add: same_core_def)
    from keeps_trans [OF t this] t show ?thesis
      using False local_id_known [OF i] by (auto simp: handle_agent_presence_def Let_def split_beta)
  qed
qed

lemma retire_keeps:
  assumes "actor_ok s" and "id_load s \<le> k" and "k < 2 ^ 32" and "distinct as" and "set as \<subseteq> dom (agent_entries s)"
  shows "actor_ok (fst (snd (retire_all enum env as s))) \<and> id_load (fst (snd (retire_all enum env as s))) \<le> k"
  using assms
proof (induction as arbitrary: s)
  case (Cons a as)
  let ?r = "s\<lparr>agent_entries := (agent_entries s)(a := None)\<rparr>"
  let ?t = "snd (local_id_for a ?r)"
  have ok: "inj_on (avatar_id_to_local ?r) (dom (avatar_id_to_local ?r))"
    "\<forall>b i. avatar_id_to_local ?r b = Some i \<longrightarrow> unat i < unat (next_local_id ?r)"
    using Cons.prems(1) by (simp_all add: actor_ok_def)
  have fin: "finite (dom (agent_entries s))" using Cons.prems(1) by (simp add: actor_ok_def)
  have a: "a \<in> dom (agent_entries s)" using Cons.prems(5) by simp
  have E: "dom (agent_entries ?r) = dom (agent_entries s) - {a}" by auto
  have step: "actor_ok ?t \<and> id_load ?t \<le> k \<and> dom (agent_entries ?t) = dom (agent_entries s) - {a}"
  proof (cases "avatar_id_to_local s a")
    case (Some i)
    then have t: "?t = ?r" by (simp add: local_id_for_def)
    have "dom (agent_entries s) - {a} - dom (avatar_id_to_local s) = dom (agent_entries s) - dom (avatar_id_to_local s)"
      using Some by auto
    then show ?thesis using Cons.prems(1,2) fin unfolding t by (simp add: actor_ok_def id_load_def)
  next
    case None
    let ?U = "dom (agent_entries s) - dom (avatar_id_to_local s)"
    have U: "a \<in> ?U" "finite ?U" using a None fin by auto
    have D: "dom (agent_entries s) - {a} - insert a (dom (avatar_id_to_local s)) = ?U - {a}" by auto
    have c: "card ?U = Suc (card (?U - {a}))" using card_Suc_Diff1 [OF U(2,1)] by simp
    then have "unat (next_local_id ?r) + 1 < 2 ^ 32" using Cons.prems(2,3) by (simp add: id_load_def)
    note l = local_id_injective [OF ok this, of a]
    have "actor_ok ?t" using Cons.prems(1) l fin None by (auto simp: actor_ok_def local_id_fields)
    moreover have "id_load ?t \<le> k"
      using Cons.prems(2) l(4) None c unfolding id_load_def l(3) local_id_fields E D [symmetric] by (simp add: local_id_fields E D)
    ultimately show ?thesis by (simp add: local_id_fields)
  qed
  then have "set as \<subseteq> dom (agent_entries ?t)" using Cons.prems(4,5) by auto
  with Cons.IH [of ?t] step Cons.prems(3,4) show ?case by (simp add: split_beta Let_def)
qed simp

lemma sweep_keeps:
  assumes "lists_keys enum" and "k < 2 ^ 32"
  shows "keeps k s (fst (snd (handle_sweep enum env now ttl s)))"
proof -
  have "distinct (enum (dom (agent_entries s)))" "set (enum (dom (agent_entries s))) = dom (agent_entries s)" if "actor_ok s"
    using assms(1) that by (simp_all add: lists_keys_def actor_ok_def)
  then show ?thesis
    using retire_keeps [OF _ _ assms(2)]
    unfolding keeps_def handle_sweep_def sweep_stale_agent_presence_def
    by (metis (no_types, lifting) distinct_filter filter_is_subset)
qed

lemma snapshots_known: "set as \<subseteq> dom (avatar_id_to_local s) \<Longrightarrow> snd (member_snapshots as s) = s"
  by (induction as) (auto simp: local_id_for_def split_beta Let_def)

lemma join_cases:
  "join d m r = (Err (DuplicateDid d (the (did_index r d))), r) \<and> did_index r d \<noteq> None
   \<or> join d m r = (Ok (avatar_from_did d), snd (join d m r)) \<and> did_index r d = None
     \<and> members (snd (join d m r)) = (members r)(avatar_from_did d \<mapsto>
         \<lparr>av_id = avatar_from_did d, av_metadata = m, last_frame = None\<rparr>)"
  by (cases "did_index r d") (simp_all add: join_def Let_def)

definition joined_actor :: "string \<Rightarrow> presence_room \<Rightarrow> nat \<Rightarrow> nat \<Rightarrow> presence_actor \<Rightarrow> presence_actor" where
  "joined_actor a r fr er s =
     (let subs = (subscribers s)(a \<mapsto> \<lparr>frame_recipient = fr, event_recipient = er, queue_depth = 0, violations = []\<rparr>)
      in s\<lparr>pa_room := r, subscribers := subs,
           pa_stats := (pa_stats s)\<lparr>member_count_stat := card (dom subs)\<rparr>\<rparr>)"

lemma handle_join_new:
  assumes "join d m (pa_room s) = (Inr a, r)"
  shows "fst (snd (handle_join enum env d m fr er s)) =
     (let t = snd (local_id_for a (joined_actor a r fr er s)) in snd (member_snapshots (enum (dom (members (pa_room t)))) t))"
  by (simp only: handle_join_def assms prod.case sum.case joined_actor_def Let_def split_beta fst_conv snd_conv)

lemma join_step_ok:
  fixes env :: mailboxes and fr er :: nat
  assumes enum: "lists_keys enum" and "actor_ok s" and "id_load s + 2 < 2 ^ 32" and "valid_did d" and "md_did m = d"
  defines "t \<equiv> fst (snd (handle_join enum env d m fr er s))"
  shows "actor_ok t \<and> id_load t \<le> id_load s + 2
    \<and> (did_index (pa_room s) d = None \<longrightarrow> t = snd (local_id_for (avatar_from_did d)
         (joined_actor (avatar_from_did d) (snd (join d m (pa_room s))) fr er s)))"
proof -
  consider (dup) "t = s" "did_index (pa_room s) d \<noteq> None" | (new) "join d m (pa_room s) = (Ok (avatar_from_did d), snd (join d m (pa_room s)))"
      "members (snd (join d m (pa_room s))) = (members (pa_room s))(avatar_from_did d \<mapsto>
         \<lparr>av_id = avatar_from_did d, av_metadata = m, last_frame = None\<rparr>)"
    using join_cases [of d m "pa_room s"] by (auto simp: t_def handle_join_def)
  then show ?thesis
  proof cases
    case new
    let ?a = "avatar_from_did d" and ?r = "snd (join d m (pa_room s))"
    define s1 where "s1 = joined_actor ?a ?r fr er s"
    have s1: "pa_room s1 = ?r" "dom (subscribers s1) = insert ?a (dom (subscribers s))" "avatar_id_to_local s1 = avatar_id_to_local s"
      "next_local_id s1 = next_local_id s" "agent_entries s1 = agent_entries s" "pending_poses s1 = pending_poses s"
      "member_count_stat (pa_stats s1) = card (insert ?a (dom (subscribers s)))" "bounds s1 = bounds s"
      by (simp_all add: s1_def joined_actor_def Let_def)
    let ?s2 = "snd (local_id_for ?a s1)"
    have ok: "inj_on (avatar_id_to_local s1) (dom (avatar_id_to_local s1))"
      "\<forall>b i. avatar_id_to_local s1 b = Some i \<longrightarrow> unat i < unat (next_local_id s1)" "unat (next_local_id s1) + 1 < 2 ^ 32"
      using assms(2,3) by (simp_all add: actor_ok_def id_load_def s1)
    note l = local_id_injective [OF ok, of ?a]
    have inv: "room_inv ?r" using join_inv [of "pa_room s" d m] assms(2,4,5) by (simp add: actor_ok_def)
    have fin: "finite (dom (subscribers s))" "finite (dom (agent_entries s))" using assms(2) by (auto simp: actor_ok_def)
    have ok2: "actor_ok ?s2"
      using assms(2) l inv fin unfolding actor_ok_def l(3) local_id_fields s1 by (auto simp: new(2))
    have "card (dom (agent_entries s) - insert ?a (dom (avatar_id_to_local s))) \<le> card (dom (agent_entries s) - dom (avatar_id_to_local s))"
      using fin(2) by (intro card_mono) auto
    moreover have "card (insert ?a (dom (subscribers s))) \<le> Suc (card (dom (subscribers s)))" by (rule card_insert_le_Suc [OF fin(1)])
    ultimately have load: "id_load ?s2 \<le> id_load s + 2"
      using l(4) unfolding id_load_def l(3) local_id_fields s1 by simp
    have keys: "set (enum (dom (members (pa_room ?s2)))) \<subseteq> dom (avatar_id_to_local ?s2)"
      using enum ok2 by (simp add: lists_keys_def actor_ok_def)
    have "t = ?s2"
      unfolding t_def handle_join_new [OF new(1)] Let_def s1_def [symmetric] by (rule snapshots_known [OF keys])
    then show ?thesis using ok2 load by (simp add: s1_def)
  qed (use assms(2) in auto)
qed

lemma leave_keeps: "keeps k s (fst (handle_leave enum env a s))"
proof -
  let ?c = "fst (cleanup_subscriber enum env a s)"
  have "same_core ?c (shutdown_if_empty ?c)" using shutdown_same [of ?c] by (simp add: same_core_def)
  from keeps_trans [OF cleanup_keeps keeps_same [OF this]] show ?thesis by (simp add: handle_leave_def split_beta)
qed

lemma tick_keeps: "keeps k s (fst (room_tick enum env s))"
proof -
  let ?c = "fst (evict_disconnected_subscribers enum env s)"
  have "same_core ?c (shutdown_if_empty ?c)" using shutdown_same [of ?c] by (simp add: same_core_def)
  moreover have "keeps k s ?c" by (simp add: evict_disconnected_subscribers_def cleanup_all_keeps)
  ultimately have "keeps k s (shutdown_if_empty ?c)" using keeps_trans keeps_same by blast
  then show ?thesis by (simp add: room_tick_def split_beta)
qed

lemma actor_step_ok:
  assumes enum: "lists_keys enum" and ok: "actor_ok s" and load: "id_load s + 2 < 2 ^ 32" and "honest_op (snd x)"
  shows "actor_ok (fst (actor_step enum x s)) \<and> id_load (fst (actor_step enum x s)) \<le> id_load s + 2"
proof -
  have k: "actor_ok t \<and> id_load t \<le> id_load s + 2" if "keeps (id_load s) s t" for t
    using that ok by (auto simp: keeps_def)
  obtain env y where x: "x = (env, y)" by (cases x)
  show ?thesis
  proof (cases y)
    case (JoinRoom d m fr er)
    then show ?thesis using join_step_ok [OF enum ok load, of d m env fr er] assms(4) x by simp
  next
    case (SweepStale now ttl)
    then show ?thesis using k [OF sweep_keeps [OF enum, of "id_load s"]] load x by simp
  next
    case (IngestPose now a bs)
    then show ?thesis using k [OF ingest_keeps [OF enum]] x by simp
  qed (use k leave_keeps agent_presence_keeps tick_keeps x in simp_all)
qed

lemma new_actor_ok: "actor_ok (new_presence_actor reach i) \<and> id_load (new_presence_actor reach i) = 1"
  using new_room_inv [of i] by (simp add: actor_ok_def id_load_def new_presence_actor_def) (simp add: new_room_def)

lemma actor_run_snoc: "actor_run enum (xs @ [x]) s = fst (actor_step enum x (actor_run enum xs s))"
  by (simp add: actor_run_def)

lemma actor_run_ok:
  assumes "lists_keys enum" and "\<forall>x \<in> set xs. honest_op (snd x)" and "2 * length xs + 1 < 2 ^ 32"
  shows "actor_ok (actor_run enum xs (new_presence_actor reach i))
    \<and> id_load (actor_run enum xs (new_presence_actor reach i)) \<le> 2 * length xs + 1"
  using assms(2,3)
proof (induction xs rule: rev_induct)
  case Nil
  then show ?case using new_actor_ok by (simp add: actor_run_def)
next
  case (snoc x xs)
  then have "actor_ok (actor_run enum xs (new_presence_actor reach i))"
    "id_load (actor_run enum xs (new_presence_actor reach i)) \<le> 2 * length xs + 1" "honest_op (snd x)"
    by simp_all
  with actor_step_ok [OF assms(1) this(1) _ this(3)] snoc.prems show ?case by (auto simp: actor_run_snoc)
qed

section \<open>What a pose becomes\<close>

fun is_frame :: "nat \<times> outgoing \<Rightarrow> bool" where
  "is_frame (r, FrameOut bs sq) = True"
| "is_frame (r, EventOut e) = False"

lemma cleanup_no_frames: "filter is_frame (snd (cleanup_subscriber enum env a s)) = []"
  by (auto simp: cleanup_subscriber_def Let_def filter_empty_conv try_send_def)

lemma cleanup_all_no_frames: "filter is_frame (snd (cleanup_all enum env as s)) = []"
  using cleanup_no_frames by (induction as arbitrary: s) (simp_all add: split_beta Let_def)

lemma dispatch_mail:
  assumes "distinct bs" and "\<forall>r. accepts env r \<longrightarrow> connected env r"
  shows "snd (snd (fold (dispatch_one env a e) bs (subs, d, m))) = m @ map (\<lambda>b. (frame_recipient (the (subs b)), e))
     (filter (\<lambda>b. b \<noteq> a \<and> accepts env (frame_recipient (the (subs b)))) bs)"
  using assms(1)
proof (induction bs arbitrary: subs d m)
  case (Cons b bs)
  obtain subs' d' m' where e: "dispatch_one env a e b (subs, d, m) = (subs', d', m')" by (cases "dispatch_one env a e b (subs, d, m)")
  have "subs' c = subs c" if "c \<in> set bs" for c
    using e that Cons.prems by (auto simp: dispatch_one_def Let_def split: if_splits)
  then have "map (\<lambda>b. (frame_recipient (the (subs' b)), e)) (filter (\<lambda>b. b \<noteq> a \<and> accepts env (frame_recipient (the (subs' b)))) bs)
      = map (\<lambda>b. (frame_recipient (the (subs b)), e)) (filter (\<lambda>b. b \<noteq> a \<and> accepts env (frame_recipient (the (subs b)))) bs)"
    by (simp cong: map_cong filter_cong)
  moreover have "m' = m @ (if b \<noteq> a \<and> accepts env (frame_recipient (the (subs b))) then [(frame_recipient (the (subs b)), e)] else [])"
    using e assms(2) by (auto simp: dispatch_one_def Let_def split: if_splits)
  ultimately show ?case using Cons e by simp
qed simp


lemma member_avatar:
  assumes "actor_ok s" and "subscribers s a = Some sub"
  shows "length a = 86" "utf8_valid (as_bytes a)" "\<exists>st. members (pa_room s) a = Some st"
proof -
  have inv: "room_inv (pa_room s)" and dom: "dom (members (pa_room s)) = dom (subscribers s)"
    using assms(1) by (simp_all add: actor_ok_def)
  have "a \<in> dom (members (pa_room s))" using assms(2) dom by auto
  then show st: "\<exists>st. members (pa_room s) a = Some st" by auto
  then obtain d where "valid_did d" "a = avatar_from_did d" using inv by (metis room_inv_def)
  from avatar_ascii [OF avatar_from_did_parses [OF this(1)]] this(2)
  show "length a = 86" "utf8_valid (as_bytes a)" by simp_all
qed

lemma encoded_payload:
  assumes "encode_pose f room a = Ok bs" and "length a = 86"
  shows "drop (1 + 2 + 16 + 1 + length a) bs
      = u64_le (timestamp_us f) @ [slot_mask f] @ write_transform (head f) @ opt_bytes (left_hand f) @ opt_bytes (right_hand f)"
    and "length bs > 1 + 2 + 16 + 1 + length a"
proof -
  have a: "length (as_bytes a) = 86" using assms(2) by (simp add: as_bytes_def)
  have bs: "bs = OPCODE_AVATAR_POSE # u16_le (word_of_nat (16 + 1 + 86 + 8 + 1 + transform_count f * TRANSFORM_WIRE_SIZE))
      @ wire_hash room @ [86] @ as_bytes a @ u64_le (timestamp_us f) @ [slot_mask f]
      @ write_transform (head f) @ opt_bytes (left_hand f) @ opt_bytes (right_hand f)"
    using assms(1) by (simp add: encode_pose_def a Let_def MAX_AVATAR_ID_WIRE_LEN_def split: if_splits)
  show "drop (1 + 2 + 16 + 1 + length a) bs
      = u64_le (timestamp_us f) @ [slot_mask f] @ write_transform (head f) @ opt_bytes (left_hand f) @ opt_bytes (right_hand f)"
    unfolding bs by (simp add: assms(2) a)
  show "length bs > 1 + 2 + 16 + 1 + length a" unfolding bs by (simp add: assms(2) a)
qed

text \<open>The decoder reads only the declared length, so bytes after the frame do not matter to it.\<close>

lemma decode_pose_extend:
  assumes "decode_pose bs = Ok d"
  shows "decode_pose (bs @ junk) = Ok d"
proof -
  let ?n = "unat (le_word (take 2 (drop 1 bs)) :: u16)"
  have len: "29 \<le> length bs" "3 + ?n \<le> length bs" using assms by (auto simp: decode_pose_def Let_def split: if_splits)
  have "(bs @ junk) ! 0 = bs ! 0" "take 2 (drop 1 (bs @ junk)) = take 2 (drop 1 bs)"
    "take ?n (drop 3 (bs @ junk)) = take ?n (drop 3 bs)"
    using len by (auto simp: nth_append)
  then show ?thesis using assms len by (simp add: decode_pose_def Let_def split: if_splits)
qed

lemma ingest_relays:
  fixes junk :: bytes
  assumes ok: "actor_ok s" and enum: "lists_keys enum" and sub: "subscribers s a = Some sub"
    and enc: "encode_pose f (pa_room_id s) a = Ok bs" and valid: "run_validators s a f = Ok ()"
    and env: "\<forall>r. accepts env r \<longrightarrow> connected env r" and lid: "avatar_id_to_local s a = Some i"
  defines "fr \<equiv> OPCODE_AVATAR_POSE # u64_le (broadcast_sequence s + 1) @ take 4 (wire_hash (pa_room_id s)) @ u16_le 1 @ u32_le i
      @ u64_le (timestamp_us f) @ [slot_mask f] @ write_transform (head f) @ opt_bytes (left_hand f) @ opt_bytes (right_hand f) @ junk"
  shows "fst (handle_ingest enum env now a (bs @ junk) s) = Accepted
    \<and> filter is_frame (snd (snd (handle_ingest enum env now a (bs @ junk) s)))
      = map (\<lambda>b. (frame_recipient (the (subscribers s b)), FrameOut fr (broadcast_sequence s + 1)))
          (filter (\<lambda>b. b \<noteq> a \<and> accepts env (frame_recipient (the (subscribers s b)))) (enum (dom (subscribers s))))"
proof -
  note av = member_avatar [OF ok sub]
  define t where "t = s\<lparr>pa_stats := (pa_stats s)\<lparr>poses_ingested_total := poses_ingested_total (pa_stats s) + 1\<rparr>\<rparr>"
  have t: "pa_room t = pa_room s" "subscribers t = subscribers s" "pa_room_id t = pa_room_id s" "bounds t = bounds s"
    "pending_poses t = Map.empty" "avatar_id_to_local t = avatar_id_to_local s" "broadcast_sequence t = broadcast_sequence s"
    "max_velocity_mps t = max_velocity_mps s" "hand_reach_m t = hand_reach_m s"
    using ok by (simp_all add: t_def actor_ok_def)
  have "decode_pose bs = Ok \<lparr>room_hash = wire_hash (pa_room_id s), decoded_avatar_id = a, decoded_pose = f\<rparr>"
    using encode_decode_pose [of a f "pa_room_id s"] av enc by auto
  then have dec: "decode_pose (bs @ junk) = Ok \<lparr>room_hash = wire_hash (pa_room_id s), decoded_avatar_id = a, decoded_pose = f\<rparr>"
    by (rule decode_pose_extend)
  have "run_validators t a f = run_validators s a f" unfolding run_validators_def check_hand_def t ..
  then have val: "run_validators t a f = Ok ()" using valid by simp
  obtain dl r where up: "update_pose a f (pa_room t) = (Ok dl, r)"
    using av(3) by (auto simp: update_pose_def t Let_def)
  have ing: "handle_ingest enum env now a (bs @ junk) s = relay_pose enum env a (bs @ junk) f t"
    using sub dec val by (simp add: handle_ingest_def t_def [symmetric] Let_def t)
  note pay = encoded_payload [OF enc av(1)]
  define p where "p = u64_le (timestamp_us f) @ [slot_mask f] @ write_transform (head f) @ opt_bytes (left_hand f) @ opt_bytes (right_hand f) @ junk"
  have p: "drop (1 + 2 + 16 + 1 + length a) (bs @ junk) = p" using pay by (simp add: p_def)
  let ?sp = "t\<lparr>pa_room := r, pending_poses := [a \<mapsto> p]\<rparr>"
  have fin: "finite (dom (subscribers s))" using ok by (simp add: actor_ok_def)
  have rel: "relay_pose enum env a (bs @ junk) f t = (Accepted, dispatch_broadcast enum env a ?sp)"
    using pay(2) p unfolding relay_pose_def up prod.case sum.case Let_def by (simp add: t split_beta)
  have "finite (dom (subscribers ?sp))" "pending_poses ?sp = [a \<mapsto> p]" "avatar_id_to_local ?sp a = Some i"
    using fin lid by (simp_all add: t)
  from dispatch_split [OF enum this, of env a]
  obtain u where u: "dispatch_broadcast enum env a ?sp
      = (fst (cleanup_all enum env (fst (snd (fold (dispatch_one env a (FrameOut fr (broadcast_sequence s + 1))) (enum (dom (subscribers s))) (subscribers s, [], [])))) u),
         snd (snd (fold (dispatch_one env a (FrameOut fr (broadcast_sequence s + 1))) (enum (dom (subscribers s))) (subscribers s, [], [])))
         @ snd (cleanup_all enum env (fst (snd (fold (dispatch_one env a (FrameOut fr (broadcast_sequence s + 1))) (enum (dom (subscribers s))) (subscribers s, [], [])))) u))"
    by (auto simp: t fr_def p_def)
  have "distinct (enum (dom (subscribers s)))" using enum fin by (simp add: lists_keys_def)
  note m = dispatch_mail [OF this env, of a "FrameOut fr (broadcast_sequence s + 1)" "subscribers s" "[]" "[]"]
  show ?thesis
    unfolding ing rel u by (simp add: m cleanup_all_no_frames filter_map comp_def)
qed

section \<open>Violations in a window\<close>

definition within :: "instant \<Rightarrow> instant \<Rightarrow> bool" where
  "within now t \<longleftrightarrow> nat (now - t) \<le> VIOLATION_WINDOW"

text \<open>Bad frames at the times \<open>ts\<close> and now: how many fall in the window that ends now.\<close>

definition strikes :: "instant list \<Rightarrow> instant \<Rightarrow> nat" where
  "strikes ts now = length (filter (within now) (ts @ [now]))"

lemma drop_old: "sorted vs \<Longrightarrow> dropWhile (\<lambda>t. nat (now - t) > VIOLATION_WINDOW) vs = filter (within now) vs"
proof (induction vs)
  case (Cons v vs)
  show ?case
  proof (cases "within now v")
    case True
    then have "\<forall>t \<in> set vs. within now t" using Cons.prems by (auto simp: within_def)
    then show ?thesis using True by (simp add: within_def)
  next
    case False
    then show ?thesis using Cons by (simp add: within_def)
  qed
qed simp

lemma window_moves: "now \<le> now' \<Longrightarrow> filter (within now') (filter (within now) vs) = filter (within now') vs"
  by (auto simp: within_def intro!: filter_cong)

text \<open>What the deque of a member says about the bad frames so far.\<close>

definition remembers :: "subscriber \<Rightarrow> instant list \<Rightarrow> bool" where
  "remembers sub ts \<longleftrightarrow> sorted (violations sub) \<and> set (violations sub) \<subseteq> set ts
     \<and> (\<forall>now. (\<forall>t \<in> set ts. t \<le> now) \<longrightarrow> filter (within now) (violations sub) = filter (within now) ts)"

lemma record_violation_counts:
  assumes sub: "subscribers s a = Some sub" and mem: "remembers sub ts" and now: "\<forall>t \<in> set ts. t \<le> now"
  shows "\<exists>sub'. record_violation now a s = (10 \<le> strikes ts now, s\<lparr>subscribers := (subscribers s)(a \<mapsto> sub')\<rparr>)
    \<and> remembers sub' (ts @ [now])"
proof -
  have "sorted (violations sub @ [now])" using mem now by (auto simp: remembers_def sorted_append)
  note d = drop_old [OF this, of now]
  have f: "filter (within now) (violations sub @ [now]) = filter (within now) (ts @ [now])" using mem now by (simp add: remembers_def)
  let ?sub = "sub\<lparr>violations := filter (within now) (ts @ [now])\<rparr>"
  have "record_violation now a s = (10 \<le> strikes ts now, s\<lparr>subscribers := (subscribers s)(a \<mapsto> ?sub)\<rparr>)"
    unfolding record_violation_def sub option.case Let_def d f by (simp add: strikes_def VIOLATION_KICK_THRESHOLD_def)
  moreover have "remembers ?sub (ts @ [now])"
  proof -
    have "sorted (filter (within now) (violations sub @ [now]))" using \<open>sorted (violations sub @ [now])\<close> by (rule sorted_wrt_filter)
    then have "sorted (violations ?sub)" unfolding f by simp
    moreover have "filter (within now') (violations ?sub) = filter (within now') (ts @ [now])" if "now \<le> now'" for now'
      using window_moves [OF that] by (simp del: filter_append)
    ultimately show ?thesis by (auto simp: remembers_def)
  qed
  ultimately show ?thesis by blast
qed

section \<open>Bad frames\<close>

text \<open>
  What makes a frame count against its sender, and the error it is refused with: it does not decode,
  it names another avatar, or it is a pose of this room that a validator rejects. A frame with the
  hash of another room is refused without being counted.
\<close>

definition offence :: "presence_actor \<Rightarrow> string \<Rightarrow> bytes \<Rightarrow> ingest_error option" where
  "offence s a bs =
     (case decode_pose bs of
        Inl e \<Rightarrow> Some (UndecodableFrame e)
      | Inr d \<Rightarrow> if decoded_avatar_id d \<noteq> a then Some AvatarMismatch
                 else if room_hash d \<noteq> wire_hash (pa_room_id s) then None
                 else case run_validators s a (decoded_pose d) of Inl e \<Rightarrow> Some (InvalidPose e) | Inr _ \<Rightarrow> None)"

fun refused_as :: "ingest_error \<Rightarrow> ingest_outcome" where
  "refused_as (UndecodableFrame e) = DecodeFailed (UndecodableFrame e)"
| "refused_as e = ValidationFailed e"

text \<open>
  The times at which avatar \<open>a\<close> sent a bad frame since it last joined, along a history: the
  specification of the deque the actor keeps.
\<close>

fun offences_step :: "key_order \<Rightarrow> string \<Rightarrow> mailboxes \<times> actor_op \<Rightarrow> presence_actor \<Rightarrow> instant list \<Rightarrow> instant list" where
  "offences_step enum a (env, IngestPose now b bs) s ts =
     (if b = a \<and> subscribers s a \<noteq> None \<and> offence s a bs \<noteq> None then ts @ [now] else ts)"
| "offences_step enum a (env, JoinRoom d m fr er) s ts =
     (case fst (handle_join enum env d m fr er s) of
        Inr ack \<Rightarrow> (if ja_avatar_id ack = a then [] else ts)
      | Inl _ \<Rightarrow> ts)"
| "offences_step enum a (env, _) s ts = ts"

primrec offences :: "key_order \<Rightarrow> string \<Rightarrow> (mailboxes \<times> actor_op) list \<Rightarrow> presence_actor \<Rightarrow> instant list \<Rightarrow> instant list" where
  "offences enum a [] s ts = ts"
| "offences enum a (x # xs) s ts = offences enum a xs (fst (actor_step enum x s)) (offences_step enum a x s ts)"

fun pose_time :: "mailboxes \<times> actor_op \<Rightarrow> instant option" where
  "pose_time (env, IngestPose now b bs) = Some now"
| "pose_time _ = None"

definition pose_times :: "(mailboxes \<times> actor_op) list \<Rightarrow> instant list" where
  "pose_times xs = List.map_filter pose_time xs"

lemma pose_times_append: "pose_times (xs @ ys) = pose_times xs @ pose_times ys"
  by (simp add: pose_times_def List.map_filter_def)

lemma offences_append:
  "offences enum a (xs @ ys) s ts = offences enum a ys (actor_run enum xs s) (offences enum a xs s ts)"
  by (induction xs arbitrary: s ts) (simp_all add: actor_run_def)

lemma offences_step_times: "set (offences_step enum a x s ts) \<subseteq> set ts \<union> set (pose_times [x])"
  by (induction enum a x s ts rule: offences_step.induct)
    (auto simp: pose_times_def List.map_filter_simps split: sum.split)

lemma offences_times: "set (offences enum a xs s ts) \<subseteq> set ts \<union> set (pose_times xs)"
proof (induction xs arbitrary: s ts)
  case (Cons x xs)
  have "pose_times (x # xs) = pose_times [x] @ pose_times xs" using pose_times_append [of "[x]" xs] by simp
  then show ?case using Cons.IH [of "fst (actor_step enum x s)" "offences_step enum a x s ts"] offences_step_times [of enum a x s ts] by auto
qed simp

text \<open>Nothing but a bad frame of its own and a new membership changes the deque of a member.\<close>

definition same_strikes :: "string \<Rightarrow> (string \<rightharpoonup> subscriber) \<Rightarrow> (string \<rightharpoonup> subscriber) \<Rightarrow> bool" where
  "same_strikes a subs subs' \<longleftrightarrow>
     (\<forall>sub'. subs' a = Some sub' \<longrightarrow> (\<exists>sub. subs a = Some sub \<and> violations sub = violations sub'))"

lemma same_strikes_refl [simp, intro!]: "same_strikes a subs subs"
  by (simp add: same_strikes_def)

lemma same_strikes_trans: "same_strikes a s t \<Longrightarrow> same_strikes a t u \<Longrightarrow> same_strikes a s u"
  by (fastforce simp: same_strikes_def)

lemma same_strikes_other: "b \<noteq> a \<Longrightarrow> same_strikes a subs (subs(b := x))"
  by (simp add: same_strikes_def)

lemma shutdown_subscribers [simp]: "subscribers (shutdown_if_empty s) = subscribers s"
  by (simp add: shutdown_if_empty_def)

lemma cleanup_strikes: "same_strikes a (subscribers s) (subscribers (fst (cleanup_subscriber enum env b s)))"
  by (auto simp: cleanup_subscriber_def same_strikes_def Let_def)

lemma cleanup_all_strikes: "same_strikes a (subscribers s) (subscribers (fst (cleanup_all enum env bs s)))"
proof (induction bs arbitrary: s)
  case (Cons b bs)
  show ?case
    using same_strikes_trans [OF cleanup_strikes Cons.IH [of "fst (cleanup_subscriber enum env b s)"]]
    by (simp add: split_beta Let_def)
qed simp

lemma dispatch_strikes:
  "set bs \<subseteq> dom subs \<Longrightarrow> same_strikes a subs (fst (fold (dispatch_one env sender e) bs (subs, d, m)))"
proof (induction bs arbitrary: subs d m)
  case (Cons b bs)
  obtain subs' d' m' where e: "dispatch_one env sender e b (subs, d, m) = (subs', d', m')"
    by (cases "dispatch_one env sender e b (subs, d, m)")
  then have "dom subs' = dom subs" "same_strikes a subs subs'"
    using Cons.prems by (auto simp: dispatch_one_def same_strikes_def Let_def split: if_splits)
  then show ?case using Cons e same_strikes_trans by fastforce
qed simp

lemma user_blocks_subscribers: "subscribers (snd (user_blocks as poses s)) = subscribers s"
  by (induction as arbitrary: s) (simp_all add: split_beta Let_def local_id_fields)

lemma build_subscribers: "subscribers (snd (build_broadcast_frame enum s)) = subscribers s"
  by (simp add: build_broadcast_frame_def split_beta Let_def user_blocks_subscribers)

lemma dispatch_broadcast_strikes:
  assumes "lists_keys enum" and "finite (dom (subscribers s))"
  shows "same_strikes a (subscribers s) (subscribers (fst (dispatch_broadcast enum env sender s)))"
proof (cases "build_broadcast_frame enum s")
  case (Pair fr s1)
  then have s1: "subscribers s1 = subscribers s" using build_subscribers [of enum s] by simp
  show ?thesis
  proof (cases fr)
    case (Some bs)
    let ?s2 = "count_frame bs s1"
    have s2: "subscribers ?s2 = subscribers s" by (simp add: count_frame_def s1)
    let ?r = "fold (dispatch_one env sender (FrameOut bs (broadcast_sequence ?s2))) (enum (dom (subscribers s))) (subscribers s, [], [])"
    have "set (enum (dom (subscribers s))) \<subseteq> dom (subscribers s)" using assms by (auto simp: lists_keys_def)
    then have r: "same_strikes a (subscribers s) (fst ?r)" by (rule dispatch_strikes)
    have "same_strikes a (fst ?r) (subscribers (fst (cleanup_all enum env (fst (snd ?r)) (?s2\<lparr>subscribers := fst ?r\<rparr>))))"
      using cleanup_all_strikes [of a "?s2\<lparr>subscribers := fst ?r\<rparr>"] by simp
    from same_strikes_trans [OF r this] show ?thesis
      by (simp add: dispatch_broadcast_def Pair Some Let_def split_beta s2)
  qed (simp add: dispatch_broadcast_def Pair s1)
qed

lemma relay_strikes:
  assumes "lists_keys enum" and "finite (dom (subscribers s))"
  shows "same_strikes a (subscribers s) (subscribers (fst (snd (relay_pose enum env b bs f s))))"
  using dispatch_broadcast_strikes [OF assms(1), of "s\<lparr>pa_room := snd (update_pose b f (pa_room s)),
      pending_poses := (pending_poses s)(b \<mapsto> drop (1 + 2 + 16 + 1 + length b) bs)\<rparr>" a env b] assms(2)
  by (auto simp: relay_pose_def Let_def split_beta split: sum.split prod.split)

lemma violate_strikes:
  assumes "b \<noteq> a"
  shows "same_strikes a (subscribers s) (subscribers (fst (snd (violate enum env now b refused e s))))"
proof -
  obtain k t where t: "record_violation now b (count_rejected s) = (k, t)" by (cases "record_violation now b (count_rejected s)")
  then have st: "same_strikes a (subscribers s) (subscribers t)"
    using assms by (auto simp: record_violation_def count_rejected_def same_strikes_def Let_def split: option.splits)
  from same_strikes_trans [OF this cleanup_strikes] st show ?thesis
    by (cases k) (simp_all add: violate_def t split_beta Let_def)
qed

lemma check_hand_stats [simp]: "check_hand (s\<lparr>pa_stats := x\<rparr>) face hand = check_hand s face hand"
  by (simp add: check_hand_def split: option.split)

lemma run_validators_stats [simp]: "run_validators (s\<lparr>pa_stats := x\<rparr>) a f = run_validators s a f"
  by (cases "Option.bind (members (pa_room s) a) last_frame") (simp_all add: run_validators_def)

text \<open>A frame of a member is a violation exactly when it is an offence.\<close>

lemma ingest_offence:
  fixes enum :: key_order
  assumes "subscribers s a \<noteq> None" and "offence s a bs = Some e"
  shows "handle_ingest enum env now a bs s = violate enum env now a (refused_as e) e
    (s\<lparr>pa_stats := (pa_stats s)\<lparr>poses_ingested_total := poses_ingested_total (pa_stats s) + 1\<rparr>\<rparr>)"
  using assms by (auto simp: handle_ingest_def offence_def Let_def split: sum.splits if_splits)

lemma ingest_no_offence:
  fixes enum :: key_order
  assumes "subscribers s a \<noteq> None" and "offence s a bs = None"
  defines "t \<equiv> s\<lparr>pa_stats := (pa_stats s)\<lparr>poses_ingested_total := poses_ingested_total (pa_stats s) + 1\<rparr>\<rparr>"
  shows "handle_ingest enum env now a bs s = (ValidationFailed RoomHashMismatch, count_rejected t, [])
    \<or> (\<exists>f. handle_ingest enum env now a bs s = relay_pose enum env a bs f t)"
  using assms(1,2) by (auto simp: handle_ingest_def offence_def t_def Let_def split: sum.splits if_splits)

lemma ingest_strikes:
  assumes "lists_keys enum" and "finite (dom (subscribers s))" and "b = a \<Longrightarrow> offence s a bs = None"
  shows "same_strikes a (subscribers s) (subscribers (fst (snd (handle_ingest enum env now b bs s))))"
proof (cases "subscribers s b")
  case None
  then show ?thesis by (simp add: handle_ingest_def)
next
  case (Some sub)
  let ?t = "s\<lparr>pa_stats := (pa_stats s)\<lparr>poses_ingested_total := poses_ingested_total (pa_stats s) + 1\<rparr>\<rparr>"
  have t: "subscribers ?t = subscribers s" "finite (dom (subscribers ?t))" using assms(2) by simp_all
  show ?thesis
  proof (cases "offence s b bs")
    case None
    then have "handle_ingest enum env now b bs s = (ValidationFailed RoomHashMismatch, count_rejected ?t, [])
        \<or> (\<exists>f. handle_ingest enum env now b bs s = relay_pose enum env b bs f ?t)"
      using ingest_no_offence Some by blast
    then show ?thesis using relay_strikes [OF assms(1) t(2), of a env b bs] by (auto simp: count_rejected_def)
  next
    case (Some e)
    then have "b \<noteq> a" using assms(3) by auto
    from violate_strikes [OF this, of ?t enum env now] show ?thesis
      using ingest_offence [OF _ Some] \<open>subscribers s b = Some sub\<close> by simp
  qed
qed

lemma member_snapshots_subscribers: "subscribers (snd (member_snapshots as s)) = subscribers s"
  by (induction as arbitrary: s) (simp_all add: split_beta Let_def local_id_fields)

lemma join_subscribers:
  "subscribers (fst (snd (handle_join enum env d m fr er s))) =
     (case fst (handle_join enum env d m fr er s) of
        Inl _ \<Rightarrow> subscribers s
      | Inr ack \<Rightarrow> (subscribers s)(ja_avatar_id ack \<mapsto> \<lparr>frame_recipient = fr, event_recipient = er, queue_depth = 0, violations = []\<rparr>))"
proof (cases "join d m (pa_room s)")
  case (Pair res r)
  then show ?thesis
    by (cases res) (simp_all add: handle_join_def Let_def split_beta member_snapshots_subscribers local_id_fields)
qed

lemma agent_subscribers: "subscribers (fst (snd (handle_agent_presence enum env now b p s))) = subscribers s"
proof -
  have "subscribers (fst (broadcast_agent_presence enum env ds x u)) = subscribers u" for ds x u
    by (simp add: broadcast_agent_presence_def count_frame_def Let_def split: sum.split)
  then show ?thesis
    by (simp add: handle_agent_presence_def Let_def split_beta local_id_fields split: sum.split)
qed

lemma retire_subscribers: "subscribers (fst (snd (retire_all enum env as s))) = subscribers s"
  by (induction as arbitrary: s) (simp_all add: split_beta Let_def local_id_fields)

text \<open>A bad frame: kicked when it is the tenth in the window, else refused and remembered.\<close>

lemma bad_frame_counts:
  fixes enum :: key_order and env :: mailboxes
  assumes off: "offence s a bs = Some e" and sub: "subscribers s a = Some sub" and mem: "remembers sub ts"
    and now: "\<forall>t \<in> set ts. t \<le> now"
  defines "r \<equiv> handle_ingest enum env now a bs s"
  shows "if 10 \<le> strikes ts now then fst r = Kick e \<and> subscribers (fst (snd r)) a = None
    else fst r = refused_as e \<and> (\<exists>sub'. subscribers (fst (snd r)) a = Some sub' \<and> remembers sub' (ts @ [now]))"
proof -
  let ?t = "count_rejected (s\<lparr>pa_stats := (pa_stats s)\<lparr>poses_ingested_total := poses_ingested_total (pa_stats s) + 1\<rparr>\<rparr>)"
  have "subscribers ?t a = Some sub" using sub by (simp add: count_rejected_def)
  from record_violation_counts [OF this mem now] obtain sub' where v:
    "record_violation now a ?t = (10 \<le> strikes ts now, ?t\<lparr>subscribers := (subscribers ?t)(a \<mapsto> sub')\<rparr>)" "remembers sub' (ts @ [now])"
    by blast
  have r: "r = violate enum env now a (refused_as e) e
      (s\<lparr>pa_stats := (pa_stats s)\<lparr>poses_ingested_total := poses_ingested_total (pa_stats s) + 1\<rparr>\<rparr>)"
    unfolding r_def using sub by (intro ingest_offence [OF _ off]) simp
  show ?thesis
  proof (cases "10 \<le> strikes ts now")
    case True
    have "subscribers (fst (cleanup_subscriber enum env a u)) a = None" for u
      by (auto simp: cleanup_subscriber_def Let_def)
    then show ?thesis using True v(1) unfolding r violate_def
      by (simp add: split_beta Let_def)
  next
    case False
    then show ?thesis using v unfolding r violate_def by simp
  qed
qed

lemma remembers_same: "violations sub = violations sub' \<Longrightarrow> remembers sub ts = remembers sub' ts"
  by (simp add: remembers_def)

definition strikes_ok :: "string \<Rightarrow> presence_actor \<Rightarrow> instant list \<Rightarrow> bool" where
  "strikes_ok a s ts \<longleftrightarrow> (\<forall>sub. subscribers s a = Some sub \<longrightarrow> remembers sub ts)"

lemma strikes_ok_same: "strikes_ok a s ts \<Longrightarrow> same_strikes a (subscribers s) (subscribers t) \<Longrightarrow> strikes_ok a t ts"
  unfolding strikes_ok_def same_strikes_def using remembers_same by blast

lemma offences_step_ok:
  assumes enum: "lists_keys enum" and fin: "finite (dom (subscribers s))" and ok: "strikes_ok a s ts"
    and now: "\<forall>n \<in> set (pose_times [x]). \<forall>t \<in> set ts. t \<le> n"
  shows "strikes_ok a (fst (actor_step enum x s)) (offences_step enum a x s ts)"
proof -
  obtain env op where x: "x = (env, op)" by (cases x)
  have cleanup: "strikes_ok a (fst (cleanup_subscriber enum env b s)) ts" "strikes_ok a (fst (cleanup_all enum env bs s)) ts" for b bs
    using strikes_ok_same [OF ok] cleanup_strikes cleanup_all_strikes by blast+
  show ?thesis
  proof (cases op)
    case (IngestPose n b bs)
    let ?s = "fst (snd (handle_ingest enum env n b bs s))"
    show ?thesis
    proof (cases "b = a \<and> subscribers s a \<noteq> None \<and> offence s a bs \<noteq> None")
      case True
      then obtain sub e where sub: "subscribers s a = Some sub" "offence s a bs = Some e" by blast
      have "\<forall>t \<in> set ts. t \<le> n" using now by (simp add: x IngestPose pose_times_def List.map_filter_simps)
      moreover have "remembers sub ts" using ok sub(1) by (simp add: strikes_ok_def)
      ultimately show ?thesis
        using bad_frame_counts [OF sub(2,1), of ts n enum env] True by (auto simp: x IngestPose strikes_ok_def split: if_splits)
    next
      case False
      have "same_strikes a (subscribers s) (subscribers ?s)"
      proof (cases "b = a \<and> subscribers s a = None")
        case True
        then show ?thesis by (simp add: handle_ingest_def)
      next
        case F: False
        then show ?thesis using False by (intro ingest_strikes [OF enum fin]) auto
      qed
      from strikes_ok_same [OF ok this] have "strikes_ok a (fst (actor_step enum x s)) ts" by (simp add: x IngestPose)
      moreover have "offences_step enum a x s ts = ts" using False by (auto simp: x IngestPose)
      ultimately show ?thesis by simp
    qed
  next
    case (JoinRoom d m fr er)
    show ?thesis
    proof (cases "fst (handle_join enum env d m fr er s)")
      case (Inr ack)
      then show ?thesis
        using ok join_subscribers [of enum env d m fr er s]
        by (auto simp: x JoinRoom strikes_ok_def remembers_def)
    qed (use ok join_subscribers [of enum env d m fr er s] in \<open>simp add: x JoinRoom strikes_ok_def\<close>)
  next
    case (LeaveRoom b)
    then show ?thesis using cleanup(1) [of b] by (simp add: x handle_leave_def split_beta Let_def strikes_ok_def)
  next
    case RoomTick
    then show ?thesis using cleanup(2) by (simp add: x room_tick_def evict_disconnected_subscribers_def split_beta Let_def strikes_ok_def)
  next
    case (IngestAgentPresence n b p)
    then show ?thesis using ok by (simp add: x strikes_ok_def agent_subscribers)
  next
    case (SweepStale n ttl)
    then show ?thesis using ok by (simp add: x strikes_ok_def handle_sweep_def sweep_stale_agent_presence_def retire_subscribers)
  qed
qed

lemma offences_ok:
  assumes "lists_keys enum" and "\<forall>x \<in> set xs. honest_op (snd x)" and "2 * length xs + 1 < 2 ^ 32" and "sorted (pose_times xs)"
  shows "strikes_ok a (actor_run enum xs (new_presence_actor reach room)) (offences enum a xs (new_presence_actor reach room) [])"
  using assms(2-4)
proof (induction xs rule: rev_induct)
  case Nil
  then show ?case by (simp add: strikes_ok_def actor_run_def new_presence_actor_def)
next
  case (snoc x xs)
  let ?s = "actor_run enum xs (new_presence_actor reach room)" and ?ts = "offences enum a xs (new_presence_actor reach room) []"
  have pre: "\<forall>x \<in> set xs. honest_op (snd x)" "2 * length xs + 1 < 2 ^ 32" "sorted (pose_times xs)"
    using snoc.prems by (simp_all add: pose_times_append sorted_append)
  then have "finite (dom (subscribers ?s))" using actor_run_ok [OF assms(1) pre(1,2)] by (simp add: actor_ok_def)
  moreover have "\<forall>n \<in> set (pose_times [x]). \<forall>t \<in> set ?ts. t \<le> n"
    using snoc.prems(3) offences_times [of enum a xs "new_presence_actor reach room" "[]"]
    by (auto simp: pose_times_append sorted_append)
  ultimately show ?case
    using offences_step_ok [OF assms(1) _ snoc.IH [OF pre]] by (simp add: offences_append actor_run_def)
qed

section \<open>What an agent's publications become\<close>

definition frames_to :: "nat \<Rightarrow> mail \<Rightarrow> bytes list" where
  "frames_to r m = concat (map (\<lambda>(q, msg). case msg of FrameOut bs _ \<Rightarrow> (if q = r then [bs] else []) | EventOut _ \<Rightarrow> []) m)"

text \<open>A receiver of \<open>0x44\<close> frames and the state it holds for one local id.\<close>

definition view_frame :: "u32 \<Rightarrow> bytes \<Rightarrow> agent_presence \<Rightarrow> agent_presence" where
  "view_frame i bs v =
     (case decode_agent_presence bs of
        Inl _ \<Rightarrow> v
      | Inr b \<Rightarrow> fold (\<lambda>d v. if ad_local_id d = i then agent_apply d v else v) (ab_deltas b) v)"

fun publish_all :: "key_order \<Rightarrow> mailboxes \<Rightarrow> string \<Rightarrow> (instant \<times> agent_presence) list \<Rightarrow> presence_actor \<Rightarrow> presence_actor \<times> mail" where
  "publish_all enum env a [] s = (s, [])"
| "publish_all enum env a ((t, p) # ps) s =
     (let (s1, m) = snd (handle_agent_presence enum env t a p s); (s2, m') = publish_all enum env a ps s1 in (s2, m @ m'))"

lemma frames_to_append [simp]: "frames_to r (m @ m') = frames_to r m @ frames_to r m'"
  by (simp add: frames_to_def)

lemma frames_to_Nil [simp]: "frames_to r [] = []"
  by (simp add: frames_to_def)

lemma empty_delta_applies: "delta_is_empty d \<Longrightarrow> agent_apply (wire_delta d) v = v"
  by (simp add: delta_is_empty_def field_mask_bits agent_apply_def wire_delta_def unwrap_or_def)

text \<open>One recipient among the members, and what a send to every other member leaves in its mailbox.\<close>

lemma frames_to_one:
  assumes "distinct bs" and "b \<in> set bs" and "b \<noteq> a" and "connected env (r b)"
    and "\<forall>c \<in> set bs. r c = r b \<longrightarrow> c = b"
  shows "frames_to (r b) (concat (map (\<lambda>c. if Some c = Some a then [] else do_send env (r c) (FrameOut x sq)) bs)) = [x]"
proof -
  let ?f = "\<lambda>cs. concat (map (\<lambda>c. if Some c = Some a then [] else do_send env (r c) (FrameOut x sq)) cs)"
  have other: "frames_to (r b) (concat (map (\<lambda>c. if Some c = Some a then [] else do_send env (r c) (FrameOut x sq)) cs)) = []"
    if "b \<notin> set cs" "set cs \<subseteq> set bs" for cs
    using that assms(5) by (induction cs) (auto simp: frames_to_def do_send_def)
  obtain us vs where bs: "bs = us @ b # vs" using assms(2) by (metis split_list)
  have "b \<notin> set us" "b \<notin> set vs" using assms(1) bs by auto
  then have "frames_to (r b) (?f us) = []" "frames_to (r b) (?f vs) = []"
    using other [of us] other [of vs] by (auto simp: bs)
  moreover have "?f bs = ?f us @ do_send env (r b) (FrameOut x sq) @ ?f vs" using bs assms(3) by simp
  moreover have "frames_to (r b) (do_send env (r b) (FrameOut x sq)) = [x]"
    using assms(4) by (simp add: do_send_def frames_to_def)
  ultimately show ?thesis by simp
qed

definition published :: "u32 \<Rightarrow> string \<Rightarrow> agent_presence \<Rightarrow> presence_actor \<Rightarrow> agent_delta" where
  "published i a p s = (case agent_entries s a of None \<Rightarrow> full_delta i p | Some e \<Rightarrow> agent_between i (ae_last e) p)"

lemma published_id [simp]: "ad_local_id (published i a p s) = i"
  by (simp add: published_def full_delta_def agent_between_def split: option.split)

lemma agent_step:
  fixes t :: instant
  assumes enum: "lists_keys enum" and fin: "finite (dom (subscribers s))" and a: "subscribers s a \<noteq> None"
    and i: "avatar_id_to_local s a = Some i" and b: "b \<in> dom (subscribers s)" "b \<noteq> a"
    and con: "connected env (frame_recipient (the (subscribers s b)))"
    and uniq: "\<forall>c \<in> dom (subscribers s). frame_recipient (the (subscribers s c)) = frame_recipient (the (subscribers s b)) \<longrightarrow> c = b"
    and p: "check_node_correlation p = Ok ()"
  defines "r \<equiv> handle_agent_presence enum env t a p s"
  shows "fold (view_frame i) (frames_to (frame_recipient (the (subscribers s b))) (snd (snd r))) v
      = agent_apply (wire_delta (published i a p s)) v
    \<and> agent_entries (fst (snd r)) a = Some \<lparr>ae_last = p, ae_last_seen = t\<rparr>
    \<and> subscribers (fst (snd r)) = subscribers s \<and> avatar_id_to_local (fst (snd r)) = avatar_id_to_local s"
proof -
  let ?d = "published i a p s" and ?rb = "frame_recipient (the (subscribers s b))"
  let ?s2 = "s\<lparr>agent_entries := (agent_entries s)(a \<mapsto> \<lparr>ae_last = p, ae_last_seen = t\<rparr>)\<rparr>"
  obtain sub where sub: "subscribers s a = Some sub" using a by blast
  have r: "r = (if delta_is_empty ?d then (Unchanged, ?s2, [])
      else (Broadcast (field_mask ?d), broadcast_agent_presence enum env [?d] (Some a) ?s2))"
    using sub p by (simp add: r_def handle_agent_presence_def local_id_known [OF i] published_def Let_def split_beta split: option.split)
  have "attention_len x \<le> 5" for x by (cases x) simp_all
  then have "(case ad_attention ?d of None \<Rightarrow> 0 | Some x \<Rightarrow> attention_len x) \<le> 5" by (simp split: option.split)
  then have "delta_len ?d \<le> 17" unfolding delta_len_def by simp
  then have "10 + sum_list (map delta_len [?d]) \<le> 65535" by simp
  from encode_decode_agents [OF this, of "agent_presence_sequence s + 1"] obtain bs where bs:
    "encode_agent_presence (agent_presence_sequence s + 1) [?d] = Ok bs"
    "decode_agent_presence bs = Ok \<lparr>ab_seq = agent_presence_sequence s + 1, ab_deltas = [wire_delta ?d]\<rparr>" by auto
  have "set (enum (dom (subscribers s))) = dom (subscribers s)" "distinct (enum (dom (subscribers s)))"
    using enum fin by (simp_all add: lists_keys_def)
  with frames_to_one [of "enum (dom (subscribers s))" b a env "\<lambda>c. frame_recipient (the (subscribers s c))" bs "agent_presence_sequence s + 1"]
  have one: "frames_to ?rb (snd (broadcast_agent_presence enum env [?d] (Some a) ?s2)) = [bs]"
    using b con uniq by (simp add: broadcast_agent_presence_def bs(1) Let_def cong: if_cong)
  have wid: "ad_local_id (wire_delta ?d) = i" by (simp add: wire_delta_def)
  have st: "agent_entries (fst (broadcast_agent_presence enum env [?d] (Some a) ?s2)) = agent_entries ?s2"
    "subscribers (fst (broadcast_agent_presence enum env [?d] (Some a) ?s2)) = subscribers s"
    "avatar_id_to_local (fst (broadcast_agent_presence enum env [?d] (Some a) ?s2)) = avatar_id_to_local s"
    by (simp_all add: broadcast_agent_presence_def bs(1) count_frame_def Let_def)
  show ?thesis
  proof (cases "delta_is_empty ?d")
    case True
    then show ?thesis by (simp add: r frames_to_def empty_delta_applies)
  next
    case False
    then show ?thesis by (simp add: r one st view_frame_def bs(2) wid)
  qed
qed

lemma publish_follows:
  assumes enum: "lists_keys enum" and "finite (dom (subscribers s))" and "subscribers s a \<noteq> None"
    and "avatar_id_to_local s a = Some i" and b: "b \<in> dom (subscribers s)" "b \<noteq> a"
    and "connected env (frame_recipient (the (subscribers s b)))"
    and "\<forall>c \<in> dom (subscribers s). frame_recipient (the (subscribers s c)) = frame_recipient (the (subscribers s b)) \<longrightarrow> c = b"
    and "\<forall>p \<in> set ps. check_node_correlation (snd p) = Ok ()"
    and "agent_entries s a = Some e"
  shows "fold (view_frame i) (frames_to (frame_recipient (the (subscribers s b))) (snd (publish_all enum env a ps s))) v
      = follow_deltas (agent_between i) (\<lambda>d. agent_apply (wire_delta d)) (ae_last e) (map snd ps) v
    \<and> map_option ae_last (agent_entries (fst (publish_all enum env a ps s)) a) = Some (last (ae_last e # map snd ps))"
  using assms
proof (induction ps arbitrary: s e v)
  case (Cons tp ps)
  obtain t p where tp: "tp = (t, p)" by (cases tp)
  have p: "check_node_correlation p = Ok ()" using Cons.prems(9) tp by simp
  let ?s = "fst (snd (handle_agent_presence enum env t a p s))"
  note st = agent_step [OF Cons.prems(1-8) p]
  have sub: "subscribers ?s = subscribers s" "avatar_id_to_local ?s = avatar_id_to_local s"
    and ent: "agent_entries ?s a = Some \<lparr>ae_last = p, ae_last_seen = t\<rparr>" using st by blast+
  have pub: "published i a p s = agent_between i (ae_last e) p" using Cons.prems(10) by (simp add: published_def)
  have "fold (view_frame i) (frames_to (frame_recipient (the (subscribers ?s b))) (snd (publish_all enum env a ps ?s))) w
      = follow_deltas (agent_between i) (\<lambda>d. agent_apply (wire_delta d)) p (map snd ps) w
    \<and> map_option ae_last (agent_entries (fst (publish_all enum env a ps ?s)) a) = Some (last (p # map snd ps))" for w
    using Cons.IH [of ?s "\<lparr>ae_last = p, ae_last_seen = t\<rparr>" w] Cons.prems ent unfolding sub by simp
  then show ?case
    using st [of t v] unfolding sub tp pub by (simp add: split_beta Let_def)
qed simp

lemma sorted_lists_keys: "lists_keys sorted_list_of_set"
  by (simp add: lists_keys_def)

section \<open>A sample room\<close>

text \<open>Two members, joined one after the other, for the concrete instances of the properties.\<close>

definition sample_did :: "char \<Rightarrow> string" where
  "sample_did c = ''did:nostr:'' @ replicate 64 c"

definition sample_metadata :: "char \<Rightarrow> avatar_metadata" where
  "sample_metadata c = \<lparr>md_did = sample_did c, display_name = [], model_uri = None\<rparr>"

abbreviation open_mailboxes :: mailboxes where
  "open_mailboxes \<equiv> \<lparr>connected = \<lambda>_. True, accepts = \<lambda>_. True\<rparr>"

definition sample_history :: "(mailboxes \<times> actor_op) list" where
  "sample_history = [(open_mailboxes, JoinRoom (sample_did (CHR ''a'')) (sample_metadata (CHR ''a'')) 1 2),
                     (open_mailboxes, JoinRoom (sample_did (CHR ''b'')) (sample_metadata (CHR ''b'')) 3 4)]"

definition sample_actor :: presence_actor where
  "sample_actor = actor_run sorted_list_of_set sample_history (new_presence_actor 0x3FC00000 ''r'')"

abbreviation sample_avatar :: "char \<Rightarrow> string" where
  "sample_avatar c \<equiv> avatar_from_did (sample_did c)"

lemma sample_dids: "valid_did (sample_did (CHR ''a''))" "valid_did (sample_did (CHR ''b''))"
  "md_did (sample_metadata c) = sample_did c" "sample_avatar (CHR ''a'') \<noteq> sample_avatar (CHR ''b'')"
  "sample_did (CHR ''a'') \<noteq> sample_did (CHR ''b'')"
  by (simp_all add: valid_did_iff sample_did_def sample_metadata_def avatar_from_did_def did_pubkey_hex_def
      is_hex_def list_all_iff is_ascii_hexdigit_def)

lemma sample_honest: "\<forall>x \<in> set sample_history. honest_op (snd x)" "2 * length sample_history + 1 < 2 ^ 32"
  using sample_dids by (simp_all add: sample_history_def)

lemma join_fresh:
  assumes "lists_keys enum" and "actor_ok s" and "id_load s + 2 < 2 ^ 32" and "valid_did d" and "md_did m = d"
    and "did_index (pa_room s) d = None" and "avatar_id_to_local s (avatar_from_did d) = None"
  shows "fst (snd (handle_join enum env d m fr er s)) =
    (joined_actor (avatar_from_did d) (snd (join d m (pa_room s))) fr er s)
      \<lparr>next_local_id := next_local_id s + 1,
       avatar_id_to_local := (avatar_id_to_local s)(avatar_from_did d \<mapsto> next_local_id s)\<rparr>"
  using join_step_ok [OF assms(1-5), of env fr er] assms(6,7)
  by (simp add: local_id_for_def joined_actor_def Let_def)

lemma sample_actor_facts:
  "subscribers sample_actor = [sample_avatar (CHR ''a'') \<mapsto> \<lparr>frame_recipient = 1, event_recipient = 2, queue_depth = 0, violations = []\<rparr>,
     sample_avatar (CHR ''b'') \<mapsto> \<lparr>frame_recipient = 3, event_recipient = 4, queue_depth = 0, violations = []\<rparr>]"
  "avatar_id_to_local sample_actor = [sample_avatar (CHR ''a'') \<mapsto> 1, sample_avatar (CHR ''b'') \<mapsto> 2]"
  "agent_entries sample_actor = Map.empty" "bounds sample_actor = symmetric_aabb 0x42480000"
  "Option.bind (members (pa_room sample_actor) (sample_avatar (CHR ''a''))) last_frame = None"
  "pa_room_id sample_actor = ''r''"
proof -
  let ?a = "CHR ''a''" and ?b = "CHR ''b''"
  let ?s0 = "new_presence_actor 0x3FC00000 ''r''"
  define s1 where "s1 = fst (snd (handle_join sorted_list_of_set open_mailboxes (sample_did ?a) (sample_metadata ?a) 1 2 ?s0))"
  have s0: "actor_ok ?s0" "id_load ?s0 + 2 < 2 ^ 32" "did_index (pa_room ?s0) d = None" "avatar_id_to_local ?s0 x = None" for d x
    using new_actor_ok by (simp_all add: new_presence_actor_def new_room_def)
  note j1 = join_fresh [OF sorted_lists_keys s0(1,2) sample_dids(1) sample_dids(3) s0(3,4), of open_mailboxes 1 2, folded s1_def]
  have ok1: "actor_ok s1" "id_load s1 + 2 < 2 ^ 32"
    using join_step_ok [OF sorted_lists_keys s0(1,2) sample_dids(1) sample_dids(3), of open_mailboxes 1 2, folded s1_def] new_actor_ok by auto
  have idx: "did_index (pa_room s1) (sample_did ?b) = None" "avatar_id_to_local s1 (sample_avatar ?b) = None"
    using sample_dids(4,5) unfolding j1
    by (simp_all add: joined_actor_def new_presence_actor_def new_room_def join_def Let_def)
  note j2 = join_fresh [OF sorted_lists_keys ok1 sample_dids(2) sample_dids(3) idx, of open_mailboxes 3 4]
  have s: "sample_actor = fst (snd (handle_join sorted_list_of_set open_mailboxes (sample_did ?b) (sample_metadata ?b) 3 4 s1))"
    by (simp add: sample_actor_def sample_history_def actor_run_def s1_def)
  show "subscribers sample_actor = [sample_avatar ?a \<mapsto> \<lparr>frame_recipient = 1, event_recipient = 2, queue_depth = 0, violations = []\<rparr>,
     sample_avatar ?b \<mapsto> \<lparr>frame_recipient = 3, event_recipient = 4, queue_depth = 0, violations = []\<rparr>]"
    "avatar_id_to_local sample_actor = [sample_avatar ?a \<mapsto> 1, sample_avatar ?b \<mapsto> 2]"
    "agent_entries sample_actor = Map.empty" "bounds sample_actor = symmetric_aabb 0x42480000"
    "Option.bind (members (pa_room sample_actor) (sample_avatar ?a)) last_frame = None"
    "pa_room_id sample_actor = ''r''"
    using sample_dids(4,5) unfolding s [unfolded j2] unfolding j1
    by (simp_all add: joined_actor_def new_presence_actor_def new_room_def join_def Let_def)
qed




section \<open>Properties\<close>


text \<open>
  C9. The room, its subscribers and the local ids agree after every history of joins, leaves,
  poses (good and bad), agent updates, sweeps and ticks, whatever the mailboxes do: the members of
  the room are the subscribers and are counted, every member has a local id and no two share one
  (for histories too short to wrap the 32-bit counter), no pose is left waiting, and a frame or
  an agent update from anybody else is refused, changes nothing and reaches nobody.
\<close>
theorem presence_actor_integrity:
  assumes "lists_keys enum" and "\<forall>x \<in> set xs. honest_op (snd x)" and "2 * length xs + 1 < 2 ^ 32"
    and "s = actor_run enum xs (new_presence_actor reach i)"
  shows "dom (members (pa_room s)) = dom (subscribers s)
    \<and> member_count_stat (pa_stats s) = card (dom (subscribers s))
    \<and> dom (subscribers s) \<subseteq> dom (avatar_id_to_local s)
    \<and> inj_on (avatar_id_to_local s) (dom (avatar_id_to_local s))
    \<and> pending_poses s = Map.empty
    \<and> (\<forall>a env now bs p. subscribers s a = None \<longrightarrow>
         handle_ingest enum env now a bs s = (ValidationFailed NotAMember, s, [])
       \<and> handle_agent_presence enum env now a p s = (PermissionDenied, s, []))"
proof -
  have "actor_ok s" using actor_run_ok [OF assms(1-3)] assms(4) by blast
  then show ?thesis by (simp add: actor_ok_def handle_ingest_def handle_agent_presence_def)
qed

theorem presence_actor_integrity_witness:
  "member_count_stat (pa_stats sample_actor) = 2
    \<and> fst (handle_ingest sorted_list_of_set open_mailboxes 0 ''x'' [] sample_actor) = ValidationFailed NotAMember"
proof -
  have x: "subscribers sample_actor ''x'' = None" by (simp add: sample_actor_facts avatar_from_did_def)
  have c: "card (dom (subscribers sample_actor)) = 2"
    using sample_dids(4) by (simp add: sample_actor_facts)
  note p = presence_actor_integrity [OF sorted_lists_keys sample_honest sample_actor_def]
  show ?thesis using p x c by simp
qed



text \<open>
  C20. A member is kicked by its tenth bad frame within a second and not before. A frame is bad when
  it does not decode, names another avatar or is rejected by a validator. After any history of the
  room, with clock readings that never go back, a bad frame at time \<open>now\<close> kicks its sender exactly
  when ten or more bad frames of this sender since it joined, this one included, fall in the last
  second; otherwise it is refused and the sender stays. A frame that is not bad never kicks.
\<close>
theorem tenth_bad_frame_kicks:
  fixes enum :: key_order and env :: mailboxes and bs :: bytes
  assumes "lists_keys enum" and "\<forall>x \<in> set xs. honest_op (snd x)" and "2 * length xs + 1 < 2 ^ 32"
    and "sorted (pose_times xs @ [now])"
    and s: "s = actor_run enum xs (new_presence_actor reach room)" and sub: "subscribers s a \<noteq> None"
    and bad: "bad = offences enum a xs (new_presence_actor reach room) []"
  defines "r \<equiv> handle_ingest enum env now a bs s"
  shows "case offence s a bs of
      None \<Rightarrow> \<forall>e. fst r \<noteq> Kick e
    | Some e \<Rightarrow> fst r = (if 10 \<le> strikes bad now then Kick e else refused_as e)
        \<and> (subscribers (fst (snd r)) a = None \<longleftrightarrow> 10 \<le> strikes bad now)"
proof (cases "offence s a bs")
  case None
  have "fst (relay_pose enum env a bs f t) \<noteq> Kick e" for f t e
    by (simp add: relay_pose_def Let_def split_beta split: sum.split prod.split)
  then show ?thesis using ingest_no_offence [OF sub None, of enum env now] None by (auto simp: r_def)
next
  case (Some e)
  obtain sub' where sub': "subscribers s a = Some sub'" using sub by blast
  have "strikes_ok a s bad"
    using offences_ok [OF assms(1-3)] assms(4) unfolding s bad by (simp add: sorted_append)
  then have mem: "remembers sub' bad" using sub' by (simp add: strikes_ok_def)
  have "\<forall>t \<in> set bad. t \<le> now"
    using offences_times [of enum a xs "new_presence_actor reach room" "[]"] assms(4) by (auto simp: bad sorted_append)
  from bad_frame_counts [OF Some sub' mem this, of enum env] show ?thesis
    unfolding r_def Some by (auto split: if_splits)
qed

theorem tenth_bad_frame_kicks_witness:
  "fst (handle_ingest sorted_list_of_set open_mailboxes 0 (sample_avatar (CHR ''a'')) []
      (actor_run sorted_list_of_set (sample_history @ replicate 9 (open_mailboxes, IngestPose 0 (sample_avatar (CHR ''a'')) []))
        (new_presence_actor 0x3FC00000 ''r'')))
    = Kick (UndecodableFrame (TooShort 29 0))"
proof -
  let ?a = "sample_avatar (CHR ''a'')" and ?init = "new_presence_actor 0x3FC00000 ''r''"
  let ?xs = "\<lambda>n. sample_history @ replicate n (open_mailboxes, IngestPose 0 ?a [])"
  let ?s = "\<lambda>n. actor_run sorted_list_of_set (?xs n) ?init"
  have off: "offence s ?a [] = Some (UndecodableFrame (TooShort 29 0))" for s by (simp add: offence_def decode_pose_def)
  have k: "strikes (replicate n 0) 0 = Suc n" for n by (simp add: strikes_def within_def)
  have times: "pose_times (?xs n) = replicate n 0" for n
  proof -
    have "pose_times (replicate n (open_mailboxes, IngestPose 0 ?a [])) = replicate n 0"
      by (induction n) (simp_all add: pose_times_def List.map_filter_simps)
    moreover have "pose_times sample_history = []" by (simp add: pose_times_def sample_history_def List.map_filter_simps)
    ultimately show ?thesis by (simp only: pose_times_append append_Nil)
  qed
  have honest: "\<forall>x \<in> set (?xs n). honest_op (snd x)" "2 * length (?xs n) + 1 < 2 ^ 32" "sorted (pose_times (?xs n) @ [0])" if "n \<le> 9" for n
  proof -
    have "length sample_history < 100" by (simp add: sample_history_def)
    then show "2 * length (?xs n) + 1 < 2 ^ 32" using that by simp
  qed (use sample_honest in \<open>auto simp: times sorted_append\<close>)
  have none: "set (offences sorted_list_of_set ?a sample_history ?init []) \<subseteq> set (pose_times sample_history)"
    using offences_times [of sorted_list_of_set ?a sample_history ?init "[]"] by simp
  have "subscribers (?s n) ?a \<noteq> None \<and> offences sorted_list_of_set ?a (?xs n) ?init [] = replicate n 0" if "n \<le> 9" for n
    using that
  proof (induction n)
    case 0
    have "?s 0 = sample_actor" by (simp add: sample_actor_def)
    then show ?case using none by (simp add: sample_actor_facts pose_times_def sample_history_def List.map_filter_simps)
  next
    case (Suc n)
    then have IH: "subscribers (?s n) ?a \<noteq> None" "offences sorted_list_of_set ?a (?xs n) ?init [] = replicate n 0" by simp_all
    have xs: "?xs (Suc n) = ?xs n @ [(open_mailboxes, IngestPose 0 ?a [])]" by (simp add: replicate_append_same [symmetric])
    note t = tenth_bad_frame_kicks [OF sorted_lists_keys honest refl IH(1) IH(2) [symmetric], where env = open_mailboxes and bs = "[]"]
    have "subscribers (?s (Suc n)) ?a \<noteq> None" using t Suc.prems off k [of n] unfolding xs by (simp add: actor_run_def)
    moreover have "offences sorted_list_of_set ?a (?xs (Suc n)) ?init [] = replicate n 0 @ [0]"
      unfolding xs offences_append [of _ _ "?xs n"] IH(2) using IH(1) off by simp
    ultimately show ?case by (simp add: replicate_append_same)
  qed
  note nine = this [of 9, simplified]
  show ?thesis
    using tenth_bad_frame_kicks [where a = ?a and env = open_mailboxes and bs = "[]", OF sorted_lists_keys honest [of 9] refl _ refl] nine off k [of 9] by simp
qed

text \<open>
  C21. The others see what an agent publishes: a member that is in the room when an agent publishes
  for the first time, and stays connected, ends with the agent's last published state as the
  quantiser leaves it, whatever it held before and however many of the updates changed nothing.
\<close>
theorem peers_follow_an_agent:
  assumes enum: "lists_keys enum" and "\<forall>x \<in> set xs. honest_op (snd x)" and "2 * length xs + 1 < 2 ^ 32"
    and s: "s = actor_run enum xs (new_presence_actor reach room)" and a: "avatar_id_to_local s a = Some i" "subscribers s a \<noteq> None"
    and b: "b \<in> dom (subscribers s)" "b \<noteq> a" "connected env (frame_recipient (the (subscribers s b)))"
    and uniq: "\<forall>c \<in> dom (subscribers s). frame_recipient (the (subscribers s c)) = frame_recipient (the (subscribers s b)) \<longrightarrow> c = b"
    and ps: "\<forall>p \<in> set (p # ps). check_node_correlation (snd p) = Ok ()" and new: "agent_entries s a = None"
  shows "fold (view_frame i) (frames_to (frame_recipient (the (subscribers s b))) (snd (publish_all enum env a (p # ps) s))) v
      = wire_presence (snd (last (p # ps)))
    \<and> map_option ae_last (agent_entries (fst (publish_all enum env a (p # ps) s)) a) = Some (snd (last (p # ps)))"
proof -
  have fin: "finite (dom (subscribers s))" using actor_run_ok [OF enum assms(2,3)] s by (simp add: actor_ok_def)
  obtain t q where p: "p = (t, q)" by (cases p)
  have q: "check_node_correlation q = Ok ()" and rest: "\<forall>p \<in> set ps. check_node_correlation (snd p) = Ok ()" using ps p by simp_all
  let ?s = "fst (snd (handle_agent_presence enum env t a q s))"
  note st = agent_step [OF enum fin a(2,1) b uniq q, of t]
  have sub: "subscribers ?s = subscribers s" "avatar_id_to_local ?s = avatar_id_to_local s"
    and ent: "agent_entries ?s a = Some \<lparr>ae_last = q, ae_last_seen = t\<rparr>" using st by blast+
  note follow = publish_follows [of enum ?s a i b env ps "\<lparr>ae_last = q, ae_last_seen = t\<rparr>", unfolded sub,
      OF enum fin a(2,1) b uniq rest ent]
  have "published i a q s = full_delta i q" using new by (simp add: published_def)
  then have "fold (view_frame i) (frames_to (frame_recipient (the (subscribers s b))) (snd (publish_all enum env a (p # ps) s))) v
      = follow_deltas (agent_between i) (\<lambda>d. agent_apply (wire_delta d)) q (map snd ps) (wire_presence q)"
    using st [of v] follow by (simp add: p split_beta Let_def full_delta_sets)
  also have "\<dots> = wire_presence (last (q # map snd ps))"
    by (rule agent_deltas.follow_sim [OF refl chain_of_True])
  finally have view: "fold (view_frame i) (frames_to (frame_recipient (the (subscribers s b))) (snd (publish_all enum env a (p # ps) s))) v
      = wire_presence (last (q # map snd ps))" .
  have "last (q # map snd ps) = snd (last (p # ps))" by (cases ps) (simp_all add: p last_map)
  moreover have "fst (publish_all enum env a (p # ps) s) = fst (publish_all enum env a ps ?s)"
    by (simp add: p split_beta Let_def)
  ultimately show ?thesis using view follow by simp
qed

theorem peers_follow_an_agent_witness:
  "let p = \<lparr>ap_state = Working, ap_gaze = (0, 0, 0), ap_attention = AttendUser\<rparr>;
       q = \<lparr>ap_state = Idle, ap_gaze = (0, 0, 0), ap_attention = AttendNode 7\<rparr>
   in fold (view_frame 1) (frames_to 3 (snd (publish_all sorted_list_of_set open_mailboxes (sample_avatar (CHR ''a''))
        [(0, p), (1, q)] sample_actor)))
        \<lparr>ap_state = Speaking, ap_gaze = (0, 0, 0), ap_attention = NoAttention\<rparr> = wire_presence q"
proof -
  let ?a = "sample_avatar (CHR ''a'')" and ?b = "sample_avatar (CHR ''b'')"
  have sub: "subscribers sample_actor ?a \<noteq> None" "?b \<in> dom (subscribers sample_actor)" "?b \<noteq> ?a"
    "avatar_id_to_local sample_actor ?a = Some 1" "frame_recipient (the (subscribers sample_actor ?b)) = 3"
    "agent_entries sample_actor ?a = None"
    "\<forall>c \<in> dom (subscribers sample_actor). frame_recipient (the (subscribers sample_actor c))
        = frame_recipient (the (subscribers sample_actor ?b)) \<longrightarrow> c = ?b"
    using sample_dids(4) by (auto simp: sample_actor_facts)
  show ?thesis
    using peers_follow_an_agent [OF sorted_lists_keys sample_honest sample_actor_def sub(4,1,2,3) _ sub(7) _ sub(6),
        of open_mailboxes "(0, \<lparr>ap_state = Working, ap_gaze = (0, 0, 0), ap_attention = AttendUser\<rparr>)"
          "[(1, \<lparr>ap_state = Idle, ap_gaze = (0, 0, 0), ap_attention = AttendNode 7\<rparr>)]"
          "\<lparr>ap_state = Speaking, ap_gaze = (0, 0, 0), ap_attention = NoAttention\<rparr>"] sub(5)
    by (simp add: Let_def check_node_correlation_def WIRE_NODE_ID_MASK_def)
qed

text \<open>
  A member that leaves and comes back gets a new local id, but its social state is still the one it
  left with: publishing that state again is reported as unchanged and put on no wire, so nobody
  learns the state of the avatar that now carries the new id.
\<close>
theorem rejoined_agent_is_invisible:
  assumes enum: "lists_keys enum" and "\<forall>x \<in> set xs. honest_op (snd x)" and "2 * length xs + 3 < 2 ^ 32"
    and s: "s = actor_run enum xs (new_presence_actor reach room)"
    and d: "valid_did d" "md_did m = d" and a: "subscribers s (avatar_from_did d) \<noteq> None"
    and e: "agent_entries s (avatar_from_did d) = Some e" "check_node_correlation (ae_last e) = Ok ()"
  shows "let s1 = fst (handle_leave enum env (avatar_from_did d) s);
             s2 = fst (snd (handle_join enum env d m fr er s1));
             r = handle_agent_presence enum env now (avatar_from_did d) (ae_last e) s2
         in subscribers s2 (avatar_from_did d) \<noteq> None
            \<and> avatar_id_to_local s2 (avatar_from_did d) \<noteq> avatar_id_to_local s (avatar_from_did d)
            \<and> fst r = Unchanged \<and> snd (snd r) = []"
proof -
  let ?a = "avatar_from_did d"
  have ok: "actor_ok s" "id_load s + 2 < 2 ^ 32" using actor_run_ok [OF enum assms(2), of reach room] assms(3) s by auto
  define s1 where "s1 = fst (handle_leave enum env ?a s)"
  have s1: "avatar_id_to_local s1 = (avatar_id_to_local s)(?a := None)" "agent_entries s1 = agent_entries s"
    "next_local_id s1 = next_local_id s" "pa_room s1 = snd (leave ?a (pa_room s))"
    using a by (auto simp: s1_def handle_leave_def cleanup_subscriber_def shutdown_if_empty_def Let_def split_beta)
  have ok1: "actor_ok s1" "id_load s1 + 2 < 2 ^ 32"
    using leave_keeps [of "id_load s" s enum env ?a] ok by (simp_all add: keeps_def s1_def)
  have inv: "room_inv (pa_room s)" and mem: "dom (members (pa_room s)) = dom (subscribers s)" using ok by (simp_all add: actor_ok_def)
  have "did_index (pa_room s1) d = None"
  proof (rule ccontr)
    assume "did_index (pa_room s1) d \<noteq> None"
    then obtain b where "did_index (pa_room s1) d = Some b" by blast
    moreover have "room_inv (pa_room s1)" using ok1(1) by (simp add: actor_ok_def)
    ultimately have "members (pa_room s1) ?a \<noteq> None" unfolding room_inv_def by blast
    then show False by (simp add: s1(4) leave_members)
  qed
  note j = join_fresh [OF enum ok1 d this, of env fr er]
  obtain i where i: "avatar_id_to_local s ?a = Some i" using ok(1) a by (auto simp: actor_ok_def)
  then have "unat i < unat (next_local_id s)" using ok(1) by (simp add: actor_ok_def)
  then have new: "next_local_id s \<noteq> i" by auto
  define s2 where "s2 = fst (snd (handle_join enum env d m fr er s1))"
  have s2: "subscribers s2 ?a \<noteq> None" "avatar_id_to_local s2 ?a = Some (next_local_id s)" "agent_entries s2 ?a = Some e"
    using j e(1) by (simp_all add: s2_def s1 joined_actor_def Let_def)
  have "delta_is_empty (agent_between l p p)" for l p
    by (simp add: delta_is_empty_def field_mask_bits agent_between_def then_some_def)
  then have "fst (handle_agent_presence enum env now ?a (ae_last e) s2) = Unchanged"
    "snd (snd (handle_agent_presence enum env now ?a (ae_last e) s2)) = []"
    using s2 e(2) by (simp_all add: handle_agent_presence_def local_id_known Let_def)
  then show ?thesis unfolding s1_def [symmetric] s2_def [symmetric] Let_def using s2 new i by simp
qed

text \<open>
  Bytes after the declared end of a pose frame pass every check and are relayed to every member:
  the decoder reads the declared length only, and the relayed payload is the rest of the buffer.
\<close>
theorem trailing_bytes_are_relayed:
  assumes "actor_ok s" and "lists_keys enum" and "subscribers s a = Some sub"
    and "encode_pose f (pa_room_id s) a = Ok bs" and "run_validators s a f = Ok ()"
    and "\<forall>r. accepts env r \<longrightarrow> connected env r"
  shows "\<exists>fr. fst (handle_ingest enum env now a (bs @ junk) s) = Accepted
    \<and> filter is_frame (snd (snd (handle_ingest enum env now a (bs @ junk) s)))
      = map (\<lambda>b. (frame_recipient (the (subscribers s b)), FrameOut (fr @ junk) (broadcast_sequence s + 1)))
          (filter (\<lambda>b. b \<noteq> a \<and> accepts env (frame_recipient (the (subscribers s b)))) (enum (dom (subscribers s))))"
proof -
  obtain i where i: "avatar_id_to_local s a = Some i" using assms(1,3) by (auto simp: actor_ok_def)
  let ?fr = "OPCODE_AVATAR_POSE # u64_le (broadcast_sequence s + 1) @ take 4 (wire_hash (pa_room_id s)) @ u16_le 1 @ u32_le i
      @ u64_le (timestamp_us f) @ [slot_mask f] @ write_transform (head f) @ opt_bytes (left_hand f) @ opt_bytes (right_hand f)"
  show ?thesis using ingest_relays [OF assms i, of now junk] by (intro exI [of _ ?fr]) simp
qed

end
