(* ===== verification/Rbac.thy ===== *)
theory Rbac
  imports Prelude
begin

text \<open>
  Roles and the central gate: \<open>src/models/rbac.rs\<close> (the role lattice),
  \<open>src/utils/auth.rs\<close> (access levels and permissions) and the path policy of
  \<open>src/middleware/rbac_gate.rs\<close>. The HTTP method type and its \<open>is_safe\<close> belong to an
  external package: a method is its name, and \<open>safe\<close> is a parameter. Verifying a request's
  signature is not modelled; the theorems start from the role of the verified caller.
\<close>

section \<open>Roles and levels\<close>

datatype user_role = Viewer | Editor | AdminRole | Owner

fun role_level :: "user_role \<Rightarrow> u8" where
  "role_level Viewer = 1"
| "role_level Editor = 2"
| "role_level AdminRole = 3"
| "role_level Owner = 4"

definition default_authenticated :: user_role where
  "default_authenticated = Editor"

definition satisfies :: "user_role \<Rightarrow> user_role \<Rightarrow> bool" where
  "satisfies r required = (role_level r \<ge> role_level required)"

datatype access_level = Authenticated | PowerUser | ReadOnly | WriteGraph | WriteSettings | Admin

fun to_access_level :: "user_role \<Rightarrow> access_level" where
  "to_access_level Owner = Admin"
| "to_access_level AdminRole = Admin"
| "to_access_level Editor = Authenticated"
| "to_access_level Viewer = ReadOnly"

definition role_parse :: "string \<Rightarrow> user_role option" where
  "role_parse s =
     (let t = to_ascii_lowercase (trim s)
      in if t = ''owner'' then Some Owner
         else if t \<in> {''admin'', ''administrator''} then Some AdminRole
         else if t \<in> {''editor'', ''contributor'', ''write''} then Some Editor
         else if t \<in> {''viewer'', ''read'', ''readonly'', ''read-only''} then Some Viewer
         else None)"

fun role_str :: "user_role \<Rightarrow> string" where
  "role_str Owner = ''owner''"
| "role_str AdminRole = ''admin''"
| "role_str Editor = ''editor''"
| "role_str Viewer = ''viewer''"

definition can_assign :: "user_role \<Rightarrow> user_role \<Rightarrow> bool" where
  "can_assign r target =
     (case r of
        Owner \<Rightarrow> True
      | AdminRole \<Rightarrow> role_level target < role_level AdminRole
      | _ \<Rightarrow> False)"

fun has_permission :: "access_level \<Rightarrow> access_level \<Rightarrow> bool" where
  "has_permission l ReadOnly = True"
| "has_permission l Authenticated = True"
| "has_permission l WriteGraph = (l \<in> {WriteGraph, Admin, Authenticated, PowerUser})"
| "has_permission l WriteSettings = (l \<in> {WriteSettings, Admin, PowerUser})"
| "has_permission l Admin = (l \<in> {Admin, PowerUser})"
| "has_permission l PowerUser = (l \<in> {Admin, PowerUser})"

definition resolve_access_level :: "user_role option \<Rightarrow> bool \<Rightarrow> access_level" where
  "resolve_access_level stored is_power_user =
     (case stored of
        Some r \<Rightarrow> to_access_level r
      | None \<Rightarrow> (if is_power_user then Admin else Authenticated))"

section \<open>The path policy\<close>

fun split_slash :: "string \<Rightarrow> string list" where
  "split_slash [] = [[]]"
| "split_slash (c # cs) =
     (if c = CHR ''/'' then [] # split_slash cs
      else case split_slash cs of [] \<Rightarrow> [[c]] | s # ss \<Rightarrow> (c # s) # ss)"

definition segments :: "string \<Rightarrow> string list" where
  "segments path = filter (\<lambda>s. s \<noteq> []) (split_slash path)"

definition has_segment_prefix :: "string list \<Rightarrow> string list \<Rightarrow> bool" where
  "has_segment_prefix path_segs pre = (length path_segs \<ge> length pre \<and> take (length pre) path_segs = pre)"

definition PUBLIC_SEGMENT_PREFIXES :: "string list list" where
  "PUBLIC_SEGMENT_PREFIXES =
     [[''api'', ''auth''], [''api'', ''client-logs''], [''api'', ''health''], [''api'', ''healthz''],
      [''api'', ''readyz'']]"

definition required_level ::
  "(string \<Rightarrow> bool) \<Rightarrow> string \<Rightarrow> string \<Rightarrow> bool \<Rightarrow> access_level option" where
  "required_level safe meth path public_reads =
     (let segs = segments path
      in if list_ex (has_segment_prefix segs) PUBLIC_SEGMENT_PREFIXES then None
         else if meth = ''GET'' \<and> segs = [''api'', ''admin'', ''rbac'', ''whoami''] then Some Authenticated
         else if has_segment_prefix segs [''api'', ''admin''] then Some Admin
         else if safe meth then (if public_reads then None else Some ReadOnly)
         else if has_segment_prefix segs [''api'', ''settings''] then Some WriteSettings
         else Some WriteGraph)"

text \<open>
  \<open>public_reads_enabled\<close>: the value of the environment variable, absent as \<open>None\<close>.
  \<open>GateMode\<close> decides whether a denial is returned or only logged.
\<close>

definition public_reads_enabled :: "string option \<Rightarrow> bool" where
  "public_reads_enabled v =
     (case v of
        Some s \<Rightarrow> (let t = trim s in t = ''1'' \<or> to_ascii_lowercase t = ''true'')
      | None \<Rightarrow> False)"

datatype gate_mode = Enforce | Report

text \<open>
  The middleware's verdict for a caller with a verified access level (\<open>None\<close> when
  verification fails): whether the request reaches the wrapped service.
\<close>

definition gate_forwards :: "gate_mode \<Rightarrow> access_level option \<Rightarrow> access_level option \<Rightarrow> bool" where
  "gate_forwards m required caller =
     (case required of
        None \<Rightarrow> True
      | Some level \<Rightarrow>
          (case caller of
             Some l \<Rightarrow> has_permission l level \<or> m = Report
           | None \<Rightarrow> m = Report))"

definition role_admitted :: "(string \<Rightarrow> bool) \<Rightarrow> bool \<Rightarrow> user_role \<Rightarrow> string \<Rightarrow> string \<Rightarrow> bool" where
  "role_admitted safe public_reads r meth path =
     gate_forwards Enforce (required_level safe meth path public_reads) (Some (to_access_level r))"

section \<open>The roles are a linear order\<close>

lemma level_above_one [simp]: "\<not> (2 :: u8) \<le> 1" "\<not> (3 :: u8) \<le> 1" "\<not> (4 :: u8) \<le> 1"
  by (simp_all add: word_le_nat_alt)

instantiation user_role :: linorder
begin

definition less_eq_user_role :: "user_role \<Rightarrow> user_role \<Rightarrow> bool" where
  "a \<le> b \<longleftrightarrow> role_level a \<le> role_level b"

definition less_user_role :: "user_role \<Rightarrow> user_role \<Rightarrow> bool" where
  "a < b \<longleftrightarrow> role_level a < role_level b"

instance
proof
  fix a b :: user_role
  assume "a \<le> b" "b \<le> a"
  then show "a = b" by (cases a; cases b) (simp_all add: less_eq_user_role_def)
qed (auto simp: less_eq_user_role_def less_user_role_def)

end

section \<open>Permissions as sets of rights\<close>

text \<open>The abstract reading of the levels: what a level may do, and what a requirement needs.\<close>

datatype right = Read | MutateGraph | MutateSettings | Administer

fun rights :: "access_level \<Rightarrow> right set" where
  "rights ReadOnly = {Read}"
| "rights WriteGraph = {Read, MutateGraph}"
| "rights Authenticated = {Read, MutateGraph}"
| "rights WriteSettings = {Read, MutateSettings}"
| "rights Admin = {Read, MutateGraph, MutateSettings, Administer}"
| "rights PowerUser = {Read, MutateGraph, MutateSettings, Administer}"

fun needs :: "access_level \<Rightarrow> right set" where
  "needs ReadOnly = {Read}"
| "needs Authenticated = {Read}"
| "needs WriteGraph = {MutateGraph}"
| "needs WriteSettings = {MutateSettings}"
| "needs Admin = {Administer}"
| "needs PowerUser = {Administer}"

lemma has_permission_rights: "has_permission l req \<longleftrightarrow> needs req \<subseteq> rights l"
  by (cases req; cases l) simp_all

lemma rights_mono: "r \<le> r' \<Longrightarrow> rights (to_access_level r) \<subseteq> rights (to_access_level r')"
  by (cases r; cases r') (auto simp: less_eq_user_role_def)

lemma prefix_take: "has_segment_prefix segs pre \<longleftrightarrow> (\<exists>rest. segs = pre @ rest)"
  unfolding has_segment_prefix_def by (metis append_eq_conv_conj append_take_drop_id le_add1 length_append)

lemma not_public:
  assumes "has_segment_prefix segs [''api'', x]" and "x \<notin> {''auth'', ''client-logs'', ''health'', ''healthz'', ''readyz''}"
  shows "\<not> list_ex (has_segment_prefix segs) PUBLIC_SEGMENT_PREFIXES"
  using assms by (auto simp: PUBLIC_SEGMENT_PREFIXES_def prefix_take)

lemma role_words_plain:
  "\<forall>w \<in> {''owner'', ''admin'', ''editor'', ''viewer''}. to_ascii_lowercase (trim w) = w"
  by code_simp

lemma role_parse_str: "role_parse (role_str r) = Some r"
  using role_words_plain by (cases r) (simp_all add: role_parse_def)

lemma permission_mono: "r \<le> r' \<Longrightarrow> has_permission (to_access_level r) l \<Longrightarrow> has_permission (to_access_level r') l"
  unfolding has_permission_rights using rights_mono by blast

lemma role_admitted_iff:
  "role_admitted safe public_reads r meth path \<longleftrightarrow>
     (\<forall>l. required_level safe meth path public_reads = Some l \<longrightarrow> has_permission (to_access_level r) l)"
  by (simp add: role_admitted_def gate_forwards_def split: option.split)

section \<open>Properties\<close>

text \<open>
  C40. The gate enforces the role lattice on every path. A higher role is admitted wherever a
  lower one is; a viewer never reaches a mutating route outside the public allowlist; the
  admin surface admits only admins and owners, for every method, except reading \<open>whoami\<close>;
  and an editor never reaches a settings mutation. Only whole path segments count.
\<close>
theorem gate_enforces_roles:
  "(r \<le> r' \<and> role_admitted safe pub r meth path \<longrightarrow> role_admitted safe pub r' meth path)
   \<and> (\<not> safe meth \<and> \<not> list_ex (has_segment_prefix (segments path)) PUBLIC_SEGMENT_PREFIXES
        \<and> (meth = ''GET'' \<longrightarrow> safe ''GET'') \<longrightarrow> \<not> role_admitted safe pub Viewer meth path)
   \<and> (has_segment_prefix (segments path) [''api'', ''admin'']
        \<and> \<not> (meth = ''GET'' \<and> segments path = [''api'', ''admin'', ''rbac'', ''whoami''])
        \<longrightarrow> (role_admitted safe pub r meth path \<longleftrightarrow> AdminRole \<le> r))
   \<and> (has_segment_prefix (segments path) [''api'', ''settings''] \<and> \<not> safe meth
        \<longrightarrow> (role_admitted safe pub r meth path \<longleftrightarrow> AdminRole \<le> r))"
proof (intro conjI impI)
  assume "r \<le> r' \<and> role_admitted safe pub r meth path"
  then show "role_admitted safe pub r' meth path"
    using permission_mono by (auto simp: role_admitted_iff)
next
  assume "\<not> safe meth \<and> \<not> list_ex (has_segment_prefix (segments path)) PUBLIC_SEGMENT_PREFIXES
    \<and> (meth = ''GET'' \<longrightarrow> safe ''GET'')"
  then show "\<not> role_admitted safe pub Viewer meth path"
    by (auto simp: role_admitted_iff required_level_def Let_def)
next
  assume h: "has_segment_prefix (segments path) [''api'', ''admin'']
    \<and> \<not> (meth = ''GET'' \<and> segments path = [''api'', ''admin'', ''rbac'', ''whoami''])"
  then have "required_level safe meth path pub = Some Admin"
    using not_public [of "segments path" "''admin''"] by (simp add: required_level_def Let_def)
  then show "role_admitted safe pub r meth path \<longleftrightarrow> AdminRole \<le> r"
    by (cases r) (simp_all add: role_admitted_iff less_eq_user_role_def)
next
  assume h: "has_segment_prefix (segments path) [''api'', ''settings''] \<and> \<not> safe meth"
  then have "\<not> has_segment_prefix (segments path) [''api'', ''admin'']"
    "segments path \<noteq> [''api'', ''admin'', ''rbac'', ''whoami'']"
    by (auto simp: prefix_take)
  then have "required_level safe meth path pub = Some WriteSettings"
    using h not_public [of "segments path" "''settings''"] by (simp add: required_level_def Let_def)
  then show "role_admitted safe pub r meth path \<longleftrightarrow> AdminRole \<le> r"
    by (cases r) (simp_all add: role_admitted_iff less_eq_user_role_def)
qed

theorem gate_enforces_roles_witness:
  "let safe = (\<lambda>m. m \<in> {''GET'', ''HEAD'', ''OPTIONS'', ''TRACE''})
   in \<not> role_admitted safe True Editor ''GET'' ''/api/admin/users''
      \<and> role_admitted safe True Owner ''PUT'' ''/api/settings/x''
      \<and> \<not> role_admitted safe True Viewer ''POST'' ''/api/graph''"
proof -
  let ?safe = "\<lambda>m. m \<in> {''GET'', ''HEAD'', ''OPTIONS'', ''TRACE''}"
  have segs: "segments ''/api/admin/users'' = [''api'', ''admin'', ''users'']"
    "segments ''/api/settings/x'' = [''api'', ''settings'', ''x'']"
    "segments ''/api/graph'' = [''api'', ''graph'']"
    by (simp_all add: segments_def)
  show ?thesis
    using gate_enforces_roles [of Editor Editor ?safe True "''GET''" "''/api/admin/users''"]
      gate_enforces_roles [of Owner Owner ?safe True "''PUT''" "''/api/settings/x''"]
      gate_enforces_roles [of Viewer Viewer ?safe True "''POST''" "''/api/graph''"]
    unfolding segs Let_def
    by (simp add: has_segment_prefix_def PUBLIC_SEGMENT_PREFIXES_def less_eq_user_role_def)
qed

text \<open>
  Access levels are sets of rights: \<open>has_permission\<close> holds exactly when the rights of the
  level include what the requirement needs. The levels are not the chain that the comment on
  \<open>AccessLevel\<close> draws: a settings writer may not write the graph. Assigning roles never
  escalates: nobody assigns a role above their own, and only an owner assigns admin or owner.
\<close>
theorem access_levels_are_rights:
  "(has_permission l req \<longleftrightarrow> needs req \<subseteq> rights l)
   \<and> \<not> has_permission WriteSettings WriteGraph
   \<and> (can_assign r target \<longrightarrow> target \<le> r \<and> AdminRole \<le> r)
   \<and> (can_assign r target \<and> AdminRole \<le> target \<longrightarrow> r = Owner)"
  unfolding has_permission_rights
  by (cases r; cases target) (simp_all add: can_assign_def less_eq_user_role_def)

theorem access_levels_are_rights_witness:
  "\<not> can_assign AdminRole AdminRole \<and> can_assign Owner AdminRole \<and> AdminRole \<le> Owner"
proof -
  have "can_assign Owner AdminRole" by code_simp
  then show ?thesis
    using access_levels_are_rights [of ReadOnly ReadOnly AdminRole AdminRole]
      access_levels_are_rights [of ReadOnly ReadOnly Owner AdminRole] by auto
qed

end
