(* ===== verification/Spec2Isabelle.thy ===== *)
theory Spec2Isabelle
  imports Graph_View Hold_Registry Binary_Protocol Circuit_Breaker Rate_Limit Message_Tracker Coordinator
    Xr_Session Scc Pathfinding Reasoner Closure Broker Promotion Presence_Actor Rbac
begin

text \<open>
  VisionClaw: a server that lays out a knowledge graph and streams node positions to browsers and
  headsets, with presence rooms, a governed vault of pages and role-based access. This library
  models the decision-making parts of its Rust code and proves what makes them correct. Paths below
  are relative to the repository.

  \<^bold>\<open>How the parts interact.\<close> The physics actor publishes node positions; the client coordinator
  keeps one position stream per connected client, plans a chunk of nodes for each, encodes it on
  the frozen wire and sends it; the client filters, shows and acknowledges it, and the
  acknowledgement settles what the stream takes as held. Which nodes a client may see depends on
  their visibility and its identity: the same rule cuts the graph document down to a view, from
  which replies, gates and path queries are made. Clients hold nodes while dragging them. Around this sit the
  request limiter, the roles at the HTTP gate, the circuit breaker and the tracker of critical
  actor messages. The vault moves pages along a promotion lifecycle that needs human decisions,
  taken through broker cases; its classes are published with the superclass closure, and a reasoner
  infers axioms over an ontology. Presence rooms check the poses of avatars and relay them from one
  headset to the others, with the social state of agents beside them. Directed layouts rank the
  graph through its strongly connected components, and paths through it come from one search.

  \<^bold>\<open>Theories and sources.\<close>
  \<^item> \<open>Prelude\<close>: machine types, \<open>Result\<close>, byte and string operations of the standard library; the
    locales \<open>fixed_codec\<close> (encoders of fixed width that decode back, also in the middle of a
    buffer), \<open>guarded_component\<close> (a step function and an invariant it keeps, hence kept by every
    history) and \<open>delta_stream\<close> (applying differences follows the original).
  \<^item> \<open>Float32\<close>: \<open>f32\<close> as bit patterns, with comparison, total order, and addition, subtraction and
    multiplication rounded to nearest even. \<open>Float_Ops\<close>: division, square root and clamping, and
    the conversions to \<open>f64\<close> and back, over an integer square root. \<open>Float64\<close>: comparison of \<open>f64\<close>
    patterns and the reader of decimal texts.
  \<^item> \<open>Wire\<close>, \<open>Binary_Protocol\<close>: \<open>crates/visionclaw-wire/src/lib.rs\<close> and
    \<open>src/utils/binary_protocol.rs\<close>. Round trips, refusal of damaged frames, and that the encoder
    writes exactly the frozen layout.
  \<^item> \<open>Position_Stream\<close>: \<open>src/actors/position_stream.rs\<close>, the planner and the acknowledged state of
    one client. The plan is exactly what has news, the longest waiting goes first, held state never
    gets older, whatever is forgotten in between, and an acknowledging client comes to hold an
    up-to-date state of every node it may see; then nothing is sent.
  \<^item> \<open>Client_Manager\<close>, \<open>Coordinator\<close>: \<open>src/actors/client_coordinator_actor.rs\<close> with
    \<open>crates/visionclaw-domain/src/utils/visibility_filter.rs\<close>: clients, visibility, pumping,
    congestion and eviction, the reconnect queue, and one handler per message. Private nodes are
    never streamed and do not influence what other clients get; what is acknowledged is what the
    frame decodes to; the counters of the actor agree with its tables and with the registrations so
    far after every history.
  \<^item> \<open>Page_Links\<close>, \<open>Graph_View\<close>: the rest of \<open>visibility_filter.rs\<close> with
    \<open>src/handlers/graph_access.rs\<close>, \<open>src/actors/client_filter.rs\<close> and the reply to a filter update.
    The view has what the caller may see and names no hidden page in its lists; links to hidden pages
    are cut from texts; the gate answers for visible nodes only; path queries do not depend on
    hidden nodes; with its filter enabled a client is streamed what the reply to its update lists,
    and with it disabled what is not hidden from it.
  \<^item> \<open>Xr_Client\<close>, \<open>Xr_Session\<close>: \<open>xr-client/rust/src/binary_protocol.rs\<close> and its composition with
    the server over an ordered connection that may refuse a frame and be cut and opened again at
    any point. What the server takes as held is shown at that frame or a later one, and after a reconnect enough rounds make
    the headset show exactly the graph it may see.
  \<^item> \<open>Scc\<close>: \<open>src/layout/scc.rs\<close>. The explicit-stack loop ends and finds the components; layers are
    longest paths; the cycle report is exact.
  \<^item> \<open>Hold_Registry\<close>: \<open>src/actors/gpu/hold_registry.rs\<close>. Pins are exactly the held and the
    explicitly pinned nodes.
  \<^item> \<open>Rate_Limit\<close>, \<open>Circuit_Breaker\<close>, \<open>Message_Tracker\<close>: \<open>src/middleware/rate_limit.rs\<close>,
    \<open>src/utils/network/circuit_breaker.rs\<close>, \<open>src/actors/messaging\<close>. Bounds on admitted requests,
    opening and recovery of the breaker, and accounting for every message.
  \<^item> \<open>Broker\<close>, \<open>Promotion\<close>: \<open>src/domain/broker\<close> and \<open>crates/vault-core/src\<close>. Integrity of cases,
    the promotion state machine, and that only a human promotes.
  \<^item> \<open>Presence\<close>, \<open>Pose_Validation\<close>, \<open>Agent_Presence\<close>: \<open>crates/visionclaw-xr-presence/src\<close> and the
    decoder of \<open>xr-client/rust/src/presence.rs\<close>. Identifiers, rooms, pose deltas and the pose frame;
    the validators of the server and the sanitiser of the headset, which shows unchanged what the
    server accepts, never a position out of range and never a rotation that is not finite; the social state of agents, its deltas and
    its frame.
  \<^item> \<open>Presence_Actor\<close>: \<open>src/actors/presence_actor.rs\<close>, one room. Members, subscribers and local ids
    agree after every history, a valid pose reaches every other headset as it was sent, the tenth
    bad frame within a second kicks, of whatever kind the bad frames are, and members follow the state of an agent.
  \<^item> \<open>Pathfinding\<close>: \<open>src/services/pathfinding.rs\<close>, the single-source search. It ends and is exact
    for the sums it computes, roundings included.
  \<^item> \<open>Reasoner\<close>: \<open>crates/visionclaw-ontology/src/reasoning/custom_reasoner.rs\<close>. Membership is the
    closure of the assertions; inference is exact, unless a cycle makes it diverge.
  \<^item> \<open>Closure\<close>: \<open>crates/vault/src/closure.rs\<close>. Superclasses nearest first, inherited relations.
  \<^item> \<open>Rbac\<close>: roles, access levels and the central gate.

  \<^bold>\<open>Conventions.\<close> A struct is a record, an enum a datatype, an integer a word of its width where
  it can wrap; \<open>usize\<close> counters of collections in memory are natural numbers. Results are sums. A
  handler takes the state and returns it updated. What the sources get from elsewhere is a
  parameter: the clock readings, the hash function, the outcome of \<open>try_send\<close> and which mailboxes are
  connected, the iteration order of hash maps (any enumeration of the keys), which of several
  greatest entries a heap removes, the lower-case mapping of Unicode, and the JSON reader. Histories are lists of operations
  folded over the initial state.

  \<^bold>\<open>Termination.\<close> No fuel is used. Where the end of a loop is not evident from its shape, the
  loop either has a termination proof (the searches of \<open>Reasoner\<close> and \<open>Closure\<close> up a hierarchy with
  cycles, the integer square root) or is a partial function into \<open>option\<close>: that of \<open>tarjan\<close> is shown
  to return for every well-formed graph, that of \<open>single_source\<close> for weights that are not
  negative, as is \<open>path_to\<close> on its result, and that of \<open>get_all_subclasses\<close> exactly when no cycle
  lies below the class.

  \<^bold>\<open>Not modelled.\<close> GPU kernels and the physics that drives them, the actor framework and sockets,
  HTTP handlers and calls of external services, signature checks, the RDF store and its reasoner, the
  A*, bidirectional and semantic searches, the socket session in front of a presence room, force
  layouts in floating point, and rendering.
\<close>

end
